(* ===== verification/Surf_Prelude.thy ===== *)
theory Surf_Prelude
  imports Main "HOL-Library.Word" "HOL-Library.Monad_Syntax"
begin

text \<open>
  Shared vocabulary of the development: byte strings, big-endian integers, the option-valued
  results of the C++ functions that return \<^verbatim>\<open>bool\<close>, and the list facts the components
  share.  Nothing here models a particular source file.
\<close>

unbundle bit_operations_syntax

type_synonym byte = "8 word"
type_synonym bytes = "byte list"

named_theorems codec_simps \<open>round trips and lengths of the byte codecs\<close>
named_theorems result_simps \<open>unfolding of option-valued results\<close>

section \<open>Results\<close>

text \<open>A C++ early return \<^verbatim>\<open>if (!c) return false\<close>.\<close>

definition check :: "bool \<Rightarrow> unit option" where
  "check c = (if c then Some () else None)"

lemma check_eq_Some [result_simps]: "check c = Some u \<longleftrightarrow> c"
  by (simp add: check_def)

lemma check_eq_None [result_simps]: "check c = None \<longleftrightarrow> \<not> c"
  by (simp add: check_def)

lemma check_simps [simp]: "check True = Some ()" "check False = None"
  by (simp_all add: check_def)

lemma bind_check_eq_Some [result_simps]:
  "(check c \<bind> f) = Some x \<longleftrightarrow> c \<and> f () = Some x"
  by (simp add: check_def)

lemma bind_check_eq_None [result_simps]:
  "(check c \<bind> f) = None \<longleftrightarrow> (c \<longrightarrow> f () = None)"
  by (simp add: check_def)

declare bind_eq_Some_conv [result_simps]

section \<open>Big-endian integers\<close>

fun be_nat :: "bytes \<Rightarrow> nat" where
  "be_nat [] = 0"
| "be_nat (b # bs) = unat b * 256 ^ length bs + be_nat bs"

fun nat_be :: "nat \<Rightarrow> nat \<Rightarrow> bytes" where
  "nat_be 0 x = []"
| "nat_be (Suc n) x = word_of_nat (x div 256 ^ n) # nat_be n x"

lemma length_nat_be [simp, codec_simps]: "length (nat_be n x) = n"
  by (induction n) auto

lemma unat_byte_less [simp]: "unat (b :: byte) < 256"
  using unsigned_less [where w = b and 'a = nat] by simp

lemma be_nat_less: "be_nat bs < 256 ^ length bs"
proof (induction bs)
  case Nil
  then show ?case by simp
next
  case (Cons b bs)
  have "unat b \<le> 255" using unat_byte_less [of b] by linarith
  then have "unat b * 256 ^ length bs \<le> 255 * 256 ^ length bs" by (rule mult_le_mono1)
  with Cons have "unat b * 256 ^ length bs + be_nat bs < 255 * 256 ^ length bs + 256 ^ length bs"
    by linarith
  then show ?case by simp
qed

lemma be_nat_nat_be_mod: "be_nat (nat_be n x) = x mod 256 ^ n"
proof (induction n)
  case 0
  then show ?case by simp
next
  case (Suc n)
  have "unat (word_of_nat (x div 256 ^ n) :: byte) = x div 256 ^ n mod 256"
    by (simp add: unat_of_nat)
  then have "be_nat (nat_be (Suc n) x) = (x div 256 ^ n mod 256) * 256 ^ n + x mod 256 ^ n"
    by (simp add: Suc)
  also have "\<dots> = x mod (256 ^ n * 256)"
    by (simp add: mod_mult2_eq)
  finally show ?case by (simp add: mult.commute)
qed

lemma be_nat_nat_be [codec_simps]: "x < 256 ^ n \<Longrightarrow> be_nat (nat_be n x) = x"
  by (simp add: be_nat_nat_be_mod)

lemma nat_be_add_high: "nat_be n (k * 256 ^ n + x) = nat_be n x"
proof (induction n arbitrary: k)
  case 0
  then show ?case by simp
next
  case (Suc n)
  have "(k * 256 ^ Suc n + x) div 256 ^ n = k * 256 + x div 256 ^ n"
    using div_mult_self1 [of "256 ^ n" x "k * 256"] by (simp add: ac_simps)
  moreover have "(word_of_nat (k * 256 + x div 256 ^ n) :: byte) = word_of_nat (x div 256 ^ n)"
    by (simp add: word_of_nat_eq_iff take_bit_eq_mod del: of_nat_add of_nat_mult)
  moreover have "nat_be n (k * 256 ^ Suc n + x) = nat_be n x"
    using Suc [of "k * 256"] by (simp add: ac_simps)
  ultimately show ?case by simp
qed

lemma nat_be_be_nat [codec_simps]: "length bs = n \<Longrightarrow> nat_be n (be_nat bs) = bs"
proof (induction bs arbitrary: n)
  case Nil
  then show ?case by simp
next
  case (Cons b bs)
  have *: "nat_be (length bs) (unat b * 256 ^ length bs + be_nat bs) = bs"
    by (simp add: nat_be_add_high Cons)
  have "(unat b * 256 ^ length bs + be_nat bs) div 256 ^ length bs = unat b"
    using be_nat_less [of bs] by simp
  with * Cons.prems show ?case by auto
qed

lemma nat_be_inj: "x < 256 ^ n \<Longrightarrow> y < 256 ^ n \<Longrightarrow> nat_be n x = nat_be n y \<longleftrightarrow> x = y"
  by (metis be_nat_nat_be)

section \<open>Fixed-width chunks\<close>

lemma take_drop_concat:
  assumes "\<forall>xs \<in> set xss. length xs = w" and "i < length xss"
  shows "take w (drop (i * w) (concat xss)) = xss ! i"
  using assms
proof (induction xss arbitrary: i)
  case Nil
  then show ?case by simp
next
  case (Cons xs xss)
  then show ?case
  proof (cases i)
    case 0
    with Cons show ?thesis by simp
  next
    case (Suc j)
    with Cons have "take w (drop (j * w) (concat xss)) = xss ! j" by simp
    with Suc Cons.prems show ?thesis by simp
  qed
qed

lemma length_concat_const:
  "\<forall>xs \<in> set xss. length xs = w \<Longrightarrow> length (concat xss) = w * length xss"
  by (induction xss) auto

section \<open>Exclusive or\<close>

lemma xor_cancel [simp]: "(a :: 'a :: len word) XOR (a XOR b) = b"
  by (simp add: xor.assoc [symmetric])

lemma xor_cancel_right [simp]: "(a :: 'a :: len word) XOR (b XOR a) = b"
  by (simp add: xor.commute [of b])

lemma xor_left_inject [simp]: "(a :: 'a :: len word) XOR b = a XOR c \<longleftrightarrow> b = c"
  by (metis xor_cancel)

lemma xor_right_inject [simp]: "(b :: 'a :: len word) XOR a = c XOR a \<longleftrightarrow> b = c"
  by (metis xor.commute xor_left_inject)

end
