(* ===== verification/GF128.thy ===== *)
theory GF128
  imports Surf_Prelude
begin

text \<open>
  The field GF(2^128) of the F2128 multiplicative-to-additive conversion, as a ring of 128-bit
  words.  \<open>block\<close> is \<^verbatim>\<open>emp::block\<close>.
\<close>

type_synonym block = "128 word"

section \<open>Linear maps on blocks\<close>

definition xor_linear :: "('a :: len word \<Rightarrow> 'b :: len word) \<Rightarrow> bool" where
  "xor_linear f \<longleftrightarrow> (\<forall>a b. f (a XOR b) = f a XOR f b)"

lemma xor_linearI: "(\<And>a b. f (a XOR b) = f a XOR f b) \<Longrightarrow> xor_linear f"
  by (simp add: xor_linear_def)

lemma xor_linearD: "xor_linear f \<Longrightarrow> f (a XOR b) = f a XOR f b"
  by (simp add: xor_linear_def)

lemma xor_linear_0: "xor_linear f \<Longrightarrow> f 0 = 0"
  using xor_linearD [of f 0 0] by simp

named_theorems linear_intros \<open>xor-linear operations\<close>

lemma linear_id [linear_intros]: "xor_linear (\<lambda>a. a)"
  by (simp add: xor_linear_def)

lemma linear_zero [linear_intros]: "xor_linear (\<lambda>a. 0)"
  by (simp add: xor_linear_def)

lemma linear_xor [linear_intros]:
  "xor_linear f \<Longrightarrow> xor_linear g \<Longrightarrow> xor_linear (\<lambda>a. f a XOR g a)"
  by (simp add: xor_linear_def ac_simps)

lemma linear_push_bit [linear_intros]: "xor_linear f \<Longrightarrow> xor_linear (\<lambda>a. push_bit n (f a))"
  by (simp add: xor_linear_def push_bit_xor)

lemma linear_drop_bit [linear_intros]: "xor_linear f \<Longrightarrow> xor_linear (\<lambda>a. drop_bit n (f a))"
  by (simp add: xor_linear_def drop_bit_xor)

lemma linear_take_bit [linear_intros]: "xor_linear f \<Longrightarrow> xor_linear (\<lambda>a. take_bit n (f a))"
  by (simp add: xor_linear_def take_bit_xor)

lemma linear_comp:
  "xor_linear f \<Longrightarrow> xor_linear g \<Longrightarrow> xor_linear (\<lambda>a. f (g a))"
  by (simp add: xor_linear_def)

lemma linear_and_mask: "xor_linear (\<lambda>a. a AND m)"
  by (intro xor_linearI bit_eqI) (auto simp: bit_simps)

lemma linear_and [linear_intros]: "xor_linear f \<Longrightarrow> xor_linear (\<lambda>a. f a AND m)"
  by (rule linear_comp [OF linear_and_mask])

lemma linear_and' [linear_intros]: "xor_linear f \<Longrightarrow> xor_linear (\<lambda>a. m AND f a)"
  using linear_and [of f m] by (simp add: and.commute)

lemma linear_ucast_id: "xor_linear (ucast :: 'a :: len word \<Rightarrow> 'b :: len word)"
  by (intro xor_linearI bit_eqI) (auto simp: bit_simps)

lemma linear_ucast [linear_intros]:
  "xor_linear f \<Longrightarrow> xor_linear (\<lambda>a. ucast (f a) :: 'b :: len word)"
  by (rule linear_comp [OF linear_ucast_id])

lemma linear_if_bit [linear_intros]:
  "xor_linear f \<Longrightarrow> xor_linear (\<lambda>a. if bit (f a) n then c else 0)"
  by (auto simp: xor_linear_def bit_xor_iff)

lemma take_bit_Suc_xor:
  "take_bit (Suc n) (a :: 'a :: len word) = take_bit n a XOR (if bit a n then 2 ^ n else 0)"
  by (rule bit_eqI) (auto simp: bit_simps less_Suc_eq)

lemma linear_eqI:
  fixes f g :: "'a :: len word \<Rightarrow> 'b :: len word"
  assumes f: "xor_linear f" and g: "xor_linear g"
    and basis: "\<And>i. i < LENGTH('a) \<Longrightarrow> f (2 ^ i) = g (2 ^ i)"
  shows "f a = g a"
proof -
  have "f (take_bit n a) = g (take_bit n a)" if "n \<le> LENGTH('a)" for n
    using that
  proof (induction n)
    case 0
    then show ?case by (simp add: f g xor_linear_0)
  next
    case (Suc n)
    then show ?case
      by (simp add: take_bit_Suc_xor xor_linearD [OF f] xor_linearD [OF g] basis
          xor_linear_0 [OF f] xor_linear_0 [OF g])
  qed
  from this [of "LENGTH('a)"] show ?thesis by simp
qed

section \<open>The ring\<close>

text \<open>Multiplication by \<open>x\<close> modulo \<open>x^128 + x^7 + x^2 + x + 1\<close>, bit \<open>i\<close> being the
  coefficient of \<open>x^i\<close>.\<close>

definition xtime :: "block \<Rightarrow> block" where
  "xtime a = push_bit 1 a XOR (if bit a 127 then 0x87 else 0)"

primrec gf_mult_upto :: "nat \<Rightarrow> block \<Rightarrow> block \<Rightarrow> block" where
  "gf_mult_upto 0 a b = 0"
| "gf_mult_upto (Suc n) a b = gf_mult_upto n a b XOR (if bit b n then (xtime ^^ n) a else 0)"

datatype gf = Gf (ungf: block)

instantiation gf :: ab_group_add
begin

definition zero_gf_def: "0 = Gf 0"
definition plus_gf_def: "x + y = Gf (ungf x XOR ungf y)"
definition uminus_gf_def: "- (x :: gf) = x"
definition minus_gf_def: "x - y = Gf (ungf x XOR ungf y)"

instance
  by standard (simp_all add: zero_gf_def plus_gf_def uminus_gf_def minus_gf_def ac_simps)

end

lemma Gf_0: "Gf 0 = 0"
  by (simp add: zero_gf_def)

lemma Gf_xor: "Gf (a XOR b) = Gf a + Gf b"
  by (simp add: plus_gf_def)

lemma gf_add_self [simp]: "x + x = (0 :: gf)"
  by (simp add: plus_gf_def zero_gf_def)

lemma gf_uminus [simp]: "- x = (x :: gf)"
  by (simp add: uminus_gf_def)

lemma gf_minus [simp]: "x - y = x + (y :: gf)"
  by (simp add: minus_gf_def plus_gf_def)

lemma gf_add_cancel [simp]: "x + (x + y) = (y :: gf)"
  by (simp add: add.assoc [symmetric])

lemma gf_eq_iff_add: "x = y \<longleftrightarrow> x + y = (0 :: gf)"
  by (metis add_0_right gf_add_cancel gf_add_self)

lemma take_bit_128: "take_bit 128 a = (a :: block)"
  by (simp add: take_bit_word_eq_self)

lemma Gf_sum_bits: "Gf a = (\<Sum>i<128. if bit a i then Gf (2 ^ i) else 0)"
proof -
  have "Gf (take_bit n a) = (\<Sum>i<n. if bit a i then Gf (2 ^ i) else 0)" for n
    by (induction n) (auto simp: take_bit_Suc_xor Gf_xor Gf_0)
  from this [of 128] show ?thesis by (simp add: take_bit_128)
qed

lemma linear_Gf_sum:
  assumes "xor_linear f"
  shows "Gf (f a) = (\<Sum>i<128. if bit (a :: block) i then Gf (f (2 ^ i)) else 0)"
proof -
  have "Gf (f (take_bit n a)) = (\<Sum>i<n. if bit a i then Gf (f (2 ^ i)) else 0)" for n
    by (induction n) (auto simp: take_bit_Suc_xor xor_linearD [OF assms] Gf_xor Gf_0
        xor_linear_0 [OF assms])
  from this [of 128] show ?thesis by (simp add: take_bit_128)
qed

lemma linear_xtime [linear_intros]: "xor_linear xtime"
  unfolding xtime_def by (intro linear_intros)

lemma linear_xtime_pow: "xor_linear (xtime ^^ n)"
  by (induction n) (auto simp: xor_linear_def xor_linearD [OF linear_xtime])

lemma xtime_pow_one: "i < 128 \<Longrightarrow> (xtime ^^ i) 1 = 2 ^ i"
proof (induction i)
  case 0
  then show ?case by simp
next
  case (Suc i)
  then have "\<not> bit (2 ^ i :: block) 127" by (simp add: bit_simps)
  with Suc show ?case by (simp add: xtime_def push_bit_eq_mult)
qed

lemma xtime_pow_basis: "i < 128 \<Longrightarrow> (xtime ^^ n) (2 ^ i) = (xtime ^^ (n + i)) 1"
  by (simp add: xtime_pow_one funpow_add)

lemma gf_mult_upto_sum:
  "Gf (gf_mult_upto n a b) = (\<Sum>i<n. if bit b i then Gf ((xtime ^^ i) a) else 0)"
  by (induction n) (auto simp: Gf_xor Gf_0)

lemma gf_mult_symmetric:
  "Gf (gf_mult_upto 128 a b) =
     (\<Sum>i<128. \<Sum>j<128. if bit b i \<and> bit a j then Gf ((xtime ^^ (i + j)) 1) else 0)"
proof -
  have "(if bit b i then Gf ((xtime ^^ i) a) else 0) =
      (\<Sum>j<128. if bit b i \<and> bit a j then Gf ((xtime ^^ (i + j)) 1) else 0)" for i
    by (auto simp: linear_Gf_sum [OF linear_xtime_pow, of i a] xtime_pow_basis intro!: sum.cong)
  then show ?thesis by (simp add: gf_mult_upto_sum)
qed

lemma gf_mult_commute: "gf_mult_upto 128 a b = gf_mult_upto 128 b a"
proof -
  have "Gf (gf_mult_upto 128 a b) = Gf (gf_mult_upto 128 b a)"
    unfolding gf_mult_symmetric
    by (subst sum.swap) (simp only: add.commute conj_commute)
  then show ?thesis by simp
qed

lemma gf_mult_linear_left: "xor_linear (\<lambda>a. gf_mult_upto n a b)"
  by (induction n) (auto simp: xor_linear_def xor_linearD [OF linear_xtime_pow] ac_simps)

lemma gf_mult_xtime_left:
  "gf_mult_upto n ((xtime ^^ k) a) b = (xtime ^^ k) (gf_mult_upto n a b)"
proof (induction n)
  case 0
  then show ?case by (simp add: xor_linear_0 [OF linear_xtime_pow])
next
  case (Suc n)
  have "(xtime ^^ n) ((xtime ^^ k) a) = (xtime ^^ k) ((xtime ^^ n) a)"
    by (metis funpow_add add.commute comp_apply)
  with Suc show ?case
    by (simp add: xor_linearD [OF linear_xtime_pow] xor_linear_0 [OF linear_xtime_pow])
qed

lemma gf_mult_assoc:
  "gf_mult_upto 128 (gf_mult_upto 128 a b) c = gf_mult_upto 128 a (gf_mult_upto 128 b c)"
proof -
  let ?m = "gf_mult_upto 128"
  have lin: "xor_linear (\<lambda>x. ?m x a)" by (rule gf_mult_linear_left)
  have "?m (gf_mult_upto n b c) a = gf_mult_upto n (?m b a) c" for n
    by (induction n)
       (simp_all add: xor_linearD [OF lin] xor_linear_0 [OF lin] gf_mult_xtime_left)
  from this [of 128] show ?thesis by (metis gf_mult_commute)
qed

lemma gf_mult_one: "gf_mult_upto 128 a 1 = a"
proof -
  have "gf_mult_upto n a 1 = (if n = 0 then 0 else a)" for n
    by (induction n) (auto simp: bit_1_iff)
  from this [of 128] show ?thesis by simp
qed

instantiation gf :: comm_ring_1
begin

definition one_gf_def: "1 = Gf 1"
definition times_gf_def: "x * y = Gf (gf_mult_upto 128 (ungf x) (ungf y))"

instance
proof
  fix x y z :: gf
  show "x * y * z = x * (y * z)" by (simp add: times_gf_def gf_mult_assoc)
  show "x * y = y * x" by (simp add: times_gf_def gf_mult_commute)
  show "1 * x = x"
    using gf_mult_one [of "ungf x"] by (simp add: times_gf_def one_gf_def gf_mult_commute [of 1])
  show "(x + y) * z = x * z + y * z"
    by (simp add: times_gf_def plus_gf_def xor_linearD [OF gf_mult_linear_left])
  show "(0 :: gf) \<noteq> 1" by (simp add: zero_gf_def one_gf_def)
qed

end

lemma Gf_1: "Gf 1 = 1"
  by (simp add: one_gf_def)

lemma gf_square_add: "(x + y) * (x + y) = x * x + y * (y :: gf)"
  by (simp add: algebra_simps)

end
