(* ===== verification/GF128_Field.thy ===== *)
theory GF128_Field
  imports GF128
begin

text \<open>
  The ring of GF128 is a field: the trinomial-free irreducibility argument by certificate.
\<close>

section \<open>Powers of the generator\<close>

definition gf_X :: gf where
  "gf_X = Gf 2"

lemma Gf_xtime: "Gf (xtime a) = Gf a * gf_X"
proof -
  have "gf_mult_upto n a 2 = (if n \<le> 1 then 0 else xtime a)" for n
  proof (induction n)
    case (Suc n)
    have "bit (2 :: block) n \<longleftrightarrow> n = 1" by (auto simp: bit_2_iff)
    with Suc show ?case by (cases n) auto
  qed simp
  from this [of 128] show ?thesis by (simp add: times_gf_def gf_X_def)
qed

lemma Gf_xtime_pow: "Gf ((xtime ^^ k) a) = Gf a * gf_X ^ k"
  by (induction k) (simp_all add: Gf_xtime ac_simps)

lemma Gf_exp: "k < 128 \<Longrightarrow> Gf (2 ^ k) = gf_X ^ k"
  using Gf_xtime_pow [of k 1] by (simp add: xtime_pow_one Gf_1)

lemma xtime_no_carry: "\<not> bit a 127 \<Longrightarrow> xtime a = push_bit 1 a"
  by (simp add: xtime_def)

lemma Gf_push_bit:
  assumes "\<And>n. 128 - k \<le> n \<Longrightarrow> \<not> bit a n" and "k \<le> 128"
  shows "Gf (push_bit k a) = Gf a * gf_X ^ k"
proof -
  have "(xtime ^^ i) a = push_bit i a" if "i \<le> k" for i
    using that
  proof (induction i)
    case (Suc i)
    then have "\<not> bit (push_bit i a) 127"
      using assms(1) [of "127 - i"] assms(2) by (auto simp: bit_push_bit_iff)
    with Suc show ?case by (simp add: xtime_no_carry)
  qed simp
  from this [of k] show ?thesis by (simp add: Gf_xtime_pow [symmetric])
qed

lemma gf_X_128: "gf_X ^ 128 = gf_X ^ 7 + gf_X ^ 2 + gf_X + 1"
proof -
  have "gf_X ^ 128 = Gf (xtime ((xtime ^^ 127) 1))"
    by (simp add: Gf_xtime Gf_xtime_pow Gf_1 power_Suc2 [symmetric])
  also have "xtime ((xtime ^^ 127) 1) = 2 ^ 7 XOR 2 ^ 2 XOR 2 XOR 1"
    by (simp add: xtime_pow_one xtime_def bit_simps push_bit_eq_mult)
  also have "Gf \<dots> = gf_X ^ 7 + gf_X ^ 2 + gf_X + 1"
    using Gf_exp [of 7] Gf_exp [of 2] by (simp only: Gf_xor Gf_1 gf_X_def add.assoc)
  finally show ?thesis .
qed

lemma gf_X_128_mult: "gf_X ^ (128 + k) = gf_X ^ (k + 7) + gf_X ^ (k + 2) + gf_X ^ (k + 1) + gf_X ^ k"
  unfolding power_add [of _ 128] gf_X_128 by (simp add: algebra_simps power_add power2_eq_square)

section \<open>Idempotents\<close>

text \<open>
  \<open>cert\<close> is the table of a linear map that inverts \<open>a\<^sup>2 + a\<close> up to the constant
  coefficient: entry \<open>i\<close> is the image of \<open>x^i\<close>.
\<close>

definition cert :: "int list" where
  "cert = [
    0x295ac0b1f4731af9676aac9fa4b20b08, 0xe5da5595ee970b89929959af766af404,
    0xe5da5595ee970b89929959af766af406, 0x4e9826c74350bfe67783f7333404a20c,
    0xe5da5595ee970b89929959af766af402, 0x2aaea79ad7da34b07dc714cb83074e6a,
    0x4e9826c74350bfe67783f7333404a204, 0xcc8095241ae41171f5f3f531d2d9fe18,
    0xe5da5595ee970b89929959af766af412, 0x4e983687d159ce9677cb862e8ac85b44,
    0x2aaea79ad7da34b07dc714cb83074e4a, 0xaae2ab6aaf144aaff73fcb3c06aaff56,
    0x4e9826c74350bfe67783f7333404a244, 0xe62f327ccd5792dd893fe9ca40603f62,
    0xcc8095241ae41171f5f3f531d2d9fe98, 0xab52f0323f47c90be1336bc7d453b626,
    0xe5da5595ee970b89929959af766af512, 0x2abe34bad75338b479a6a089abf4573a,
    0x4e983687d159ce9677cb862e8ac85944, 0x1e8ccb9dcc72f2e1a9cbef8232562fc,
    0x2aaea79ad7da34b07dc714cb83074a4a, 0x2442c3221f3dc1a0ce869b24a80e48c,
    0xaae2ab6aaf144aaff73fcb3c06aaf756, 0xcf64612f39c4323deb3ff936dd9aa228,
    0x4e9826c74350bfe67783f7333404b244, 0xcc911696880d4909f0d5382a57572458,
    0xe62f327ccd5792dd893fe9ca40601f62, 0x4d7cd7cc29d28cf2697f6478e5db2834,
    0xcc8095241ae41171f5f3f531d2d9be98, 0xccc99127569146a7fc0956ca1a5b86a4,
    0xab52f0323f47c90be1336bc7d4533626, 0x65cece94dacd5b1c14f5986b001eeb82,
    0xe5da5595ee970b89929959af766bf512, 0x2b0e7fa2d509ca746fe27169c7c3e73a,
    0x2abe34bad75338b479a6a089abf6573a, 0x65df4d264824132411d3553885980142,
    0x4e983687d159ce9677cb862e8acc5944, 0xcf74f70e70ef2af7ef6fd21d2af671a4,
    0x1e8ccb9dcc72f2e1a9cbef8232d62fc, 0xcec4b9173b16cdf9f91a9d8499490f58,
    0x2aaea79ad7da34b07dc714cb83174a4a, 0x83f16f99175f624799a6cf206b513bdc,
    0x2442c3221f3dc1a0ce869b24aa0e48c, 0x3f562a96a2aa9081b9e27ebe84671c0,
    0xaae2ab6aaf144aaff73fcb3c06eaf756, 0xccc9c07ae11bcce3fcd6d526cddeebd4,
    0xcf64612f39c4323deb3ff936dd1aa228, 0xa95fc803c09556f7e461dfebe8467196,
    0x4e9826c74350bfe67783f7333504b244, 0x4cdc1ab0f0ab5b2e7b20ee03c15c7384,
    0xcc911696880d4909f0d5382a55572458, 0xaaba68961da11d79fb48c8c7fe68cf6a,
    0xe62f327ccd5792dd893fe9ca44601f62, 0xe5db5416ee209847938b5c70638d3bee,
    0x4d7cd7cc29d28cf2697f6478eddb2834, 0x6437818b95e2e76e0b49fa26a7e512ce,
    0xcc8095241ae41171f5f3f531c2d9be98, 0x4cd9020746184ba27868a299022ddf34,
    0xccc99127569146a7fc0956ca3a5b86a4, 0x824171dcefbe4a8b8f1d24e407e8e76c,
    0xab52f0323f47c90be1336bc794533626, 0xe62e22af1f6bf32b88711e202cdc3b5e,
    0x65cece94dacd5b1c14f5986b801eeb82, 0x83f4672b23a92e499aadb85427b54520,
    0xe5da5595ee970b89929959ae766bf512, 0x1040920971720048711dbeccf94c,
    0x2b0e7fa2d509ca746fe2716bc7c3e73a, 0x81edd40a7a7437cb99d6b267d0d7976c,
    0x2abe34bad75338b479a6a08dabf6573a, 0xe46a1e8deccdf96d84dd884d1a5d4462,
    0x65df4d264824132411d3553085980142, 0x804c1cb1eac70f698ab1aeeb3a605920,
    0x4e983687d159ce9677cb863e8acc5944, 0xa94f4b3252499e01e04514377dbd55aa,
    0xcf74f70e70ef2af7ef6fd23d2af671a4, 0xe7d77da5831189d3978a93f3f56f619e,
    0x1e8ccb9dcc72f2e1a9cbeb8232d62fc, 0x4cdd0f362b68e52a7a5109eab0a16ef4,
    0xcec4b9173b16cdf9f91a9d0499490f58, 0xe4329c3d7bf233698830781e88d05912,
    0x2aaea79ad7da34b07dc715cb83174a4a, 0x82082082597387418618bcbfcff334e0,
    0x83f16f99175f624799a6cd206b513bdc, 0x294b124ed1181a846297e291f4adcc3a,
    0x2442c3221f3dc1a0ce86db24aa0e48c, 0xe78fff41144664939b696b666550119e,
    0x3f562a96a2aa9081b9e2febe84671c0, 0xcd78dbfd54a1436beb568d9e63d55a14,
    0xaae2ab6aaf144aaff73fdb3c06eaf756, 0xccdd4e7b1ce38d0ffacabbbeed722b64,
    0xccc9c07ae11bcce3fcd6f526cddeebd4, 0x3e5e1ccb1bf89c61fb4754fa43bbf3c,
    0xcf64612f39c4323deb3fb936dd1aa228, 0xe5da00893461b455926f68f4172caea2,
    0xa95fc803c09556f7e4615febe8467196, 0xe78ae2a77b3e87b1981cf1dccb9d1fd2,
    0x4e9826c74350bfe67782f7333504b244, 0x2912d4222a675b0a6fd777b6c15f72c6,
    0x4cdc1ab0f0ab5b2e7b22ee03c15c7384, 0xe7d6682e58d237f196f8740f85956fd2,
    0xcc911696880d4909f0d1382a55572458, 0xab4366b0764a0b4be46143c933474626,
    0xaaba68961da11d79fb40c8c7fe68cf6a, 0xe7d77d718378aeb397849bb7f7de0d9e,
    0xe62f327ccd5792dd892fe9ca44601f62, 0x64231d9efb5729d60d13f9bd382e380e,
    0xe5db5416ee20984793ab5c70638d3bee, 0x81b51ab7a5fe1499959811bd9a557220,
    0x4d7cd7cc29d28cf2693f6478eddb2834, 0x295ab4bb43072c12678a4ee975a08406,
    0x6437818b95e2e76e0bc9fa26a7e512ce, 0xab0eead38eb165ebef9e1acd25989a26,
    0xcc8095241ae41171f4f3f531c2d9be98, 0x3ba7996db230c0010185b9b29b00000,
    0x4cd9020746184ba27a68a299022ddf34, 0x8210932010890d058261f45338765990,
    0xccc99127569146a7f80956ca3a5b86a4, 0x2a88e0fbb92f0c2c7f14722e3db361fa,
    0x824171dcefbe4a8b871d24e407e8e76c, 0x29b11e87b8989fd86fb067f47d17578a,
    0xab52f0323f47c90bf1336bc794533626, 0x0,
    0xe62e22af1f6bf32ba8711e202cdc3b5e, 0x862e22af1f6bf32ba8711e202cdc3b6c,
    0x65cece94dacd5b1c54f5986b801eeb82, 0x8e8cbdc6770aef73b1ef36f7c270bdac,
    0x83f4672b23a92e491aadb85427b54520, 0x38b21c09fae1613c0db7ed8c3891e6fa]"

definition cert_map :: "block \<Rightarrow> gf" where
  "cert_map a = (\<Sum>i<128. if bit a i then Gf (word_of_int (cert ! i)) else 0)"

text \<open>The exponents below 128 whose powers add up to \<open>x^k\<close>.\<close>

fun red_exps :: "nat \<Rightarrow> nat list" where
  "red_exps k =
     (if k < 128 then [k]
      else red_exps (k - 128) @ red_exps (k - 127) @ red_exps (k - 126) @ red_exps (k - 121))"

declare red_exps.simps [simp del]

lemma cert_check:
  "list_all (\<lambda>i. foldr (\<lambda>e a. cert ! e XOR a) (red_exps (2 * i) @ [i]) 0 = 2 ^ i) [1..<128]"
  by code_simp

lemma red_exps_less: "e \<in> set (red_exps k) \<Longrightarrow> e < 128"
  by (induction k rule: red_exps.induct) (subst (asm) (5) red_exps.simps, auto split: if_splits)

lemma red_exps_sum: "(\<Sum>e\<leftarrow>red_exps k. gf_X ^ e) = gf_X ^ k"
proof (induction k rule: red_exps.induct)
  case (1 k)
  show ?case
  proof (cases "k < 128")
    case True
    then show ?thesis by (subst red_exps.simps) simp
  next
    case False
    then have "k = 128 + (k - 128)" and e: "k - 127 = k - 128 + 1" "k - 126 = k - 128 + 2" "k - 121 = k - 128 + 7"
      by simp_all
    then have "gf_X ^ k = gf_X ^ (k - 121) + gf_X ^ (k - 126) + gf_X ^ (k - 127) + gf_X ^ (k - 128)"
      by (metis gf_X_128_mult)
    with 1 False show ?thesis by (subst red_exps.simps) (simp add: add_ac)
  qed
qed

lemma cert_map_add: "cert_map (a XOR b) = cert_map a + cert_map b"
proof -
  have "(if bit (a XOR b) i then c else 0) = (if bit a i then c else 0) + (if bit b i then c else 0)"
    for i and c :: gf by (simp add: bit_xor_iff)
  then show ?thesis by (simp add: cert_map_def sum.distrib)
qed

definition cert_gf :: "gf \<Rightarrow> gf" where
  "cert_gf x = cert_map (ungf x)"

lemma cert_gf_add: "cert_gf (x + y) = cert_gf x + cert_gf y"
  by (simp add: cert_gf_def plus_gf_def cert_map_add)

lemma cert_gf_0: "cert_gf 0 = 0"
  using cert_gf_add [of 0 0] by simp

lemma cert_gf_X: "i < 128 \<Longrightarrow> cert_gf (gf_X ^ i) = Gf (word_of_int (cert ! i))"
  by (simp add: cert_gf_def cert_map_def Gf_exp [symmetric] bit_simps
      cong: conj_cong if_cong)

lemma gf_span:
  assumes "P 0" and "\<And>i. i < 128 \<Longrightarrow> P (gf_X ^ i)" and "\<And>x y. P x \<Longrightarrow> P y \<Longrightarrow> P (x + y)"
  shows "P x"
proof -
  have "P (\<Sum>i<n. if bit (ungf x) i then Gf (2 ^ i) else 0)" if "n \<le> 128" for n
    using that by (induction n) (auto simp: assms Gf_exp)
  from this [of 128] show ?thesis using Gf_sum_bits [of "ungf x"] by simp
qed

definition clear_low :: "gf \<Rightarrow> gf" where
  "clear_low x = Gf (ungf x AND NOT 1)"

lemma clear_low_add: "clear_low (x + y) = clear_low x + clear_low y"
  using xor_linearD [OF linear_and_mask] by (simp add: clear_low_def plus_gf_def)

lemma clear_low_0: "clear_low 0 = 0"
  using clear_low_add [of 0 0] by simp

lemma clear_low_X: "i < 128 \<Longrightarrow> clear_low (gf_X ^ i) = (if i = 0 then 0 else gf_X ^ i)"
proof -
  assume i: "i < 128"
  have "(2 ^ i :: block) AND NOT 1 = (if i = 0 then 0 else 2 ^ i)"
    by (rule bit_eqI) (auto simp: bit_simps)
  with i show ?thesis by (auto simp: clear_low_def Gf_exp [symmetric] Gf_0)
qed

lemma Gf_cert_add:
  "Gf (word_of_int (a XOR b)) = Gf (word_of_int a) + Gf (word_of_int b)"
  by (simp add: Gf_xor of_int_xor_eq)

lemma list_all_uptD: "list_all P [m..<n] \<Longrightarrow> m \<le> i \<Longrightarrow> i < n \<Longrightarrow> P i"
  by (simp only: list_all_iff set_upt atLeastLessThan_iff Ball_def)

lemma cert_gf_list:
  "(\<forall>e \<in> set es. e < 128) \<Longrightarrow>
     cert_gf (\<Sum>e\<leftarrow>es. gf_X ^ e) = Gf (word_of_int (foldr (\<lambda>e a. cert ! e XOR a) es 0))"
  by (induction es) (simp_all add: cert_gf_add cert_gf_X Gf_cert_add Gf_0 cert_gf_0)

lemma cert_gf_basis:
  assumes "i < 128"
  shows "cert_gf (gf_X ^ i * gf_X ^ i + gf_X ^ i) = clear_low (gf_X ^ i)"
proof (cases "i = 0")
  case True
  then show ?thesis using clear_low_X [of 0] by (simp add: cert_gf_0)
next
  case False
  have "gf_X ^ i * gf_X ^ i + gf_X ^ i = (\<Sum>e\<leftarrow>red_exps (2 * i) @ [i]. gf_X ^ e)"
    by (simp add: red_exps_sum power_add [symmetric] mult_2)
  also have "cert_gf \<dots> =
      Gf (word_of_int (foldr (\<lambda>e a. cert ! e XOR a) (red_exps (2 * i) @ [i]) 0))"
    using assms red_exps_less by (intro cert_gf_list) auto
  also have "foldr (\<lambda>e a. cert ! e XOR a) (red_exps (2 * i) @ [i]) 0 = 2 ^ i"
    using list_all_uptD [OF cert_check] False assms by (metis One_nat_def Suc_leI not_gr_zero)
  finally show ?thesis using False assms by (simp add: clear_low_X Gf_exp)
qed

lemma cert_gf_inverts: "cert_gf (x * x + x) = clear_low x"
proof (rule gf_span [where P = "\<lambda>x. cert_gf (x * x + x) = clear_low x"])
  show "cert_gf (0 * 0 + 0) = clear_low 0"
    by (simp add: cert_gf_0 clear_low_0)
  show "cert_gf (gf_X ^ i * gf_X ^ i + gf_X ^ i) = clear_low (gf_X ^ i)" if "i < 128" for i
    using that by (rule cert_gf_basis)
  fix x y
  assume "cert_gf (x * x + x) = clear_low x" "cert_gf (y * y + y) = clear_low y"
  moreover have "(x + y) * (x + y) + (x + y) = (x * x + x) + (y * y + y)"
    by (simp add: gf_square_add add_ac)
  ultimately show "cert_gf ((x + y) * (x + y) + (x + y)) = clear_low (x + y)"
    by (simp only: cert_gf_add clear_low_add)
qed

lemma gf_idempotent:
  assumes "x * x = x"
  shows "x = 0 \<or> x = (1 :: gf)"
proof -
  have "clear_low x = 0" using cert_gf_inverts [of x] assms by (simp add: cert_gf_0)
  then have "ungf x AND NOT 1 = 0" by (simp add: clear_low_def zero_gf_def)
  then have "bit (ungf x) n \<Longrightarrow> n = 0" for n
    by (metis (no_types, lifting) bit_0_eq bit_and_iff bit_imp_le_length bit_not_iff bit_1_iff bot_apply bot_bool_def linorder_not_le possible_bit_word)
  then have "ungf x = (if bit (ungf x) 0 then 1 else 0)"
    by (intro bit_eqI) (auto simp: bit_1_iff)
  then show ?thesis by (metis Gf_0 Gf_1 gf.collapse)
qed

section \<open>The field\<close>

text \<open>\<open>x\<close> has a square root, so squaring is onto, hence one-to-one.\<close>

lemma gf_cube_inverse: "(gf_X ^ 3 + 1) * Gf 0x24924924924924924924924924924936 = 1"
proof -
  let ?s = "0x24924924924924924924924924924936 :: block"
  have "Gf ?s * gf_X ^ 3 = Gf (xtime (xtime (xtime ?s)))"
    using Gf_xtime_pow [of 3 ?s] by (simp add: numeral_3_eq_3)
  also have "xtime (xtime (xtime ?s)) = ?s XOR 1"
    by (simp add: xtime_def push_bit_eq_mult)
  finally have "Gf ?s * gf_X ^ 3 = Gf ?s + 1" unfolding Gf_xor Gf_1 .
  then show ?thesis by (simp add: algebra_simps)
qed

lemma gf_X_sqrt: "\<exists>r. r * r = gf_X"
proof -
  obtain s where s: "(gf_X ^ 3 + 1) * s = 1" using gf_cube_inverse by blast
  let ?r = "(gf_X ^ 64 + gf_X + 1) * s"
  have "(gf_X ^ 64 + gf_X + 1) * (gf_X ^ 64 + gf_X + 1) = gf_X ^ 128 + gf_X ^ 2 + 1"
    by (simp add: gf_square_add power_add [symmetric] power2_eq_square)
  also have "\<dots> = gf_X ^ 7 + gf_X"
    unfolding gf_X_128 by (simp add: add_ac)
  also have "\<dots> = gf_X * ((gf_X ^ 3 + 1) * (gf_X ^ 3 + 1))"
    unfolding gf_square_add by (simp add: distrib_left power_add [symmetric] power_Suc [symmetric] del: power_Suc)
  finally have "?r * ?r = gf_X * ((gf_X ^ 3 + 1) * s) * ((gf_X ^ 3 + 1) * s)"
    by (simp add: ac_simps)
  then show ?thesis using s by auto
qed

lemma finite_gf [simp]: "finite (UNIV :: gf set)"
proof -
  have "(UNIV :: gf set) = range Gf" by (metis UNIV_eq_I gf.exhaust rangeI)
  then show ?thesis by (metis finite finite_imageI)
qed

lemma card_gf: "card (UNIV :: gf set) = 2 ^ 128"
proof -
  have "(UNIV :: gf set) = range Gf" by (metis UNIV_eq_I gf.exhaust rangeI)
  moreover have "inj Gf" by (simp add: inj_def)
  ultimately have "card (UNIV :: gf set) = card (UNIV :: block set)" by (metis card_image)
  then show ?thesis by (simp add: card_word)
qed

lemma gf_square_surj: "\<exists>y. y * y = (x :: gf)"
proof (rule gf_span)
  obtain r where r: "r * r = gf_X" using gf_X_sqrt by blast
  show "\<exists>y. y * y = gf_X ^ i" for i
    by (rule exI [of _ "r ^ i"]) (simp add: power_mult_distrib [symmetric] r)
qed (use gf_square_add in \<open>auto intro: exI [of _ 0]\<close>)

lemma gf_square_zero: "x * x = 0 \<Longrightarrow> x = (0 :: gf)"
proof -
  assume "x * x = 0"
  have "surj (\<lambda>x :: gf. x * x)" using gf_square_surj by (metis surj_def)
  then have "inj (\<lambda>x :: gf. x * x)" by (simp add: finite_UNIV_surj_inj)
  with \<open>x * x = 0\<close> show ?thesis by (metis injD mult_zero_left)
qed

lemma gf_power_nonzero: "x \<noteq> 0 \<Longrightarrow> x ^ n \<noteq> (0 :: gf)"
proof -
  assume "x \<noteq> 0"
  then have *: "x ^ (2 ^ k) \<noteq> 0" for k
    by (induction k) (auto simp: mult_2 power_add dest: gf_square_zero)
  show ?thesis
  proof
    assume "x ^ n = 0"
    then have "x ^ (2 ^ n) = 0"
      using le_imp_power_dvd [of n "2 ^ n" x] by (simp add: less_imp_le)
    with * show False by blast
  qed
qed

lemma gf_power_idempotent: "\<exists>m > 0. x ^ m * x ^ m = (x :: gf) ^ m"
proof -
  have "\<not> inj (\<lambda>n :: nat. x ^ n)"
    using finite_imageD [of "\<lambda>n. x ^ n" UNIV] finite_subset [OF subset_UNIV finite_gf] by auto
  then obtain i d where d: "d > 0" "x ^ i = x ^ (i + d)"
    by (metis injI less_imp_add_positive linorder_neqE_nat)
  have step: "x ^ (i + j + k * d) = x ^ (i + j)" for j k
  proof (induction k)
    case (Suc k)
    have "x ^ (i + j + Suc k * d) = x ^ (i + d) * x ^ (j + k * d)"
      by (simp add: power_add [symmetric] ac_simps)
    also have "\<dots> = x ^ (i + j + k * d)"
      unfolding d(2) [symmetric] by (simp add: power_add [symmetric] ac_simps)
    finally show ?case using Suc by simp
  qed simp
  let ?m = "Suc i * d"
  have "i + (?m - i) = ?m" using d(1) by (cases d) simp_all
  with step [of "?m - i" "Suc i"] have "x ^ ?m * x ^ ?m = x ^ ?m"
    by (simp only: power_add)
  then show ?thesis using d(1) by (intro exI [of _ ?m]) simp
qed

lemma gf_unit: "x \<noteq> 0 \<Longrightarrow> \<exists>y. x * y = (1 :: gf)"
proof -
  assume x: "x \<noteq> 0"
  obtain m where m: "m > 0" "x ^ m * x ^ m = x ^ m" using gf_power_idempotent by blast
  then have "x ^ m = 1" using gf_idempotent gf_power_nonzero [OF x] by blast
  then have "x * x ^ (m - 1) = 1" using m(1) by (metis power_eq_if not_gr_zero)
  then show ?thesis by blast
qed

lemma gf_no_zero_divisors: "x * y = 0 \<Longrightarrow> x = 0 \<or> y = (0 :: gf)"
  by (metis gf_unit mult.assoc mult.commute mult_1 mult_zero_left)

lemma gf_fermat:
  assumes "x \<noteq> (0 :: gf)"
  shows "x ^ (2 ^ 128 - 1) = 1"
proof -
  let ?U = "UNIV - {0 :: gf}"
  have fin: "finite ?U" by (rule finite_subset [OF subset_UNIV finite_gf])
  have card: "card ?U = 2 ^ 128 - 1"
    using card_Diff_singleton [of "0 :: gf" UNIV] by (simp only: card_gf UNIV_I if_True)
  have nz: "prod id A \<noteq> 0" if "finite A" "A \<subseteq> ?U" for A
    using that by (induction A rule: finite_induct) (auto dest: gf_no_zero_divisors)
  obtain z where z: "x * z = 1" using gf_unit [OF assms] by blast
  have "bij_betw ((*) x) ?U ?U"
  proof (rule bij_betw_byWitness [where f' = "(*) z"])
    show "(*) x ` ?U \<subseteq> ?U" using assms by (auto dest: gf_no_zero_divisors)
    show "(*) z ` ?U \<subseteq> ?U" using z by (auto dest: gf_no_zero_divisors)
  qed (simp_all add: mult.assoc [symmetric] z z [unfolded mult.commute [of x]])
  then have "prod id ?U = prod (\<lambda>y. x * y) ?U"
    using prod.reindex_bij_betw [of "(*) x" ?U ?U id] by simp
  also have "\<dots> = x ^ (2 ^ 128 - 1) * prod id ?U"
    using card by (simp only: prod.distrib prod_constant id_def)
  finally have "(x ^ (2 ^ 128 - 1) + 1) * prod id ?U = 0"
    by (metis distrib_right gf_add_self mult_1)
  then show ?thesis using nz [OF fin] gf_no_zero_divisors gf_eq_iff_add by blast
qed

instantiation gf :: field
begin

definition inverse_gf_def: "inverse x = (x :: gf) ^ (2 ^ 128 - 2)"
definition divide_gf_def: "x div y = (x :: gf) * inverse y"

instance
proof
  fix x y :: gf
  show "inverse x * x = 1" if "x \<noteq> 0"
  proof -
    have "inverse x * x = x ^ Suc (2 ^ 128 - 2)" by (simp only: inverse_gf_def power_Suc2)
    also have "Suc (2 ^ 128 - 2) = 2 ^ 128 - 1" by simp
    finally show ?thesis using gf_fermat [OF that] by simp
  qed
  show "x div y = x * inverse y" by (rule divide_gf_def)
  show "inverse (0 :: gf) = 0" by (simp add: inverse_gf_def)
qed

end

end
