(* ===== verification/F2128_Arith.thy ===== *)
theory F2128_Arith
  imports GF128_Field
begin

text \<open>
  Block arithmetic: the SSE intrinsics the code calls, and on top of them the field operations of
  \<^verbatim>\<open>F2128_MTA\<close> (mul, inv, shift_left_bits, shift_right_bits, arr_to_block, block_to_arr) and of
  emp's f2k.h (mul128, gfmul, vector_inn_prdt_sum_red).  The lemmas show that both multiplications
  are the product of the field \<open>gf\<close>.
\<close>

section \<open>Intrinsics\<close>

text \<open>Lane \<open>i\<close> of a block, counted from the least significant end.\<close>

definition epi32 :: "block \<Rightarrow> nat \<Rightarrow> 32 word" where
  "epi32 a i = ucast (drop_bit (32 * i) a)"

definition set_epi32 :: "32 word \<Rightarrow> 32 word \<Rightarrow> 32 word \<Rightarrow> 32 word \<Rightarrow> block" where
  "set_epi32 e3 e2 e1 e0 =
     push_bit 96 (ucast e3) OR push_bit 64 (ucast e2) OR push_bit 32 (ucast e1) OR ucast e0"

definition epi64 :: "block \<Rightarrow> nat \<Rightarrow> 64 word" where
  "epi64 a i = ucast (drop_bit (64 * i) a)"

definition set_epi64x :: "64 word \<Rightarrow> 64 word \<Rightarrow> block" where
  "set_epi64x e1 e0 = push_bit 64 (ucast e1) OR ucast e0"

definition mm_setr_epi32 :: "32 word \<Rightarrow> 32 word \<Rightarrow> 32 word \<Rightarrow> 32 word \<Rightarrow> block" where
  "mm_setr_epi32 e0 e1 e2 e3 = set_epi32 e3 e2 e1 e0"

definition mm_shuffle_epi32 :: "block \<Rightarrow> nat \<Rightarrow> block" where
  "mm_shuffle_epi32 a imm =
     set_epi32 (epi32 a (imm div 64 mod 4)) (epi32 a (imm div 16 mod 4))
       (epi32 a (imm div 4 mod 4)) (epi32 a (imm mod 4))"

definition mm_srli_epi32 :: "block \<Rightarrow> nat \<Rightarrow> block" where
  "mm_srli_epi32 a n =
     set_epi32 (drop_bit n (epi32 a 3)) (drop_bit n (epi32 a 2))
       (drop_bit n (epi32 a 1)) (drop_bit n (epi32 a 0))"

definition mm_slli_epi32 :: "block \<Rightarrow> nat \<Rightarrow> block" where
  "mm_slli_epi32 a n =
     set_epi32 (push_bit n (epi32 a 3)) (push_bit n (epi32 a 2))
       (push_bit n (epi32 a 1)) (push_bit n (epi32 a 0))"

definition mm_srli_epi64 :: "block \<Rightarrow> nat \<Rightarrow> block" where
  "mm_srli_epi64 a n = set_epi64x (drop_bit n (epi64 a 1)) (drop_bit n (epi64 a 0))"

definition mm_slli_epi64 :: "block \<Rightarrow> nat \<Rightarrow> block" where
  "mm_slli_epi64 a n = set_epi64x (push_bit n (epi64 a 1)) (push_bit n (epi64 a 0))"

text \<open>Byte shifts of the whole register.\<close>

definition mm_slli_si128 :: "block \<Rightarrow> nat \<Rightarrow> block" where
  "mm_slli_si128 a n = push_bit (8 * n) a"

definition mm_srli_si128 :: "block \<Rightarrow> nat \<Rightarrow> block" where
  "mm_srli_si128 a n = drop_bit (8 * n) a"

definition mm_andnot_si128 :: "block \<Rightarrow> block \<Rightarrow> block" where
  "mm_andnot_si128 a b = NOT a AND b"

text \<open>Carry-less product of two 64-bit lanes; bit 0 of the immediate selects the lane of the first
  operand, bit 4 that of the second.\<close>

primrec clmul_upto :: "nat \<Rightarrow> block \<Rightarrow> 64 word \<Rightarrow> block" where
  "clmul_upto 0 a b = 0"
| "clmul_upto (Suc n) a b = clmul_upto n a b XOR (if bit b n then push_bit n a else 0)"

definition mm_clmulepi64_si128 :: "block \<Rightarrow> block \<Rightarrow> nat \<Rightarrow> block" where
  "mm_clmulepi64_si128 a b imm =
     clmul_upto 64 (ucast (epi64 a (imm mod 2))) (epi64 b (imm div 16 mod 2))"

definition makeBlock :: "64 word \<Rightarrow> 64 word \<Rightarrow> block" where
  "makeBlock high low = set_epi64x high low"

definition getLSB :: "block \<Rightarrow> bool" where
  "getLSB x = bit x 0"

fun cmpBlock :: "block list \<Rightarrow> block list \<Rightarrow> nat \<Rightarrow> bool" where
  "cmpBlock xs ys 0 = True"
| "cmpBlock xs ys (Suc n) =
     (if hd xs XOR hd ys \<noteq> 0 then False else cmpBlock (tl xs) (tl ys) n)"

section \<open>The operations of F2128_MTA\<close>

definition XMMMASK :: block where
  "XMMMASK = mm_setr_epi32 (-1) 0 0 0"

text \<open>The reduction that \<open>mul\<close> and \<open>gfmul\<close> share, from the two halves of the product on.\<close>

definition reduce_halves :: "block \<Rightarrow> block \<Rightarrow> block" where
  "reduce_halves tmp3 tmp6 =
     (let tmp7 = mm_srli_epi32 tmp6 31;
          tmp8 = mm_srli_epi32 tmp6 30;
          tmp9 = mm_srli_epi32 tmp6 25;
          tmp7 = tmp7 XOR tmp8;
          tmp7 = tmp7 XOR tmp9;
          tmp8 = mm_shuffle_epi32 tmp7 147;
          tmp7 = XMMMASK AND tmp8;
          tmp8 = mm_andnot_si128 XMMMASK tmp8;
          tmp3 = tmp3 XOR tmp8;
          tmp6 = tmp6 XOR tmp7;
          tmp10 = mm_slli_epi32 tmp6 1;
          tmp3 = tmp3 XOR tmp10;
          tmp11 = mm_slli_epi32 tmp6 2;
          tmp3 = tmp3 XOR tmp11;
          tmp12 = mm_slli_epi32 tmp6 7;
          tmp3 = tmp3 XOR tmp12
      in tmp6 XOR tmp3)"

definition mul :: "block \<Rightarrow> block \<Rightarrow> block" where
  "mul a b =
     (let tmp3 = mm_clmulepi64_si128 a b 0x00;
          tmp6 = mm_clmulepi64_si128 a b 0x11;
          tmp4 = mm_shuffle_epi32 a 78;
          tmp5 = mm_shuffle_epi32 b 78;
          tmp4 = tmp4 XOR a;
          tmp5 = tmp5 XOR b;
          tmp4 = mm_clmulepi64_si128 tmp4 tmp5 0x00;
          tmp4 = tmp4 XOR tmp3;
          tmp4 = tmp4 XOR tmp6;
          tmp5 = mm_slli_si128 tmp4 8;
          tmp4 = mm_srli_si128 tmp4 8;
          tmp3 = tmp3 XOR tmp5;
          tmp6 = tmp6 XOR tmp4
      in reduce_halves tmp3 tmp6)"

primrec inv_loop :: "nat \<Rightarrow> block \<Rightarrow> block \<Rightarrow> block" where
  "inv_loop 0 a cur = cur"
| "inv_loop (Suc n) a cur = inv_loop n a (let cur = mul cur a in mul cur cur)"

definition inv_block :: "block \<Rightarrow> block" where
  "inv_block a = inv_loop 127 a (makeBlock 0 1)"

definition shift_left_bits :: "nat \<Rightarrow> block \<Rightarrow> block" where
  "shift_left_bits bits i =
     (if bits \<ge> 64 then mm_slli_si128 (mm_slli_si128 i 8) (bits - 64)
      else let v1 = mm_slli_epi64 i bits;
               v2 = mm_slli_si128 i 8;
               v2 = mm_srli_epi64 v2 (64 - bits)
           in v1 OR v2)"

definition shift_right_bits :: "nat \<Rightarrow> block \<Rightarrow> block" where
  "shift_right_bits bits i =
     (if bits \<ge> 64 then mm_srli_epi64 (mm_srli_si128 i 8) (bits - 64)
      else let v1 = mm_srli_epi64 i bits;
               v2 = mm_srli_si128 i 8;
               v2 = mm_slli_epi64 v2 (64 - bits)
           in v1 OR v2)"

fun le_block :: "bytes \<Rightarrow> block" where
  "le_block [] = 0"
| "le_block (x # xs) = ucast x OR push_bit 8 (le_block xs)"

definition arr_to_block :: "bytes \<Rightarrow> block" where
  "arr_to_block xs = le_block xs"

definition block_to_arr :: "block \<Rightarrow> bytes" where
  "block_to_arr b = map (\<lambda>i. ucast (drop_bit (8 * i) b)) [0..<16]"

section \<open>emp's f2k.h\<close>

definition mul128 :: "block \<Rightarrow> block \<Rightarrow> block \<times> block" where
  "mul128 a b =
     (let tmp3 = mm_clmulepi64_si128 a b 0x00;
          tmp4 = mm_clmulepi64_si128 a b 0x10;
          tmp5 = mm_clmulepi64_si128 a b 0x01;
          tmp6 = mm_clmulepi64_si128 a b 0x11;
          tmp4 = tmp4 XOR tmp5;
          tmp5 = mm_slli_si128 tmp4 8;
          tmp4 = mm_srli_si128 tmp4 8;
          tmp3 = tmp3 XOR tmp5;
          tmp6 = tmp6 XOR tmp4
      in (tmp3, tmp6))"

definition gfmul :: "block \<Rightarrow> block \<Rightarrow> block" where
  "gfmul a b = (let (tmp3, tmp6) = mul128 a b in reduce_halves tmp3 tmp6)"

fun vector_inn_prdt_sum_red :: "block list \<Rightarrow> block list \<Rightarrow> nat \<Rightarrow> block" where
  "vector_inn_prdt_sum_red a b sz =
     foldl (\<lambda>r i. r XOR gfmul (a ! i) (b ! i)) 0 [0..<sz]"

section \<open>Bits of the intrinsics\<close>

named_theorems lane_bits \<open>bits of the intrinsics\<close>

lemma bit_set_epi32 [lane_bits]:
  "bit (set_epi32 e3 e2 e1 e0) n \<longleftrightarrow>
     (if n < 32 then bit e0 n else if n < 64 then bit e1 (n - 32)
      else if n < 96 then bit e2 (n - 64) else n < 128 \<and> bit e3 (n - 96))"
  by (auto simp: set_epi32_def bit_simps dest: bit_imp_le_length)

lemma bit_epi32 [lane_bits]: "bit (epi32 a i) n \<longleftrightarrow> n < 32 \<and> bit a (32 * i + n)"
  by (auto simp: epi32_def bit_simps)

lemma bit_set_epi64x [lane_bits]:
  "bit (set_epi64x e1 e0) n \<longleftrightarrow> (if n < 64 then bit e0 n else n < 128 \<and> bit e1 (n - 64))"
  by (auto simp: set_epi64x_def bit_simps dest: bit_imp_le_length)

lemma bit_epi64 [lane_bits]: "bit (epi64 a i) n \<longleftrightarrow> n < 64 \<and> bit a (64 * i + n)"
  by (auto simp: epi64_def bit_simps)

lemma bit_srli_epi32 [lane_bits]:
  "bit (mm_srli_epi32 a k) n \<longleftrightarrow> n mod 32 + k < 32 \<and> bit a (n + k)"
proof -
  consider "n < 32" | "32 \<le> n" "n < 64" | "64 \<le> n" "n < 96" | "96 \<le> n" "n < 128" | "128 \<le> n"
    by linarith
  then show ?thesis
    by cases (auto simp: mm_srli_epi32_def lane_bits bit_simps le_mod_geq mod_less ac_simps
        dest!: bit_imp_le_length)
qed

lemma XMMMASK_eq: "XMMMASK = mask 32"
  by (rule bit_eqI) (auto simp: XMMMASK_def mm_setr_epi32_def lane_bits bit_simps)

lemma bit_slli_epi32 [lane_bits]:
  "bit (mm_slli_epi32 a k) n \<longleftrightarrow> n < 128 \<and> k \<le> n mod 32 \<and> bit a (n - k)"
proof -
  consider "n < 32" | "32 \<le> n" "n < 64" | "64 \<le> n" "n < 96" | "96 \<le> n" "n < 128" | "128 \<le> n"
    by linarith
  then show ?thesis
    by cases (auto simp: mm_slli_epi32_def lane_bits bit_simps le_mod_geq mod_less ac_simps)
qed

lemma bit_shuffle_78 [lane_bits]:
  "bit (mm_shuffle_epi32 a 78) n \<longleftrightarrow> n < 128 \<and> bit a (if n < 64 then n + 64 else n - 64)"
  by (auto simp: mm_shuffle_epi32_def lane_bits ac_simps)

lemma bit_shuffle_147 [lane_bits]:
  "bit (mm_shuffle_epi32 a 147) n \<longleftrightarrow> n < 128 \<and> bit a (if n < 32 then n + 96 else n - 32)"
  by (auto simp: mm_shuffle_epi32_def lane_bits ac_simps)

lemma mask_128_bits: "bit (XMMMASK AND a) n \<longleftrightarrow> n < 32 \<and> bit a n"
  "bit (mm_andnot_si128 XMMMASK a) n \<longleftrightarrow> 32 \<le> n \<and> bit a n"
  by (auto simp: XMMMASK_eq mm_andnot_si128_def bit_simps dest: bit_imp_le_length)

section \<open>Reduction\<close>

definition overflow7 :: "block \<Rightarrow> block" where
  "overflow7 h = drop_bit 127 h XOR drop_bit 126 h XOR drop_bit 121 h"

lemma bit_beyond: "128 \<le> n \<Longrightarrow> \<not> bit (a :: block) n"
  by (auto dest: bit_imp_le_length)

lemma bit_less_128: "bit (a :: block) n \<Longrightarrow> n < 128"
  by (auto dest: bit_imp_le_length)

lemma bit_overflow7:
  "bit (overflow7 h) n \<longleftrightarrow> n < 7 \<and> (bit h (n + 127) \<noteq> (bit h (n + 126) \<noteq> bit h (n + 121)))"
  by (cases "n < 7") (auto simp: overflow7_def bit_simps add.commute [of n] bit_beyond)

lemma overflow_lane:
  "XMMMASK AND mm_shuffle_epi32 ((mm_srli_epi32 h 31 XOR mm_srli_epi32 h 30) XOR mm_srli_epi32 h 25) 147
     = overflow7 h"
proof (rule bit_eqI)
  fix n :: nat
  have m: "(n + 96) mod 32 = n" if "n < 32" using that mod_add_right_eq [of n 96 32] by simp
  have "bit (mm_srli_epi32 h k) (n + 96) = bit h (n + 96 + k)" if "n < 32" for k
    using that by (auto simp: lane_bits m dest: bit_less_128)
  then show "bit (XMMMASK AND mm_shuffle_epi32 ((mm_srli_epi32 h 31 XOR mm_srli_epi32 h 30) XOR
      mm_srli_epi32 h 25) 147) n = bit (overflow7 h) n"
    by (cases "n < 7"; cases "n < 32") (auto simp: mask_128_bits bit_shuffle_147 bit_overflow7 bit_xor_iff bit_beyond add.commute [of _ n])
qed

lemma shift_by_lanes:
  assumes "0 < k" "k \<le> 7" and "\<And>m. 7 \<le> m \<Longrightarrow> bit h' m = bit h m"
  shows "push_bit k h' =
     mm_slli_epi32 h' k XOR mm_andnot_si128 XMMMASK (mm_shuffle_epi32 (mm_srli_epi32 h (32 - k)) 147)"
proof (rule bit_eqI)
  fix n
  assume "possible_bit TYPE(block) n"
  then have n: "n < 128" by simp
  show "bit (push_bit k h') n = bit (mm_slli_epi32 h' k XOR
      mm_andnot_si128 XMMMASK (mm_shuffle_epi32 (mm_srli_epi32 h (32 - k)) 147)) n"
  proof (cases "n < 32")
    case True
    then show ?thesis using n assms by (auto simp: bit_simps lane_bits mask_128_bits)
  next
    case False
    moreover have "(n - 32) mod 32 = n mod 32" using False by (simp add: le_mod_geq)
    moreover have "n - 32 + (32 - k) = n - k" using False assms by simp
    moreover have "bit h' (n - k) = bit h (n - k)" using False assms by simp
    ultimately show ?thesis using n assms(1,2)
      by (auto simp: bit_simps lane_bits mask_128_bits)
  qed
qed

lemma andnot_shuffle_xor:
  "mm_andnot_si128 m (mm_shuffle_epi32 (a XOR b) 147) =
     mm_andnot_si128 m (mm_shuffle_epi32 a 147) XOR mm_andnot_si128 m (mm_shuffle_epi32 b 147)"
  by (rule bit_eqI) (auto simp: mm_andnot_si128_def bit_simps lane_bits)

lemma reduce_halves_eq:
  "reduce_halves lo h =
     (let h' = h XOR overflow7 h in lo XOR h' XOR push_bit 1 h' XOR push_bit 2 h' XOR push_bit 7 h')"
proof -
  have "bit (h XOR overflow7 h) m = bit h m" if "7 \<le> m" for m
    using that by (simp add: bit_xor_iff bit_overflow7)
  then have sh: "push_bit k (h XOR overflow7 h) = mm_slli_epi32 (h XOR overflow7 h) k XOR
      mm_andnot_si128 XMMMASK (mm_shuffle_epi32 (mm_srli_epi32 h (32 - k)) 147)" if "k \<in> {1, 2, 7}" for k
    using that by (intro shift_by_lanes) auto
  have "32 - 1 = (31 :: nat)" "32 - 2 = (30 :: nat)" "32 - 7 = (25 :: nat)" by simp_all
  with sh [of 1] sh [of 2] sh [of 7] show ?thesis
    unfolding Let_def reduce_halves_def overflow_lane andnot_shuffle_xor
    by (simp only: insert_iff simp_thms ac_simps)
qed

lemma Gf_shift:
  assumes "k \<le> 128"
  shows "Gf (push_bit k h) = Gf h * gf_X ^ k + Gf (drop_bit (128 - k) h) * gf_X ^ 128"
proof -
  let ?lo = "take_bit (128 - k) h" and ?hi = "drop_bit (128 - k) h"
  have split: "h = ?lo XOR push_bit (128 - k) ?hi"
    by (rule bit_eqI) (auto simp: bit_simps)
  have push: "push_bit k h = push_bit k ?lo"
    using assms by (intro bit_eqI) (auto simp: bit_simps)
  have lo: "Gf (push_bit k ?lo) = Gf ?lo * gf_X ^ k"
    using assms by (intro Gf_push_bit) (auto simp: bit_simps)
  have hi: "Gf (push_bit (128 - k) ?hi) = Gf ?hi * gf_X ^ (128 - k)"
    by (intro Gf_push_bit) (auto simp: bit_simps dest: bit_imp_le_length)
  have "Gf h * gf_X ^ k = Gf ?lo * gf_X ^ k + Gf ?hi * gf_X ^ (128 - k + k)"
    by (subst split) (simp only: Gf_xor hi distrib_right power_add mult.assoc)
  moreover have "128 - k + k = 128" using assms by simp
  ultimately show ?thesis by (simp only: lo push add.assoc gf_add_self add_0_right)
qed

lemma Gf_reduce_halves: "Gf (reduce_halves lo h) = Gf lo + Gf h * gf_X ^ 128"
proof -
  let ?h = "h XOR overflow7 h"
  have d: "drop_bit n ?h = drop_bit n h" if "7 \<le> n" for n
    using that by (intro bit_eqI) (simp add: bit_simps bit_overflow7)
  have over: "Gf (overflow7 h) =
      Gf (drop_bit 127 ?h) + (Gf (drop_bit 126 ?h) + Gf (drop_bit 121 ?h))"
    by (simp add: overflow7_def Gf_xor d ac_simps)
  have "Gf (reduce_halves lo h) =
      Gf lo + Gf ?h * (1 + gf_X + gf_X ^ 2 + gf_X ^ 7) + Gf (overflow7 h) * gf_X ^ 128"
    unfolding reduce_halves_eq Let_def Gf_xor [of "lo XOR _ XOR _ XOR _"] over
    by (simp only: Gf_xor Gf_shift [of 1] Gf_shift [of 2] Gf_shift [of 7]) (simp add: algebra_simps)
  also have "1 + gf_X + gf_X ^ 2 + gf_X ^ 7 = gf_X ^ 128" by (simp add: gf_X_128 add_ac)
  finally show ?thesis by (simp add: Gf_xor distrib_right add_ac)
qed

section \<open>Multiplication\<close>

lemma ucast_epi64: "ucast (epi64 a 0) = take_bit 64 a" "ucast (epi64 a 1) = drop_bit 64 a"
  by (rule bit_eqI; auto simp: lane_bits bit_simps dest: bit_less_128)+

lemma Gf_clmul_upto:
  assumes "n \<le> 64" and "\<And>i. 64 \<le> i \<Longrightarrow> \<not> bit a i"
  shows "Gf (clmul_upto n a b) = Gf a * Gf (take_bit n (ucast b))"
  using assms(1)
proof (induction n)
  case (Suc n)
  have "Gf (push_bit n a) = Gf a * gf_X ^ n"
    using assms(2) Suc.prems by (intro Gf_push_bit) auto
  moreover have "bit (ucast b :: block) n = bit b n" using Suc.prems by (simp add: bit_simps)
  ultimately show ?case
    using Suc by (simp add: Gf_xor Gf_0 Gf_exp take_bit_Suc_xor distrib_left)
qed (simp add: Gf_0)

lemma Gf_clmul:
  "Gf (mm_clmulepi64_si128 a b imm) =
     Gf (ucast (epi64 a (imm mod 2))) * Gf (ucast (epi64 b (imm div 16 mod 2)))"
proof -
  have "take_bit 64 (ucast (c :: 64 word)) = (ucast c :: block)" for c
    by (rule bit_eqI) (auto simp: bit_simps dest: bit_imp_le_length)
  then show ?thesis
    by (subst mm_clmulepi64_si128_def, subst Gf_clmul_upto) (auto simp: bit_simps dest: bit_imp_le_length)
qed

definition lo64 :: "block \<Rightarrow> gf" where "lo64 a = Gf (take_bit 64 a)"
definition hi64 :: "block \<Rightarrow> gf" where "hi64 a = Gf (drop_bit 64 a)"

lemma Gf_halves: "Gf a = lo64 a + hi64 a * gf_X ^ 64"
proof -
  have "a = take_bit 64 a XOR push_bit 64 (drop_bit 64 a)"
    by (rule bit_eqI) (auto simp: bit_simps)
  moreover have "Gf (push_bit 64 (drop_bit 64 a)) = Gf (drop_bit 64 a) * gf_X ^ 64"
    by (rule Gf_push_bit) (auto simp: bit_simps bit_beyond)
  ultimately show ?thesis by (metis Gf_xor hi64_def lo64_def)
qed

lemma Gf_clmul_halves:
  "Gf (mm_clmulepi64_si128 a b 0x00) = lo64 a * lo64 b"
  "Gf (mm_clmulepi64_si128 a b 0x01) = hi64 a * lo64 b"
  "Gf (mm_clmulepi64_si128 a b 0x10) = lo64 a * hi64 b"
  "Gf (mm_clmulepi64_si128 a b 0x11) = hi64 a * hi64 b"
  by (simp_all add: Gf_clmul lo64_def hi64_def ucast_epi64 ucast_epi64 [unfolded One_nat_def])

lemma lo64_swap_xor: "lo64 (mm_shuffle_epi32 a 78 XOR a) = lo64 a + hi64 a"
proof -
  have "take_bit 64 (mm_shuffle_epi32 a 78 XOR a) = take_bit 64 a XOR drop_bit 64 a"
    by (rule bit_eqI) (auto simp: bit_simps lane_bits bit_beyond ac_simps)
  then show ?thesis by (simp add: lo64_def hi64_def Gf_xor)
qed

lemma Gf_assemble:
  assumes "Gf m = z"
  shows "Gf (reduce_halves (lo XOR mm_slli_si128 m 8) (hi XOR mm_srli_si128 m 8)) =
     Gf lo + z * gf_X ^ 64 + Gf hi * gf_X ^ 128"
proof -
  have "Gf (push_bit 64 m) = Gf m * gf_X ^ 64 + Gf (drop_bit 64 m) * gf_X ^ 128"
    using Gf_shift [of 64 m] by simp
  then show ?thesis using assms
    by (simp add: Gf_reduce_halves Gf_xor mm_slli_si128_def mm_srli_si128_def distrib_right add_ac)
qed

lemma gf_product_halves:
  "Gf a * Gf b = lo64 a * lo64 b + (lo64 a * hi64 b + hi64 a * lo64 b) * gf_X ^ 64
     + hi64 a * hi64 b * gf_X ^ 128"
proof -
  have "gf_X ^ 64 * gf_X ^ 64 = gf_X ^ 128" by (simp only: power_add [symmetric]) simp
  then show ?thesis unfolding Gf_halves [of a] Gf_halves [of b]
    by (simp add: algebra_simps)
qed

lemma Gf_mul: "Gf (mul a b) = Gf a * Gf b"
proof -
  let ?m = "(mm_clmulepi64_si128 (mm_shuffle_epi32 a 78 XOR a) (mm_shuffle_epi32 b 78 XOR b) 0x00 XOR
    mm_clmulepi64_si128 a b 0x00) XOR mm_clmulepi64_si128 a b 0x11"
  have "Gf ?m = lo64 a * hi64 b + hi64 a * lo64 b"
    by (simp add: Gf_xor Gf_clmul_halves lo64_swap_xor algebra_simps)
  from Gf_assemble [OF this] show ?thesis
    unfolding mul_def Let_def gf_product_halves by (simp only: Gf_clmul_halves)
qed

lemma Gf_gfmul: "Gf (gfmul a b) = Gf a * Gf b"
proof -
  let ?m = "mm_clmulepi64_si128 a b 0x10 XOR mm_clmulepi64_si128 a b 0x01"
  have "Gf ?m = lo64 a * hi64 b + hi64 a * lo64 b"
    by (simp only: Gf_xor Gf_clmul_halves)
  from Gf_assemble [OF this] show ?thesis
    unfolding gfmul_def mul128_def Let_def gf_product_halves prod.case by (simp only: Gf_clmul_halves)
qed

lemma gfmul_eq_mul: "gfmul a b = mul a b"
  using Gf_mul Gf_gfmul by (metis gf.inject)

section \<open>Inverse, shifts and byte arrays\<close>

lemma Gf_inv_loop: "Gf (inv_loop n a c) = Gf c ^ (2 ^ n) * Gf a ^ (2 ^ Suc n - 2)"
proof (induction n arbitrary: c)
  case (Suc n)
  have e: "2 ^ Suc (Suc n) - 2 = 2 * 2 ^ n + (2 ^ Suc n - (2 :: nat))"
    by simp
  have "Gf (inv_loop (Suc n) a c) =
      (Gf c * Gf a * (Gf c * Gf a)) ^ (2 ^ n) * Gf a ^ (2 ^ Suc n - 2)"
    by (simp only: inv_loop.simps Let_def Suc Gf_mul)
  also have "\<dots> = Gf c ^ (2 * 2 ^ n) * Gf a ^ (2 * 2 ^ n + (2 ^ Suc n - 2))"
    by (simp only: power_add mult_2 power_mult_distrib mult_ac)
  finally show ?case unfolding e by (simp only: power_Suc)
qed simp

lemma Gf_makeBlock_1: "Gf (makeBlock 0 1) = 1"
  by (simp add: makeBlock_def set_epi64x_def Gf_1)

lemma Gf_inv_block: "Gf (inv_block a) = inverse (Gf a)"
proof -
  have "Suc 127 = (128 :: nat)" by simp
  then show ?thesis
    unfolding inv_block_def Gf_inv_loop Gf_makeBlock_1 inverse_gf_def by (simp only: power_one mult_1)
qed

lemma bit_srli_epi64 [lane_bits]:
  "bit (mm_srli_epi64 a k) n \<longleftrightarrow> n mod 64 + k < 64 \<and> bit a (n + k)"
proof -
  consider "n < 64" | "64 \<le> n" "n < 128" | "128 \<le> n" by linarith
  then show ?thesis
    by cases (auto simp: mm_srli_epi64_def lane_bits bit_simps le_mod_geq ac_simps bit_beyond)
qed

lemma bit_slli_epi64 [lane_bits]:
  "bit (mm_slli_epi64 a k) n \<longleftrightarrow> n < 128 \<and> k \<le> n mod 64 \<and> bit a (n - k)"
proof -
  consider "n < 64" | "64 \<le> n" "n < 128" | "128 \<le> n" by linarith
  then show ?thesis
    by cases (auto simp: mm_slli_epi64_def lane_bits bit_simps le_mod_geq ac_simps bit_beyond)
qed

lemma shift_left_bits_small: "k < 64 \<Longrightarrow> shift_left_bits k a = push_bit k a"
proof (rule bit_eqI)
  fix n
  assume k: "k < 64" and "possible_bit TYPE(block) n"
  then have "n < 64 \<or> 64 \<le> n \<and> n < 128 \<and> n mod 64 = n - 64"
    by (auto simp: le_mod_geq)
  then show "bit (shift_left_bits k a) n = bit (push_bit k a) n"
    using k by (auto simp: shift_left_bits_def Let_def lane_bits bit_simps mm_slli_si128_def)
qed

lemma shift_left_bits_large: "64 \<le> k \<Longrightarrow> shift_left_bits k a = push_bit (64 + 8 * (k - 64)) a"
  by (simp add: shift_left_bits_def mm_slli_si128_def add.commute)

lemma shift_right_bits_eq: "k < 128 \<Longrightarrow> shift_right_bits k a = drop_bit k a"
proof (rule bit_eqI)
  fix n
  assume k: "k < 128" and "possible_bit TYPE(block) n"
  then have "n < 64 \<or> 64 \<le> n \<and> n < 128 \<and> n mod 64 = n - 64"
    by (auto simp: le_mod_geq)
  then show "bit (shift_right_bits k a) n = bit (drop_bit k a) n"
    using k by (auto simp: shift_right_bits_def Let_def lane_bits bit_simps mm_srli_si128_def ac_simps
        bit_beyond dest: bit_less_128)
qed

lemma bit_le_block:
  "bit (le_block xs) n \<longleftrightarrow> n < 128 \<and> n div 8 < length xs \<and> bit (xs ! (n div 8)) (n mod 8)"
proof (induction xs arbitrary: n)
  case (Cons x xs)
  show ?case
  proof (cases "n < 8")
    case True
    then show ?thesis by (auto simp: bit_simps)
  next
    case False
    then have "n div 8 = Suc ((n - 8) div 8)" "n mod 8 = (n - 8) mod 8"
      by (simp_all add: le_div_geq le_mod_geq)
    then show ?thesis using False Cons.IH [of "n - 8"]
      by (auto simp: bit_simps dest: bit_imp_le_length)
  qed
qed simp

lemma length_block_to_arr [simp]: "length (block_to_arr b) = 16"
  by (simp add: block_to_arr_def)

lemma arr_to_block_to_arr: "arr_to_block (block_to_arr b) = b"
proof (rule bit_eqI)
  fix n
  assume "possible_bit TYPE(block) n"
  then have "n < 128" "n div 8 < 16" by simp_all
  then show "bit (arr_to_block (block_to_arr b)) n = bit b n"
    by (simp add: arr_to_block_def bit_le_block block_to_arr_def bit_simps)
qed

lemma block_to_arr_to_block: "length xs = 16 \<Longrightarrow> block_to_arr (arr_to_block xs) = xs"
proof (rule nth_equalityI)
  fix i
  assume len: "length xs = 16" and "i < length (block_to_arr (arr_to_block xs))"
  then have i: "i < 16" by simp
  show "block_to_arr (arr_to_block xs) ! i = xs ! i"
  proof (rule bit_eqI)
    fix n
    assume "possible_bit TYPE(8 word) n"
    then have "n < 8" by simp
    with i have "(8 * i + n) div 8 = i" "(8 * i + n) mod 8 = n" "8 * i + n < 128" by simp_all
    with i len \<open>n < 8\<close> show "bit (block_to_arr (arr_to_block xs) ! i) n = bit (xs ! i) n"
      by (simp add: block_to_arr_def arr_to_block_def bit_simps bit_le_block)
  qed
qed simp

lemma Gf_foldl_xor: "Gf (foldl (\<lambda>r i. r XOR f i) c xs) = Gf c + (\<Sum>i\<leftarrow>xs. Gf (f i))"
  by (induction xs arbitrary: c) (simp_all add: Gf_xor add.assoc)

lemma Gf_inner_product:
  "Gf (vector_inn_prdt_sum_red a b n) = (\<Sum>i<n. Gf (a ! i) * Gf (b ! i))"
  by (simp add: Gf_foldl_xor Gf_0 Gf_gfmul interv_sum_list_conv_sum_set_nat atLeast0LessThan)

lemma cmpBlock_1: "cmpBlock [x] [y] 1 \<longleftrightarrow> x = y"
  using xor_left_inject [of x y x] by auto

end
