(* ===== verification/OT_Extension.thy ===== *)
theory OT_Extension
  imports F2128_Arith "HOL-Library.Monad_Syntax"
begin

text \<open>
  emp-ot as the secure channel drives it: the base transfer of Chou and Orlandi (co.h), the IKNP
  extension with its consistency check (iknp.h), the transfer of chosen messages on top of it
  (cot.h), and the interface the multiplication protocols rely on.  AES-NI is the parameter
  \<open>aes\<close> (key, then plaintext); the elliptic curve group of the base transfer is any abelian group,
  with its generator \<open>gen\<close> and key derivation \<open>kdf\<close>.
\<close>

section \<open>The interface\<close>

text \<open>What a transfer of chosen messages promises: it ends, and position \<open>i\<close> of the output is the
  message that choice bit \<open>i\<close> selects.\<close>

definition ot_select :: "block list \<Rightarrow> block list \<Rightarrow> bool list \<Rightarrow> block list" where
  "ot_select b0 b1 c = map (\<lambda>i. if c ! i then b1 ! i else b0 ! i) [0..<length c]"

locale oblivious_transfer =
  fixes ot :: "block list \<Rightarrow> block list \<Rightarrow> bool list \<Rightarrow> block list option"
  assumes ot_selects:
    "length b0 = length c \<Longrightarrow> length b1 = length c \<Longrightarrow> ot b0 b1 c = Some (ot_select b0 b1 c)"

section \<open>Base transfer (co.h)\<close>

definition smul :: "nat \<Rightarrow> 'g :: ab_group_add \<Rightarrow> 'g" where
  "smul n P = ((+) P ^^ n) 0"

definition otco_points :: "'g :: ab_group_add \<Rightarrow> 'g \<Rightarrow> (nat \<Rightarrow> nat) \<Rightarrow> bool list \<Rightarrow> 'g list" where
  "otco_points gen A bb b =
     map (\<lambda>i. let B = smul (bb i) gen in if b ! i then B + A else B) [0..<length b]"

definition otco_send ::
  "('g :: ab_group_add \<Rightarrow> nat \<Rightarrow> block) \<Rightarrow> nat \<Rightarrow> 'g \<Rightarrow> 'g list \<Rightarrow> block list \<Rightarrow> block list \<Rightarrow>
     (block \<times> block) list" where
  "otco_send kdf a A Bs data0 data1 =
     (let AaInv = - smul a A in
      map (\<lambda>i. let B = smul a (Bs ! i); BA = B + AaInv
               in (kdf B i XOR data0 ! i, kdf BA i XOR data1 ! i)) [0..<length Bs])"

definition otco_recv ::
  "('g :: ab_group_add \<Rightarrow> nat \<Rightarrow> block) \<Rightarrow> 'g \<Rightarrow> (nat \<Rightarrow> nat) \<Rightarrow> bool list \<Rightarrow> (block \<times> block) list \<Rightarrow>
     block list" where
  "otco_recv kdf A bb b res =
     map (\<lambda>i. let d = kdf (smul (bb i) A) i
              in if b ! i then d XOR snd (res ! i) else d XOR fst (res ! i)) [0..<length b]"

definition otco ::
  "('g :: ab_group_add \<Rightarrow> nat \<Rightarrow> block) \<Rightarrow> 'g \<Rightarrow> nat \<Rightarrow> (nat \<Rightarrow> nat) \<Rightarrow> block list \<Rightarrow> block list \<Rightarrow> bool list \<Rightarrow>
     block list" where
  "otco kdf gen a bb data0 data1 b =
     (let A = smul a gen;
          Bs = otco_points gen A bb b;
          res = otco_send kdf a A Bs data0 data1
      in otco_recv kdf A bb b res)"

section \<open>Bit matrices (block.h, utils.hpp, prg.h)\<close>

text \<open>The pseudo-random generator: AES in counter mode.\<close>

definition prg_block :: "(block \<Rightarrow> block \<Rightarrow> block) \<Rightarrow> block \<Rightarrow> nat \<Rightarrow> block" where
  "prg_block aes seed counter = aes seed (makeBlock 0 (word_of_nat counter))"

definition random_block :: "(block \<Rightarrow> block \<Rightarrow> block) \<Rightarrow> block \<Rightarrow> nat \<Rightarrow> nat \<Rightarrow> block list" where
  "random_block aes seed counter n = map (prg_block aes seed) [counter..<counter + n]"

fun bools_to_word :: "bool list \<Rightarrow> 'a :: len word" where
  "bools_to_word [] = 0"
| "bools_to_word (b # bs) = of_bool b OR push_bit 1 (bools_to_word bs)"

definition bool_to_block :: "bool list \<Rightarrow> block" where
  "bool_to_block d = makeBlock (bools_to_word (take 64 (drop 64 d))) (bools_to_word (take 64 d))"

text \<open>\<^verbatim>\<open>_mm_movemask_epi8\<close>: the top bit of each of the sixteen bytes.\<close>

definition mm_movemask_epi8 :: "block \<Rightarrow> 16 word" where
  "mm_movemask_epi8 a = bools_to_word (map (\<lambda>x. bit a (8 * x + 7)) [0..<16])"

text \<open>\<^verbatim>\<open>sse_trans\<close> with 128 rows: byte \<open>INP(x, cc)\<close> of row \<open>x\<close>, sixteen rows at a time, shifted left
  until bit \<open>i\<close> of each byte is at the top.\<close>

definition row_byte :: "block list \<Rightarrow> nat \<Rightarrow> byte" where
  "row_byte row y = ucast (drop_bit (8 * (y div 8 mod 16)) (row ! (y div 128)))"

definition trans_cell :: "block list list \<Rightarrow> nat \<Rightarrow> nat \<Rightarrow> nat \<Rightarrow> 16 word" where
  "trans_cell rows rr cc i =
     (let vec = le_block (map (\<lambda>x. row_byte (rows ! (rr + x)) cc) [0..<16])
      in mm_movemask_epi8 (((\<lambda>v. mm_slli_epi64 v 1) ^^ (7 - i)) vec))"

fun le_words16 :: "16 word list \<Rightarrow> block" where
  "le_words16 [] = 0"
| "le_words16 (x # xs) = ucast x OR push_bit 16 (le_words16 xs)"

text \<open>The transposition as IKNP calls it, on 128 rows: the main body leaves no remainder.\<close>

definition sse_trans :: "block list list \<Rightarrow> nat \<Rightarrow> block list" where
  "sse_trans rows ncols =
     map (\<lambda>y. le_words16 (map (\<lambda>r. trans_cell rows (16 * r) (8 * (y div 8)) (y mod 8)) [0..<8]))
       [0..<ncols]"

section \<open>The extension (iknp.h)\<close>

definition iknp_block_size :: nat where
  "iknp_block_size = 2048"

definition xor_blocks :: "block list \<Rightarrow> block list \<Rightarrow> block list" where
  "xor_blocks xs ys = map2 (XOR) xs ys"

text \<open>\<open>nb\<close> is \<open>local_block_size / 128\<close>, \<open>c\<close> the counter all 128 pairs of generators have reached.  The
  receiver's half returns the rows it sends and its output.\<close>

definition recv_pre_block ::
  "(block \<Rightarrow> block \<Rightarrow> block) \<Rightarrow> (nat \<Rightarrow> block) \<Rightarrow> (nat \<Rightarrow> block) \<Rightarrow> nat \<Rightarrow> block list \<Rightarrow> nat \<Rightarrow>
     block list list \<times> block list" where
  "recv_pre_block aes k0 k1 c r len =
     (let nb = (len + 127) div 128;
          t = map (\<lambda>i. random_block aes (k0 i) c nb) [0..<128];
          tmp = map (\<lambda>i. let tmp = random_block aes (k1 i) c nb;
                             tmp = xor_blocks (t ! i) tmp
                         in xor_blocks r tmp) [0..<128]
      in (tmp, sse_trans t (128 * nb)))"

definition send_pre_block ::
  "(block \<Rightarrow> block \<Rightarrow> block) \<Rightarrow> (nat \<Rightarrow> block) \<Rightarrow> (nat \<Rightarrow> bool) \<Rightarrow> nat \<Rightarrow> block list list \<Rightarrow> nat \<Rightarrow>
     block list" where
  "send_pre_block aes k0 s c tmp len =
     (let nb = (len + 127) div 128;
          t = map (\<lambda>i. let t = random_block aes (k0 i) c nb
                       in if s i then xor_blocks t (tmp ! i) else t) [0..<128]
      in sse_trans t (128 * nb))"

text \<open>The lengths \<open>send_pre\<close> and \<open>recv_pre\<close> pass to the block routines, before the 256 extra transfers
  of the malicious mode.\<close>

definition chunk_lens :: "nat \<Rightarrow> nat list" where
  "chunk_lens n =
     replicate (n div iknp_block_size) iknp_block_size @
     (let remain = n mod iknp_block_size in if remain > 0 then [remain] else [])"

text \<open>\<open>block_r\<close>: the choice bits packed 128 to a block, the last one padded with zeros.\<close>

fun pack_choices :: "bool list \<Rightarrow> block list" where
  "pack_choices r =
     (if r = [] then []
      else if length r < 128 then [bool_to_block (r @ replicate (128 - length r) False)]
      else bool_to_block (take 128 r) # pack_choices (drop 128 r))"

declare pack_choices.simps [simp del]

fun recv_chunks ::
  "(block \<Rightarrow> block \<Rightarrow> block) \<Rightarrow> (nat \<Rightarrow> block) \<Rightarrow> (nat \<Rightarrow> block) \<Rightarrow> nat \<Rightarrow> block list \<Rightarrow> nat list \<Rightarrow>
     block list list list \<times> block list \<times> nat" where
  "recv_chunks aes k0 k1 c block_r [] = ([], [], c)"
| "recv_chunks aes k0 k1 c block_r (len # lens) =
     (let nb = (len + 127) div 128;
          (msg, out) = recv_pre_block aes k0 k1 c (take nb block_r) len;
          (msgs, outs, c') = recv_chunks aes k0 k1 (c + nb) (drop nb block_r) lens
      in (msg # msgs, take len out @ outs, c'))"

fun send_chunks ::
  "(block \<Rightarrow> block \<Rightarrow> block) \<Rightarrow> (nat \<Rightarrow> block) \<Rightarrow> (nat \<Rightarrow> bool) \<Rightarrow> nat \<Rightarrow> block list list list \<Rightarrow> nat list \<Rightarrow>
     block list \<times> nat" where
  "send_chunks aes k0 s c msgs [] = ([], c)"
| "send_chunks aes k0 s c msgs (len # lens) =
     (let nb = (len + 127) div 128;
          out = send_pre_block aes k0 s c (hd msgs) len;
          (outs, c') = send_chunks aes k0 s (c + nb) (tl msgs) lens
      in (take len out @ outs, c'))"

section \<open>The consistency check (iknp.h)\<close>

definition xor2 :: "block \<times> block \<Rightarrow> block \<times> block \<Rightarrow> block \<times> block" where
  "xor2 p q = (fst p XOR fst q, snd p XOR snd q)"

fun vector_inn_prdt_sum_no_red :: "block list \<Rightarrow> block list \<Rightarrow> block \<times> block" where
  "vector_inn_prdt_sum_no_red (a # as) (b # bs) = xor2 (mul128 a b) (vector_inn_prdt_sum_no_red as bs)"
| "vector_inn_prdt_sum_no_red _ _ = (0, 0)"

text \<open>\<open>x\<close> collects the challenges at the selected positions.\<close>

fun select_sum :: "block list \<Rightarrow> bool list \<Rightarrow> block" where
  "select_sum (a # as) (b # bs) = (a AND (if b then NOT 0 else 0)) XOR select_sum as bs"
| "select_sum _ _ = 0"

text \<open>Each chunk draws a full \<open>block_size\<close> of challenges; the extra transfers draw 256.\<close>

fun check_chunks ::
  "(block \<Rightarrow> block \<Rightarrow> block) \<Rightarrow> block \<Rightarrow> nat \<Rightarrow> block list \<Rightarrow> nat list \<Rightarrow> (block \<times> block) \<Rightarrow> (block \<times> block) \<times> nat" where
  "check_chunks aes seed2 c out [] t = (t, c)"
| "check_chunks aes seed2 c out (len # lens) t =
     (let chi = random_block aes seed2 c iknp_block_size;
          tmp = vector_inn_prdt_sum_no_red (take len chi) (take len out)
      in check_chunks aes seed2 (c + iknp_block_size) (drop len out) lens (xor2 t tmp))"

fun select_chunks ::
  "(block \<Rightarrow> block \<Rightarrow> block) \<Rightarrow> block \<Rightarrow> nat \<Rightarrow> bool list \<Rightarrow> nat list \<Rightarrow> block \<Rightarrow> block" where
  "select_chunks aes seed2 c r [] x = x"
| "select_chunks aes seed2 c r (len # lens) x =
     (let chi = random_block aes seed2 c iknp_block_size
      in select_chunks aes seed2 (c + iknp_block_size) (drop len r) lens
           (x XOR select_sum (take len chi) (take len r)))"

definition recv_check ::
  "(block \<Rightarrow> block \<Rightarrow> block) \<Rightarrow> block \<Rightarrow> block list \<Rightarrow> bool list \<Rightarrow> block list \<Rightarrow> bool list \<Rightarrow>
     block \<times> (block \<times> block)" where
  "recv_check aes seed2 out r local_out local_r =
     (let lens = chunk_lens (length r);
          (t, c) = check_chunks aes seed2 0 out lens (0, 0);
          x = select_chunks aes seed2 0 r lens 0;
          chi = random_block aes seed2 c 256;
          t = xor2 t (vector_inn_prdt_sum_no_red chi local_out);
          x = x XOR select_sum chi local_r
      in (x, t))"

definition send_check ::
  "(block \<Rightarrow> block \<Rightarrow> block) \<Rightarrow> block \<Rightarrow> block \<Rightarrow> block list \<Rightarrow> block list \<Rightarrow> block \<times> (block \<times> block) \<Rightarrow> bool" where
  "send_check aes seed2 Delta out local_out msg =
     (let (q, c) = check_chunks aes seed2 0 out (chunk_lens (length out)) (0, 0);
          chi = random_block aes seed2 c 256;
          q = xor2 q (vector_inn_prdt_sum_no_red chi local_out);
          (x, t) = msg;
          q = xor2 q (mul128 x Delta)
      in cmpBlock [fst q, snd q] [fst t, snd t] 2)"

section \<open>Chosen messages (cot.h, mitccrh.h)\<close>

text \<open>\<open>hash<8, H>\<close> on a batch: key \<open>j\<close> of the batch is the start point with \<open>gid + j\<close> in the upper half.\<close>

definition mitccrh_hash :: "(block \<Rightarrow> block \<Rightarrow> block) \<Rightarrow> block \<Rightarrow> nat \<Rightarrow> block \<Rightarrow> block" where
  "mitccrh_hash aes start_point gid x = x XOR aes (start_point XOR makeBlock (word_of_nat gid) 0) x"

definition cot_send_batch ::
  "(block \<Rightarrow> block \<Rightarrow> block) \<Rightarrow> block \<Rightarrow> block \<Rightarrow> nat \<Rightarrow> block list \<Rightarrow> block list \<Rightarrow> block list \<Rightarrow> block list" where
  "cot_send_batch aes s Delta gid data data0 data1 =
     concat (map (\<lambda>j. [mitccrh_hash aes s (gid + j) (data ! j) XOR data0 ! j,
                      mitccrh_hash aes s (gid + j) (data ! j XOR Delta) XOR data1 ! j]) [0..<length data])"

definition cot_recv_batch ::
  "(block \<Rightarrow> block \<Rightarrow> block) \<Rightarrow> block \<Rightarrow> nat \<Rightarrow> block list \<Rightarrow> bool list \<Rightarrow> block list \<Rightarrow> block list" where
  "cot_recv_batch aes s gid data r res =
     map (\<lambda>j. res ! (2 * j + of_bool (r ! j)) XOR mitccrh_hash aes s (gid + j) (data ! j)) [0..<length data]"

fun cot_send ::
  "(block \<Rightarrow> block \<Rightarrow> block) \<Rightarrow> block \<Rightarrow> block \<Rightarrow> nat \<Rightarrow> block list \<Rightarrow> block list \<Rightarrow> block list \<Rightarrow> block list list" where
  "cot_send aes s Delta gid data data0 data1 =
     (if data = [] then []
      else cot_send_batch aes s Delta gid (take 8 data) (take 8 data0) (take 8 data1)
           # cot_send aes s Delta (gid + 8) (drop 8 data) (drop 8 data0) (drop 8 data1))"

fun cot_recv ::
  "(block \<Rightarrow> block \<Rightarrow> block) \<Rightarrow> block \<Rightarrow> nat \<Rightarrow> block list \<Rightarrow> bool list \<Rightarrow> block list list \<Rightarrow> block list" where
  "cot_recv aes s gid data r msgs =
     (if data = [] then []
      else cot_recv_batch aes s gid (take 8 data) (take 8 r) (hd msgs)
           @ cot_recv aes s (gid + 8) (drop 8 data) (drop 8 r) (tl msgs))"

declare cot_send.simps [simp del] cot_recv.simps [simp del]

text \<open>The random choices of one session, and what the generators have consumed.\<close>

record iknp_session =
  ik_s :: "nat \<Rightarrow> bool"
  ik_k0 :: "nat \<Rightarrow> block"
  ik_k1 :: "nat \<Rightarrow> block"
  ik_a :: nat
  ik_bb :: "nat \<Rightarrow> nat"
  ik_counter :: nat
  ik_local_r :: "nat \<Rightarrow> bool"
  ik_seed2 :: block
  ik_cot_s :: block
  ik_gid :: nat

definition iknp_ot ::
  "(block \<Rightarrow> block \<Rightarrow> block) \<Rightarrow> ('g :: ab_group_add \<Rightarrow> nat \<Rightarrow> block) \<Rightarrow> 'g \<Rightarrow> iknp_session \<Rightarrow>
     block list \<Rightarrow> block list \<Rightarrow> bool list \<Rightarrow> block list option" where
  "iknp_ot aes kdf gen st data0 data1 r =
     (let s = map (ik_s st) [0..<128];
          ks = otco kdf gen (ik_a st) (ik_bb st) (map (ik_k0 st) [0..<128]) (map (ik_k1 st) [0..<128]) s;
          Delta = bool_to_block s;
          lens = chunk_lens (length r);
          (msgs, out, c) = recv_chunks aes (ik_k0 st) (ik_k1 st) (ik_counter st) (pack_choices r) lens;
          local_r = map (ik_local_r st) [0..<256];
          (msg, local_out) = recv_pre_block aes (ik_k0 st) (ik_k1 st) c
             [bool_to_block local_r, bool_to_block (drop 128 local_r)] 256;
          (data, c') = send_chunks aes ((!) ks) (ik_s st) (ik_counter st) msgs lens;
          local_data = send_pre_block aes ((!) ks) (ik_s st) c' msg 256;
          proof_msg = recv_check aes (ik_seed2 st) out r local_out local_r
      in do {
        check (send_check aes (ik_seed2 st) Delta data local_data proof_msg);
        Some (cot_recv aes (ik_cot_s st) (ik_gid st) out r
          (cot_send aes (ik_cot_s st) Delta (ik_gid st) data data0 data1))
      })"

section \<open>The base transfer selects\<close>

lemma smul_simps [simp]: "smul 0 P = 0" "smul (Suc n) P = P + smul n P"
  by (simp_all add: smul_def)

lemma smul_add: "smul n (P + Q) = smul n P + smul n Q"
  by (induction n) simp_all

lemma smul_zero: "smul n 0 = 0"
  by (induction n) simp_all

lemma smul_commute: "smul m (smul n P) = smul n (smul m P)"
  by (induction m) (simp_all add: smul_add smul_zero)

lemma otco_selects:
  assumes "i < length b"
  shows "otco kdf gen a bb data0 data1 b ! i = (if b ! i then data1 ! i else data0 ! i)"
  using assms
  by (simp add: otco_def otco_recv_def otco_send_def otco_points_def Let_def smul_add
      smul_commute [of a "bb i"])

section \<open>The transposition\<close>

lemma bit_bools_to_word:
  "bit (bools_to_word bs :: 'a :: len word) n \<longleftrightarrow> n < LENGTH('a) \<and> n < length bs \<and> bs ! n"
proof (induction bs arbitrary: n)
  case (Cons b bs)
  have "bit (bools_to_word (b # bs) :: 'a word) n \<longleftrightarrow>
      (if n = 0 then b else n < LENGTH('a) \<and> bit (bools_to_word bs :: 'a word) (n - 1))"
    unfolding bools_to_word.simps bit_or_iff bit_push_bit_iff
    by (auto simp: bit_of_bool_iff Suc_le_eq)
  with Cons [of "n - 1"] show ?case by (cases n) auto
qed simp

lemma bit_bool_to_block: "128 \<le> length d \<Longrightarrow> bit (bool_to_block d) n \<longleftrightarrow> n < 128 \<and> d ! n"
  by (auto simp: bool_to_block_def makeBlock_def lane_bits bit_bools_to_word)

lemma bit_movemask: "bit (mm_movemask_epi8 a) x \<longleftrightarrow> x < 16 \<and> bit a (8 * x + 7)"
  by (auto simp: mm_movemask_epi8_def bit_bools_to_word)

lemma bit_slli_epi64_iter:
  "s \<le> n mod 64 \<Longrightarrow> n < 128 \<Longrightarrow> bit (((\<lambda>v. mm_slli_epi64 v 1) ^^ s) a) n \<longleftrightarrow> bit a (n - s)"
proof (induction s arbitrary: n)
  case (Suc s)
  then have "(n - 1) mod 64 = n mod 64 - 1" by (cases n) (auto simp: mod_Suc)
  with Suc show ?case by (auto simp: lane_bits)
qed simp

lemma bit_row_byte:
  "i < 8 \<Longrightarrow> bit (row_byte row y) i \<longleftrightarrow> bit (row ! (y div 128)) (8 * (y div 8 mod 16) + i)"
  by (simp add: row_byte_def bit_simps)

lemma bit_trans_cell:
  assumes "i < 8" "x < 16"
  shows "bit (trans_cell rows rr cc i) x \<longleftrightarrow> bit (row_byte (rows ! (rr + x)) cc) i"
proof -
  have m: "(8 * x + 7) mod 64 \<ge> 7"
    using assms by (cases "x < 8") (simp_all add: le_mod_geq)
  have "8 * x + 7 - (7 - i) = 8 * x + i" using assms by simp
  moreover have "(8 * x + i) div 8 = x" "(8 * x + i) mod 8 = i" "8 * x + i < 128"
    using assms by simp_all
  moreover have "7 - i \<le> (8 * x + 7) mod 64" using m by simp
  ultimately show ?thesis
    using assms by (simp add: trans_cell_def Let_def bit_movemask
        bit_slli_epi64_iter [unfolded One_nat_def] bit_le_block)
qed

lemma bit_le_words16:
  "bit (le_words16 xs) n \<longleftrightarrow> n < 128 \<and> n div 16 < length xs \<and> bit (xs ! (n div 16)) (n mod 16)"
proof (induction xs arbitrary: n)
  case (Cons x xs)
  show ?case
  proof (cases "n < 16")
    case True
    then show ?thesis by (auto simp: bit_simps)
  next
    case False
    then have "n div 16 = Suc ((n - 16) div 16)" "n mod 16 = (n - 16) mod 16"
      by (simp_all add: le_div_geq le_mod_geq)
    then show ?thesis using False Cons.IH [of "n - 16"]
      by (auto simp: bit_simps dest: bit_imp_le_length)
  qed
qed simp

lemma bit_sse_trans:
  assumes "y < ncols" "x < 128"
  shows "bit (sse_trans rows ncols ! y) x \<longleftrightarrow> bit (rows ! x ! (y div 128)) (y mod 128)"
proof -
  have "x div 16 < 8" using assms by simp
  moreover have "8 * (y div 8) div 128 = y div 128" by (simp add: div_mult2_eq [symmetric])
  moreover have "8 * (y div 8 mod 16) + y mod 8 = y mod 128"
    using mod_mult2_eq [of y 8 16] by simp
  moreover have "16 * (x div 16) + x mod 16 = x" by simp
  ultimately show ?thesis
    using assms by (simp add: sse_trans_def bit_le_words16 bit_trans_cell bit_row_byte div_less_iff_less_mult)
qed

lemma length_sse_trans [simp]: "length (sse_trans rows n) = n"
  by (simp add: sse_trans_def)

section \<open>The extension correlates\<close>

text \<open>Both parties' outputs differ by \<open>Delta\<close> exactly where the choice bit is set.\<close>

definition correlated :: "block \<Rightarrow> block list \<Rightarrow> block list \<Rightarrow> bool list \<Rightarrow> bool" where
  "correlated Delta data out r \<longleftrightarrow> length data = length r \<and> length out = length r \<and>
     (\<forall>j < length r. data ! j = out ! j XOR (if r ! j then Delta else 0))"

lemma length_random_block [simp]: "length (random_block aes seed c n) = n"
  by (simp add: random_block_def)

lemma length_xor_blocks [simp]: "length (xor_blocks xs ys) = min (length xs) (length ys)"
  by (simp add: xor_blocks_def)

lemma nth_xor_blocks [simp]:
  "i < length xs \<Longrightarrow> i < length ys \<Longrightarrow> xor_blocks xs ys ! i = xs ! i XOR ys ! i"
  by (simp add: xor_blocks_def)

lemma pre_block_correlated:
  assumes keys: "\<And>i. i < 128 \<Longrightarrow> ks i = (if s i then k1 i else k0 i)"
    and "length r = (len + 127) div 128" and y: "y < 128 * ((len + 127) div 128)"
  shows "send_pre_block aes ks s c (fst (recv_pre_block aes k0 k1 c r len)) len ! y =
     snd (recv_pre_block aes k0 k1 c r len) ! y XOR
     (if bit (r ! (y div 128)) (y mod 128) then bool_to_block (map s [0..<128]) else 0)"
proof (rule bit_eqI)
  fix x
  assume "possible_bit TYPE(block) x"
  then have x: "x < 128" by simp
  have b: "y div 128 < (len + 127) div 128" using y by (simp add: div_less_iff_less_mult mult.commute)
  show "bit (send_pre_block aes ks s c (fst (recv_pre_block aes k0 k1 c r len)) len ! y) x =
    bit (snd (recv_pre_block aes k0 k1 c r len) ! y XOR
     (if bit (r ! (y div 128)) (y mod 128) then bool_to_block (map s [0..<128]) else 0)) x"
    using x b y assms(2) keys [OF x]
    by (simp add: send_pre_block_def recv_pre_block_def Let_def bit_sse_trans bit_xor_iff
        bit_bool_to_block) auto
qed

lemma length_pre_block [simp]:
  "length (send_pre_block aes ks s c m len) = 128 * ((len + 127) div 128)"
  "length (snd (recv_pre_block aes k0 k1 c r len)) = 128 * ((len + 127) div 128)"
  by (simp_all add: send_pre_block_def recv_pre_block_def Let_def)

lemma pack_choices_bit:
  "j < length r \<Longrightarrow> j div 128 < length (pack_choices r) \<and>
     bit (pack_choices r ! (j div 128)) (j mod 128) = r ! j"
proof (induction r arbitrary: j rule: pack_choices.induct)
  case (1 r)
  show ?case
  proof (cases "length r < 128")
    case True
    then show ?thesis using 1(2)
      by (subst (1 2) pack_choices.simps) (auto simp: bit_bool_to_block nth_append)
  next
    case False
    show ?thesis
    proof (cases "j < 128")
      case True
      then show ?thesis using False
        by (subst (1 2) pack_choices.simps) (auto simp: bit_bool_to_block)
    next
      case j: False
      then have "j div 128 = Suc ((j - 128) div 128)" "j mod 128 = (j - 128) mod 128"
        by (simp_all add: le_div_geq le_mod_geq)
      then show ?thesis using False j 1(1) [of "j - 128"] 1(2)
        by (subst (1 2) pack_choices.simps) auto
    qed
  qed
qed

lemma drop_pack_choices:
  "128 * nb \<le> length r \<Longrightarrow> drop nb (pack_choices r) = pack_choices (drop (128 * nb) r)"
proof (induction nb arbitrary: r)
  case (Suc nb)
  then have "drop (Suc nb) (pack_choices r) = drop nb (pack_choices (drop 128 r))"
    by (subst pack_choices.simps) auto
  with Suc show ?case by (simp add: add.commute)
qed simp

lemma correlated_append:
  "correlated D d1 o1 r1 \<Longrightarrow> correlated D d2 o2 r2 \<Longrightarrow> correlated D (d1 @ d2) (o1 @ o2) (r1 @ r2)"
  by (auto simp: correlated_def nth_append)

lemma correlated_take: "correlated D d out r \<Longrightarrow> correlated D (take n d) (take n out) (take n r)"
  by (auto simp: correlated_def)

lemma correlated_drop: "correlated D d out r \<Longrightarrow> correlated D (drop n d) (drop n out) (drop n r)"
  by (auto simp: correlated_def)

lemma length_pack_choices: "len \<le> length r \<Longrightarrow> (len + 127) div 128 \<le> length (pack_choices r)"
proof (cases len)
  case (Suc n)
  moreover assume "len \<le> length r"
  ultimately have "n div 128 < length (pack_choices r)" using pack_choices_bit [of n r] by simp
  with Suc show ?thesis by simp
qed simp

lemma first_chunk_correlated:
  fixes aes c
  assumes "\<And>i. i < 128 \<Longrightarrow> ks i = (if s i then k1 i else k0 i)" and "len \<le> length r"
  defines "p \<equiv> recv_pre_block aes k0 k1 c (take ((len + 127) div 128) (pack_choices r)) len"
  shows "correlated (bool_to_block (map s [0..<128]))
     (take len (send_pre_block aes ks s c (fst p) len)) (take len (snd p)) (take len r)"
proof -
  let ?nb = "(len + 127) div 128"
  have le: "len \<le> 128 * ?nb" by linarith
  have r: "length (take ?nb (pack_choices r)) = ?nb"
    using length_pack_choices [OF assms(2)] by simp
  have "send_pre_block aes ks s c (fst p) len ! j =
      snd p ! j XOR (if r ! j then bool_to_block (map s [0..<128]) else 0)" if "j < len" for j
  proof -
    have "j < 128 * ?nb" and "j div 128 < ?nb" using that le by simp_all
    then show ?thesis
      using pre_block_correlated [OF assms(1) r, where y = j and aes = aes and c = c] pack_choices_bit [of j r] that assms(2)
      by (simp add: p_def)
  qed
  then show ?thesis using assms(2) le by (auto simp: correlated_def p_def)
qed

lemma chunks_correlated:
  assumes keys: "\<And>i. i < 128 \<Longrightarrow> ks i = (if s i then k1 i else k0 i)"
    and "sum_list lens = length r" and "\<forall>len \<in> set (butlast lens). 128 dvd len"
    and "recv_chunks aes k0 k1 c (pack_choices r) lens = (msgs, out, c1)"
    and "send_chunks aes ks s c msgs lens = (data, c2)"
  shows "c1 = c2 \<and> correlated (bool_to_block (map s [0..<128])) data out r"
  using assms(2-)
proof (induction lens arbitrary: c r msgs out data)
  case Nil
  then show ?case by (simp add: correlated_def)
next
  case (Cons len lens)
  let ?nb = "(len + 127) div 128"
  let ?p = "recv_pre_block aes k0 k1 c (take ?nb (pack_choices r)) len"
  obtain msgs' out' where rc: "recv_chunks aes k0 k1 (c + ?nb) (drop ?nb (pack_choices r)) lens = (msgs', out', c1)"
    and m: "msgs = fst ?p # msgs'" "out = take len (snd ?p) @ out'"
    using Cons.prems(3) by (auto simp: Let_def split: prod.splits)
  obtain data' where sc: "send_chunks aes ks s (c + ?nb) msgs' lens = (data', c2)"
    and d: "data = take len (send_pre_block aes ks s c (fst ?p) len) @ data'"
    using Cons.prems(4) m by (auto simp: Let_def split: prod.splits)
  have len: "len \<le> length r" "sum_list lens = length (drop len r)" using Cons.prems(1) by auto
  have "c1 = c2 \<and> correlated (bool_to_block (map s [0..<128])) data' out' (drop len r)"
  proof (cases "lens = []")
    case True
    then show ?thesis using rc sc len by (simp add: correlated_def)
  next
    case False
    then have "128 dvd len" and "\<forall>l \<in> set (butlast lens). 128 dvd l" using Cons.prems(2) by auto
    then have "drop ?nb (pack_choices r) = pack_choices (drop len r)"
      using drop_pack_choices [of ?nb r] len by (auto elim!: dvdE)
    then show ?thesis
      using Cons.IH [OF len(2) \<open>\<forall>l \<in> set (butlast lens). 128 dvd l\<close> _ sc] rc by simp
  qed
  then show ?case
    using correlated_append [OF first_chunk_correlated [OF keys len(1)]] m d by fastforce
qed

section \<open>Honest parties pass the check\<close>

lemma linear_epi64: "xor_linear (\<lambda>a. epi64 a i)"
  unfolding epi64_def by (intro linear_intros)

lemma clmul_linear_left: "xor_linear (\<lambda>a. clmul_upto n a b)"
  by (induction n) (auto intro: linear_intros simp: xor_linear_def push_bit_xor ac_simps)

lemma clmul_linear_right: "xor_linear (\<lambda>b. clmul_upto n a b)"
  by (induction n) (auto intro!: linear_intros simp: linear_zero)

lemma mm_clmul_linear:
  "xor_linear (\<lambda>a. mm_clmulepi64_si128 a b imm)" "xor_linear (\<lambda>b. mm_clmulepi64_si128 a b imm)"
  unfolding mm_clmulepi64_si128_def
  by (rule linear_comp [OF clmul_linear_left linear_ucast [OF linear_epi64]]
       linear_comp [OF clmul_linear_right linear_epi64])+

lemmas mm_clmul_xor = mm_clmul_linear [THEN xor_linearD]

lemma mul128_xor:
  "mul128 (a XOR b) x = xor2 (mul128 a x) (mul128 b x)"
  "mul128 x (a XOR b) = xor2 (mul128 x a) (mul128 x b)"
  by (simp_all add: mul128_def Let_def xor2_def mm_clmul_xor mm_slli_si128_def mm_srli_si128_def
      push_bit_xor drop_bit_xor ac_simps)

lemma xor2_simps [simp]:
  "xor2 p (0, 0) = p" "xor2 (0, 0) p = p" "xor2 p p = (0, 0)" "xor2 (xor2 p q) q = p"
  by (simp_all add: xor2_def ac_simps)

lemma xor2_ac: "xor2 (xor2 p q) r = xor2 p (xor2 q r)" "xor2 p q = xor2 q p"
  "xor2 p (xor2 q r) = xor2 q (xor2 p r)"
  by (simp_all add: xor2_def ac_simps)

lemma mul128_0 [simp]: "mul128 0 x = (0, 0)" "mul128 x 0 = (0, 0)"
  using mul128_xor [of 0 0 x] mul128_xor [of x 0 0] by simp_all

lemma correlated_Cons:
  "correlated D (d # ds) (t # ts) (b # bs) \<longleftrightarrow>
     d = t XOR (if b then D else 0) \<and> correlated D ds ts bs"
  by (auto simp: correlated_def nth_Cons split: nat.splits)

lemma inner_product_correlated:
  "correlated D d out r \<Longrightarrow>
     vector_inn_prdt_sum_no_red chi d =
       xor2 (vector_inn_prdt_sum_no_red chi out) (mul128 (select_sum chi r) D)"
proof (induction chi arbitrary: d out r)
  case (Cons a chi)
  show ?case
  proof (cases r)
    case Nil
    then show ?thesis using Cons.prems by (simp add: correlated_def)
  next
    case (Cons b bs)
    then obtain d0 ds t ts where "d = d0 # ds" "out = t # ts"
      using Cons.prems by (auto simp: correlated_def length_Suc_conv)
    then show ?thesis
      using Cons Cons.prems Cons.IH [of ds ts bs]
      by (auto simp: correlated_Cons mul128_xor xor2_ac)
  qed
qed simp

lemma check_chunks_correlated:
  assumes "correlated D d out r"
  shows "fst (check_chunks aes seed2 c d lens (xor2 t (mul128 x D))) =
      xor2 (fst (check_chunks aes seed2 c out lens t)) (mul128 (select_chunks aes seed2 c r lens x) D)
    \<and> snd (check_chunks aes seed2 c d lens (xor2 t (mul128 x D))) = snd (check_chunks aes seed2 c out lens t)"
  using assms
proof (induction lens arbitrary: c d out r t x)
  case (Cons len lens)
  let ?chi = "take len (random_block aes seed2 c iknp_block_size)"
  have "xor2 (xor2 t (mul128 x D)) (vector_inn_prdt_sum_no_red ?chi (take len d)) =
      xor2 (xor2 t (vector_inn_prdt_sum_no_red ?chi (take len out)))
        (mul128 (x XOR select_sum ?chi (take len r)) D)"
    unfolding inner_product_correlated [OF correlated_take [OF Cons.prems]]
    by (simp add: mul128_xor xor2_ac)
  then show ?case using Cons.IH [OF correlated_drop [OF Cons.prems]] by (simp add: Let_def)
qed simp

lemma check_complete:
  assumes "correlated D data out r" and "correlated D local_data local_out local_r"
  shows "send_check aes seed2 D data local_data (recv_check aes seed2 out r local_out local_r)"
proof -
  have "length data = length r" using assms(1) by (simp add: correlated_def)
  moreover note check_chunks_correlated [OF assms(1), where t = "(0, 0)" and x = 0, simplified]
    inner_product_correlated [OF assms(2)]
  ultimately show ?thesis
    by (simp add: send_check_def recv_check_def Let_def case_prod_unfold mul128_xor numeral_2_eq_2 xor2_def ac_simps)
qed

section \<open>Chosen messages\<close>

lemma concat_pairs_nth:
  "j < n \<Longrightarrow> concat (map (\<lambda>j. [f j, g j]) [0..<n]) ! (2 * j + of_bool b) = (if b then g j else f j)"
proof (induction n)
  case (Suc n)
  have "length (concat (map (\<lambda>j. [f j, g j]) [0..<n])) = 2 * n"
    by (induction n) auto
  with Suc show ?case by (cases "j = n") (auto simp: nth_append)
qed simp

lemma cot_batch_selects:
  assumes "correlated D data out r" "length b0 = length r" "length b1 = length r"
  shows "cot_recv_batch aes s gid out r (cot_send_batch aes s D gid data b0 b1) = ot_select b0 b1 r"
  using assms
  by (auto simp: cot_recv_batch_def cot_send_batch_def ot_select_def correlated_def xor.assoc
      concat_pairs_nth [where b = True, simplified] concat_pairs_nth [where b = False, simplified])

lemma ot_select_take_drop:
  "length b0 = length r \<Longrightarrow> length b1 = length r \<Longrightarrow>
     ot_select b0 b1 r = ot_select (take n b0) (take n b1) (take n r) @ ot_select (drop n b0) (drop n b1) (drop n r)"
  by (rule nth_equalityI) (auto simp: ot_select_def nth_append min_def)

lemma cot_selects:
  assumes "correlated D data out r" "length b0 = length r" "length b1 = length r"
  shows "cot_recv aes s gid out r (cot_send aes s D gid data b0 b1) = ot_select b0 b1 r"
  using assms
proof (induction aes s D gid data b0 b1 arbitrary: out r rule: cot_send.induct)
  case (1 aes s D gid data b0 b1)
  show ?case
  proof (cases "data = []")
    case True
    then show ?thesis using 1 by (auto simp: correlated_def ot_select_def cot_recv.simps)
  next
    case False
    then have "out \<noteq> []" using 1(2) by (auto simp: correlated_def)
    with False show ?thesis
      using cot_batch_selects [OF correlated_take [OF 1(2), of 8], of "take 8 b0" "take 8 b1"]
        1(1) [OF False correlated_drop [OF 1(2)]] 1(3,4) ot_select_take_drop [OF 1(3,4), of 8]
      by (subst cot_send.simps, subst cot_recv.simps) simp
  qed
qed

section \<open>The extension is a transfer\<close>

lemma chunk_lens_ok: "sum_list (chunk_lens n) = n" "\<forall>len \<in> set (butlast (chunk_lens n)). 128 dvd len"
proof -
  show "sum_list (chunk_lens n) = n"
    by (auto simp: chunk_lens_def Let_def sum_list_replicate iknp_block_size_def)
  show "\<forall>len \<in> set (butlast (chunk_lens n)). 128 dvd len"
    by (auto simp: chunk_lens_def Let_def iknp_block_size_def butlast_append dest: in_set_butlastD)
qed

lemma extra_correlated:
  fixes aes c r
  assumes "\<And>i. i < 128 \<Longrightarrow> ks i = (if s i then k1 i else k0 i)" and len: "length r = 256"
  defines "p \<equiv> recv_pre_block aes k0 k1 c [bool_to_block r, bool_to_block (drop 128 r)] 256"
  shows "correlated (bool_to_block (map s [0..<128])) (send_pre_block aes ks s c (fst p) 256) (snd p) r"
proof -
  have "send_pre_block aes ks s c (fst p) 256 ! j =
      snd p ! j XOR (if r ! j then bool_to_block (map s [0..<128]) else 0)" if j: "j < 256" for j
  proof -
    have "bit ([bool_to_block r, bool_to_block (drop 128 r)] ! (j div 128)) (j mod 128) = r ! j"
    proof (cases "j < 128")
      case True
      then show ?thesis using len by (simp add: bit_bool_to_block)
    next
      case False
      then have "j div 128 = 1" "j mod 128 = j - 128" using j by (simp_all add: le_div_geq le_mod_geq)
      moreover have "j - 128 < 128" using j by simp
      ultimately show ?thesis using False j len by (simp add: bit_bool_to_block)
    qed
    then show ?thesis
      using pre_block_correlated [OF assms(1), where r = "[bool_to_block r, bool_to_block (drop 128 r)]"
          and len = 256 and y = j and aes = aes and c = c] j by (simp add: p_def)
  qed
  then show ?thesis using len by (simp add: correlated_def p_def)
qed

lemma iknp_ot_selects:
  assumes "length b0 = length r" "length b1 = length r"
  shows "iknp_ot aes kdf gen st b0 b1 r = Some (ot_select b0 b1 r)"
proof -
  define ks where "ks = otco kdf gen (ik_a st) (ik_bb st) (map (ik_k0 st) [0..<128])
    (map (ik_k1 st) [0..<128]) (map (ik_s st) [0..<128])"
  let ?D = "bool_to_block (map (ik_s st) [0..<128])" and ?lens = "chunk_lens (length r)"
  have keys: "ks ! i = (if ik_s st i then ik_k1 st i else ik_k0 st i)" if "i < 128" for i
    using that by (simp add: ks_def otco_selects)
  obtain msgs out c where rc: "recv_chunks aes (ik_k0 st) (ik_k1 st) (ik_counter st) (pack_choices r) ?lens
      = (msgs, out, c)" by (cases "recv_chunks aes (ik_k0 st) (ik_k1 st) (ik_counter st) (pack_choices r) ?lens")
  obtain data c' where sc: "send_chunks aes ((!) ks) (ik_s st) (ik_counter st) msgs ?lens = (data, c')"
    by (cases "send_chunks aes ((!) ks) (ik_s st) (ik_counter st) msgs ?lens")
  have cor: "c = c'" "correlated ?D data out r"
    using chunks_correlated [OF keys chunk_lens_ok rc sc] by simp_all
  note extra = extra_correlated [where ks = "(!) ks" and r = "map (ik_local_r st) [0..<256]", OF keys]
  show ?thesis
    using check_complete [OF cor(2) extra] cot_selects [OF cor(2) assms] cor(1)
    by (simp add: iknp_ot_def Let_def rc sc ks_def [symmetric] case_prod_unfold check_simps)
qed

interpretation iknp: oblivious_transfer "iknp_ot aes kdf gen st" for aes kdf gen st
  by unfold_locales (rule iknp_ot_selects)

end
