(* ===== verification/F2128_MtA.thy ===== *)
theory F2128_MtA
  imports OT_Extension
begin

text \<open>
  mta/F2128MtA.inl: sharing products and powers in GF(2^128) between a prover and a verifier.
  Random bytes are functions from positions to values, so \<open>generate_a\<close> and the other generators
  cut a block array of the declared length out of them; a two-party run is one definition that
  passes each message from the routine that writes it to the one that reads it.  \<open>ot\<close> is the
  oblivious transfer of OT_Extension, \<open>digest\<close> the SHA-256 of the crypto library.
\<close>

section \<open>Parameters\<close>

definition num_powers :: nat where "num_powers = 1088"
definition k_dim :: nat where "k_dim = 128"
definition s_stat :: nat where "s_stat = 128"
definition use_multiplicative_shares :: bool where "use_multiplicative_shares = True"
definition l_mults :: nat where
  "l_mults = of_bool use_multiplicative_shares + (num_powers - 2) div (of_bool use_multiplicative_shares + 1)"
definition batch_size :: nat where "batch_size = 2 * (s_stat + k_dim)"
definition gadget_elements :: nat where "gadget_elements = k_dim + 2 * s_stat"
definition eta :: nat where "eta = gadget_elements * l_mults"
definition number_of_ots :: nat where "number_of_ots = 2 * batch_size"
definition number_of_batched_ots :: nat where "number_of_batched_ots = 2 * eta"

type_synonym rand_blocks = "nat \<Rightarrow> block"

definition generate_a :: "rand_blocks \<Rightarrow> block list" where
  "generate_a rnd = map rnd [0..<l_mults]"

definition generate_beta :: "rand_blocks \<Rightarrow> block list" where
  "generate_beta rnd = map rnd [0..<eta div 128]"

definition generate_gadget_r :: "rand_blocks \<Rightarrow> block list" where
  "generate_gadget_r rnd = map rnd [0..<gadget_elements]"

definition generate_pads :: "rand_blocks \<Rightarrow> block list" where
  "generate_pads rnd = map rnd [0..<number_of_ots]"

definition generate_batched_pads :: "rand_blocks \<Rightarrow> block list" where
  "generate_batched_pads rnd = map rnd [0..<number_of_batched_ots]"

section \<open>Encodings\<close>

definition produce_alpha :: "block list \<Rightarrow> block list \<Rightarrow> block list" where
  "produce_alpha a_tilde a_hat =
     concat (map (\<lambda>i. concat (map (\<lambda>j. [a_tilde ! i, a_hat ! i]) [0..<gadget_elements]))
       [0..<length a_tilde])"

fun dot_product_word :: "nat \<Rightarrow> block \<Rightarrow> block list \<Rightarrow> block \<Rightarrow> block" where
  "dot_product_word 0 cur gadget dot = dot"
| "dot_product_word (Suc n) cur gadget dot =
     dot_product_word n (shift_right_bits 1 cur) (tl gadget)
       (if getLSB cur then dot XOR hd gadget else dot)"

definition dot_product :: "block list \<Rightarrow> block list \<Rightarrow> block" where
  "dot_product gamma gadget =
     foldl (\<lambda>dot i. dot_product_word 128 (gamma ! i) (drop (i * 128) gadget) dot) 0 [0..<3]"

definition produce_b :: "block list \<Rightarrow> block list \<Rightarrow> block list" where
  "produce_b gadget beta = map (\<lambda>i. dot_product (drop (3 * i) beta) gadget) [0..<l_mults]"

definition generate_g :: "block list \<Rightarrow> block list" where
  "generate_g g_r = map (\<lambda>i. (shift_left_bits 1 ^^ i) (makeBlock 0 1)) [0..<128] @ g_r"

definition encode :: "block \<Rightarrow> block list \<Rightarrow> block list \<Rightarrow> block list" where
  "encode inp gadget gamma = (inp XOR dot_product gamma gadget) # gamma"

section \<open>Transfers\<close>

definition prepare_batched_pairs :: "block list \<Rightarrow> block list \<Rightarrow> block list \<times> block list" where
  "prepare_batched_pairs alpha ts = (ts, map (\<lambda>i. alpha ! i XOR ts ! i) [0..<length ts])"

definition prepare_pairs :: "block \<Rightarrow> block \<Rightarrow> block list \<Rightarrow> block list \<times> block list" where
  "prepare_pairs alpha alpha_hat ts =
     (ts, map (\<lambda>i. (if even i then alpha else alpha_hat) XOR ts ! i) [0..<length ts])"

text \<open>\<open>get_sender_out\<close>, \<open>get_sender_batched_out\<close> and the unpacking of both receivers: even positions
  first, odd positions second.\<close>

definition split_halves :: "nat \<Rightarrow> block list \<Rightarrow> block list \<times> block list" where
  "split_halves n ts = (map (\<lambda>i. ts ! (2 * i)) [0..<n], map (\<lambda>i. ts ! (2 * i + 1)) [0..<n])"

definition get_sender_out :: "block list \<Rightarrow> block list \<times> block list" where
  "get_sender_out ts = split_halves batch_size ts"

definition get_sender_batched_out :: "block list \<Rightarrow> block list \<times> block list" where
  "get_sender_batched_out ts = split_halves (number_of_batched_ots div 2) ts"

definition extract_from :: "64 word \<Rightarrow> bool list" where
  "extract_from val = concat (map (\<lambda>j. [bit (drop_bit j val) 0, bit (drop_bit j val) 0]) [0..<64])"

definition get_choice_bits :: "block list \<Rightarrow> bool list" where
  "get_choice_bits omega = concat (map (\<lambda>w. extract_from (epi64 w 0) @ extract_from (epi64 w 1)) omega)"

type_synonym ot_fun = "block list \<Rightarrow> block list \<Rightarrow> bool list \<Rightarrow> block list option"

definition play_receiver :: "ot_fun \<Rightarrow> block list \<times> block list \<Rightarrow> bool list \<Rightarrow> (block list \<times> block list) option" where
  "play_receiver ot pairs choices =
     do { tmp_ot \<leftarrow> ot (fst pairs) (snd pairs) choices; Some (split_halves batch_size tmp_ot) }"

definition play_batched_receiver ::
  "ot_fun \<Rightarrow> block list \<times> block list \<Rightarrow> bool list \<Rightarrow> (block list \<times> block list) option" where
  "play_batched_receiver ot pairs choices =
     do { tmp_ot \<leftarrow> ot (fst pairs) (snd pairs) choices;
          Some (split_halves (number_of_batched_ots div 2) tmp_ot) }"

definition compute_share :: "nat \<Rightarrow> block list \<Rightarrow> block list \<Rightarrow> block" where
  "compute_share upper t g = vector_inn_prdt_sum_red t g upper"

section \<open>Consistency checks\<close>

definition blocks_to_bytes :: "block list \<Rightarrow> bytes" where
  "blocks_to_bytes bs = concat (map block_to_arr bs)"

text \<open>The message of \<open>prove_consistency\<close>: the digest, then \<open>u\<close>.\<close>

definition prove_consistency ::
  "(bytes \<Rightarrow> bytes option) \<Rightarrow> block \<Rightarrow> block \<Rightarrow> block list \<times> block list \<Rightarrow> block \<times> block \<Rightarrow> bytes option" where
  "prove_consistency digest alpha alpha_hat t_a chi =
     (let r = map (\<lambda>i. mul (fst chi) (fst t_a ! i) XOR mul (snd chi) (snd t_a ! i)) [0..<batch_size]
      in do {
        h \<leftarrow> digest (blocks_to_bytes r);
        Some (h @ block_to_arr (mul (fst chi) alpha XOR mul (snd chi) alpha_hat))
      })"

definition check_consistency ::
  "(bytes \<Rightarrow> bytes option) \<Rightarrow> bytes \<Rightarrow> block list \<times> block list \<Rightarrow> block \<times> block \<Rightarrow> bool list \<Rightarrow> bool" where
  "check_consistency digest r t_b chi omega =
     (if length r \<noteq> 48 then False
      else
        let u = arr_to_block (drop 32 r);
            inp = map (\<lambda>i. (mul (fst chi) (fst t_b ! i) XOR mul (snd chi) (snd t_b ! i)) XOR
                          mul u (if omega ! (2 * i) then makeBlock 0 1 else makeBlock 0 0)) [0..<batch_size]
        in case digest (blocks_to_bytes inp) of
             None \<Rightarrow> False
           | Some hash \<Rightarrow> take 32 r = take 32 hash)"

definition prove_consistency_batched ::
  "block list \<Rightarrow> block list \<Rightarrow> block list \<times> block list \<Rightarrow> block list \<times> block list \<Rightarrow> block list" where
  "prove_consistency_batched a_tilde a_hat t_a chi =
     concat (map (\<lambda>i.
       [mul (fst chi ! i) (a_tilde ! i) XOR mul (snd chi ! i) (a_hat ! i),
        foldl (\<lambda>acc j. acc XOR (mul (fst chi ! i) (fst t_a ! (j * gadget_elements + i)) XOR
                               mul (snd chi ! i) (snd t_a ! (j * gadget_elements + i)))) 0 [0..<l_mults]])
       [0..<gadget_elements])"

text \<open>One row of the receiver's loop: \<open>tmp\<close> and \<open>rhs\<close> when the inner loop is done.\<close>

definition check_row ::
  "block list \<Rightarrow> block list \<times> block list \<Rightarrow> block list \<times> block list \<Rightarrow> bool list \<Rightarrow> nat \<Rightarrow> block \<times> block" where
  "check_row r t_b chi beta i =
     foldl (\<lambda>(tmp, rhs) j.
         (tmp XOR (mul (fst chi ! i) (fst t_b ! (i * gadget_elements + j)) XOR
                   mul (snd chi ! i) (snd t_b ! (i * gadget_elements + j))),
          if beta ! (i * gadget_elements + j) then rhs XOR rhs else rhs))
       (r ! (2 * i + 1), r ! (2 * i)) [0..<l_mults]"

definition check_consistency_batched ::
  "block list \<Rightarrow> block list \<times> block list \<Rightarrow> block list \<times> block list \<Rightarrow> bool list \<Rightarrow> bool" where
  "check_consistency_batched r t_b chi beta =
     foldl (\<lambda>correct i. let (tmp, rhs) = check_row r t_b chi beta i
                       in if cmpBlock [tmp] [rhs] 1 then False else correct)
       True [0..<gadget_elements]"

section \<open>Powers by repeated multiplication\<close>

record iter_rand =
  ir_gadget :: rand_blocks
  ir_gamma :: rand_blocks
  ir_pads :: rand_blocks
  ir_alpha_hat :: block
  ir_chi :: block
  ir_chi_hat :: block

text \<open>\<^verbatim>\<open>single_iter\<close>, receiver's result first.  A failed check makes both parties return false.\<close>

definition single_iter ::
  "ot_fun \<Rightarrow> (bytes \<Rightarrow> bytes option) \<Rightarrow> iter_rand \<Rightarrow> block \<Rightarrow> block \<Rightarrow> (block \<times> block) option" where
  "single_iter ot digest rnd in_r in_s =
     (let gadget_r = generate_gadget_r (ir_gadget rnd);
          g = generate_g gadget_r;
          omega = encode in_r gadget_r (map (ir_gamma rnd) [0..<3]);
          choice_bits = get_choice_bits omega;
          pads = generate_pads (ir_pads rnd);
          alpha_vec = prepare_pairs in_s (ir_alpha_hat rnd) pads;
          t_a = get_sender_out pads;
          chi = (ir_chi rnd, ir_chi_hat rnd)
      in do {
        t_b \<leftarrow> play_receiver ot alpha_vec choice_bits;
        msg \<leftarrow> prove_consistency digest in_s (ir_alpha_hat rnd) t_a chi;
        check (check_consistency digest msg t_b chi choice_bits);
        Some (compute_share (length g) (fst t_b) g, compute_share (length g) (fst t_a) g)
      })"

function sq_loop :: "nat \<Rightarrow> nat \<Rightarrow> block list \<Rightarrow> block list" where
  "sq_loop lhs rhs out =
     (if lhs < num_powers then sq_loop (lhs * 2 + 1) lhs (out[lhs := mul (out ! rhs) (out ! rhs)]) else out)"
  by pat_completeness auto
termination by (relation "measure (\<lambda>(lhs, rhs, out). num_powers - lhs)") auto

declare sq_loop.simps [simp del]

definition compute_squares :: "nat \<Rightarrow> block list \<Rightarrow> block list" where
  "compute_squares start out = sq_loop (start * 2 + 1) start out"

text \<open>The values of the counter of \<^verbatim>\<open>for (i = start; i < num_powers; i += 2)\<close>.\<close>

function step2 :: "nat \<Rightarrow> nat list" where
  "step2 i = (if i < num_powers then i # step2 (i + 2) else [])"
  by pat_completeness auto
termination by (relation "measure (\<lambda>i. num_powers - i)") auto

declare step2.simps [simp del]

text \<open>One round of the loop of \<^verbatim>\<open>generate_shares_repeated\<close>; the verifier's array comes first.
  \<open>ots i e\<close> is the extension in the state it has before the first or second transfer of round \<open>i\<close>.\<close>

definition repeated_step ::
  "(nat \<Rightarrow> bool \<Rightarrow> ot_fun) \<Rightarrow> (bytes \<Rightarrow> bytes option) \<Rightarrow> (nat \<Rightarrow> bool \<Rightarrow> iter_rand) \<Rightarrow> block \<Rightarrow> block \<Rightarrow> nat \<Rightarrow>
     block list \<times> block list \<Rightarrow> (block list \<times> block list) option" where
  "repeated_step ots digest rnd in_v in_p i outs =
     (let out_v = fst outs; out_p = snd outs;
          our_v = mul (out_v ! (i - 1)) in_v;
          our_p = mul (out_p ! (i - 1)) in_p
      in do {
        (first_v, first_p) \<leftarrow> single_iter (ots i False) digest (rnd i False) in_v (out_p ! (i - 1));
        (second_v, second_p) \<leftarrow> single_iter (ots i True) digest (rnd i True) (out_v ! (i - 1)) in_p;
        Some (compute_squares i (out_v[i := our_v XOR first_v XOR second_v]),
              compute_squares i (out_p[i := our_p XOR first_p XOR second_p]))
      })"

fun repeated_loop ::
  "(nat \<Rightarrow> bool \<Rightarrow> ot_fun) \<Rightarrow> (bytes \<Rightarrow> bytes option) \<Rightarrow> (nat \<Rightarrow> bool \<Rightarrow> iter_rand) \<Rightarrow> block \<Rightarrow> block \<Rightarrow> nat list \<Rightarrow>
     block list \<times> block list \<Rightarrow> (block list \<times> block list) option" where
  "repeated_loop ots digest rnd in_v in_p [] outs = Some outs"
| "repeated_loop ots digest rnd in_v in_p (i # is) outs =
     do { outs' \<leftarrow> repeated_step ots digest rnd in_v in_p i outs;
          repeated_loop ots digest rnd in_v in_p is outs' }"

definition init_shares :: "block \<Rightarrow> block list" where
  "init_shares inp = (replicate num_powers 0)[0 := inp]"

definition generate_shares_repeated ::
  "(nat \<Rightarrow> bool \<Rightarrow> ot_fun) \<Rightarrow> (bytes \<Rightarrow> bytes option) \<Rightarrow> (nat \<Rightarrow> bool \<Rightarrow> iter_rand) \<Rightarrow> block \<Rightarrow> block \<Rightarrow>
     (block list \<times> block list) option" where
  "generate_shares_repeated ots digest rnd in_v in_p =
     repeated_loop ots digest rnd in_v in_p (step2 2)
       (compute_squares 0 (init_shares in_v), compute_squares 0 (init_shares in_p))"

section \<open>Powers in one batch\<close>

record batched_rand =
  br_gadget :: rand_blocks
  br_beta :: rand_blocks
  br_a_tilde :: rand_blocks
  br_a_hat :: rand_blocks
  br_pads :: rand_blocks
  br_chi :: rand_blocks
  br_chi_hat :: rand_blocks

definition compute_share_of :: "block list \<Rightarrow> block \<Rightarrow> block \<Rightarrow> nat \<Rightarrow> block list \<Rightarrow> block" where
  "compute_share_of gadget_r my_in other_in i t =
     foldl (\<lambda>dot j. dot XOR mul (t ! (i * gadget_elements + j)) (gadget_r ! j)) 0 [0..<gadget_elements]
     XOR mul my_in other_in"

text \<open>The local odd powers: \<open>out[i]\<close> for even \<open>i\<close>.\<close>

definition odd_powers :: "block \<Rightarrow> block list" where
  "odd_powers inp =
     (let sq = mul inp inp
      in snd (foldl (\<lambda>(tmp, out) i. let tmp = mul sq tmp in (tmp, out[i := tmp]))
           (inp, init_shares inp) (step2 2)))"

text \<open>\<^verbatim>\<open>SenderType::compute_mult_shares\<close> and \<^verbatim>\<open>ReceiverType::compute_mult_shares\<close>: the masked powers a
  party writes, and the update it makes with the other's message.\<close>

definition masked_powers :: "block list \<Rightarrow> block list \<Rightarrow> block list" where
  "masked_powers out pad = map (\<lambda>i. out ! (2 * i) XOR pad ! i) [0..<l_mults]"

definition sender_mult_shares :: "block list \<Rightarrow> block list \<Rightarrow> block list \<Rightarrow> block list \<Rightarrow> block list" where
  "sender_mult_shares gadget_r t_a other_tmp out =
     foldl (\<lambda>out i. out[2 * i := compute_share_of gadget_r (out ! (2 * i)) (other_tmp ! i) i t_a]) out [0..<l_mults]"

definition receiver_mult_shares ::
  "block list \<Rightarrow> block list \<Rightarrow> block list \<Rightarrow> block list \<Rightarrow> block list \<Rightarrow> block list" where
  "receiver_mult_shares gadget_r b t_b other_tmp out =
     foldl (\<lambda>out i. out[2 * i := compute_share_of gadget_r (b ! i) (other_tmp ! i) i t_b]) out [0..<l_mults]"

definition all_squares :: "block list \<Rightarrow> block list" where
  "all_squares out = foldl (\<lambda>out i. compute_squares i out) out (step2 0)"

text \<open>\<^verbatim>\<open>generate_shares_batched\<close> for the verifier (sender) and the prover (receiver), with multiplicative
  shares; an inconsistent batch aborts.\<close>

definition generate_shares_batched ::
  "ot_fun \<Rightarrow> batched_rand \<Rightarrow> block \<Rightarrow> block \<Rightarrow> (block list \<times> block list) option" where
  "generate_shares_batched ot rnd in_v in_p =
     (let gadget_r = generate_gadget_r (br_gadget rnd);
          beta = generate_beta (br_beta rnd);
          b = produce_b gadget_r beta;
          omega = get_choice_bits beta;
          a_tilde = generate_a (br_a_tilde rnd);
          a_hat = generate_a (br_a_hat rnd);
          pads = generate_batched_pads (br_pads rnd);
          pairs = prepare_batched_pairs (produce_alpha a_tilde a_hat) pads;
          t_a = get_sender_batched_out pads;
          chi = (generate_a (br_chi rnd), generate_a (br_chi_hat rnd))
      in do {
        t_b \<leftarrow> play_batched_receiver ot pairs omega;
        check (check_consistency_batched (prove_consistency_batched a_tilde a_hat t_a chi) t_b chi omega);
        let out_v = odd_powers in_v;
            out_p = odd_powers in_p;
            tmp_v = masked_powers out_v a_tilde;
            tmp_p = masked_powers out_p b
        in Some (all_squares (sender_mult_shares gadget_r (fst t_a) tmp_p out_v),
                 all_squares (receiver_mult_shares gadget_r b (fst t_b) tmp_v out_p))
      })"

section \<open>Sizes and positions\<close>

lemma sizes:
  "num_powers = 1088" "l_mults = 544" "gadget_elements = 384" "batch_size = 512"
  "number_of_ots = 1024" "eta = 208896" "number_of_batched_ots = 417792"
  by (simp_all add: num_powers_def l_mults_def use_multiplicative_shares_def gadget_elements_def
      batch_size_def number_of_ots_def eta_def number_of_batched_ots_def k_dim_def s_stat_def
      numeral_2_eq_2 [symmetric])

lemma concat_nth:
  "\<forall>xs \<in> set xss. length xs = n \<Longrightarrow> i < length xss * n \<Longrightarrow> concat xss ! i = xss ! (i div n) ! (i mod n)"
proof (induction xss arbitrary: i)
  case (Cons xs xss)
  show ?case
  proof (cases "i < n")
    case True
    then show ?thesis using Cons.prems by (simp add: nth_append)
  next
    case False
    then have "0 < n" using Cons.prems by (cases n) auto
    then have "i div n = Suc ((i - n) div n)" "i mod n = (i - n) mod n"
      using False by (simp_all add: le_div_geq le_mod_geq)
    then show ?thesis using False Cons by (simp add: nth_append)
  qed
qed simp

lemma concat_pairs_length [simp]: "length (concat (map (\<lambda>j. [f j, g j]) xs)) = 2 * length xs"
  by (induction xs) auto

lemma split_halves_nth [simp]:
  "i < n \<Longrightarrow> fst (split_halves n ts) ! i = ts ! (2 * i)"
  "i < n \<Longrightarrow> snd (split_halves n ts) ! i = ts ! (2 * i + 1)"
  by (simp_all add: split_halves_def)

lemma extract_from_nth: "j < 64 \<Longrightarrow> extract_from v ! (2 * j + of_bool e) = bit v j"
  using concat_pairs_nth [of j 64 "\<lambda>j. bit (drop_bit j v) 0" "\<lambda>j. bit (drop_bit j v) 0" e]
  unfolding extract_from_def by (simp add: bit_drop_bit_eq)

lemma length_extract_from [simp]: "length (extract_from v) = 128"
  by (simp add: extract_from_def del: upt_conv_Cons)

lemma length_get_choice_bits: "length (get_choice_bits omega) = length omega * 256"
  by (induction omega) (simp_all add: get_choice_bits_def)

definition choice :: "block list \<Rightarrow> nat \<Rightarrow> bool" where
  "choice omega m = bit (omega ! (m div 128)) (m mod 128)"

lemma choice_bit_word:
  assumes "j < 128"
  shows "(extract_from (epi64 w 0) @ extract_from (epi64 w 1)) ! (2 * j + of_bool e) = bit w j"
proof (cases "j < 64")
  case True
  then have "2 * j + of_bool e < 128" by (cases e) auto
  then show ?thesis using True by (simp add: nth_append extract_from_nth bit_epi64)
next
  case False
  then have "2 * j + of_bool e - 128 = 2 * (j - 64) + of_bool e" "j - 64 < 64" using assms by auto
  then show ?thesis using False assms
    by (simp add: nth_append extract_from_nth bit_epi64)
qed

lemma get_choice_bits_nth:
  assumes "m < length omega * 128"
  shows "get_choice_bits omega ! (2 * m + of_bool e) = choice omega m"
proof -
  let ?i = "2 * m + of_bool e :: nat"
  have i: "?i < length omega * 256" using assms by (cases e) auto
  have "?i div 2 = m" "?i mod 2 = of_bool e" by (cases e; simp)+
  then have "?i div 256 = m div 128" "?i mod 256 = 2 * (m mod 128) + of_bool e"
    using div_mult2_eq [of ?i 2 128] mod_mult2_eq [of ?i 2 128] by simp_all
  moreover have "m div 128 < length omega" using assms by (simp add: div_less_iff_less_mult)
  ultimately show ?thesis
    using i choice_bit_word [of "m mod 128" "omega ! (m div 128)" e]
    unfolding get_choice_bits_def choice_def by (subst concat_nth [where n = 256]) auto
qed

section \<open>The inner product of bits and gadget\<close>

lemma Gf_dot_product_word:
  "n \<le> length gadget \<Longrightarrow>
     Gf (dot_product_word n cur gadget dot) = Gf dot + (\<Sum>j<n. if bit cur j then Gf (gadget ! j) else 0)"
proof (induction n arbitrary: cur gadget dot)
  case (Suc n)
  then obtain g gs where g: "gadget = g # gs" by (cases gadget) auto
  have "bit (shift_right_bits 1 cur) j = bit cur (Suc j)" for j
    by (simp add: shift_right_bits_eq bit_drop_bit_eq)
  with Suc show ?case unfolding g
    by (simp add: sum.lessThan_Suc_shift getLSB_def Gf_xor add.assoc
        del: sum.lessThan_Suc cong: if_cong)
qed simp

lemma Gf_dot_product:
  assumes "length gadget = 384"
  shows "Gf (dot_product gamma gadget) = (\<Sum>m<384. if choice gamma m then Gf (gadget ! m) else 0)"
proof -
  let ?f = "\<lambda>m. if choice gamma m then Gf (gadget ! m) else 0"
  have w: "Gf (dot_product_word 128 (gamma ! i) (drop (i * 128) gadget) dot) =
      Gf dot + sum ?f {i * 128..<i * 128 + 128}" if "i < 3" for i dot
  proof -
    have "sum ?f {i * 128..<i * 128 + 128} = (\<Sum>j<128. ?f (j + i * 128))"
      using sum.shift_bounds_nat_ivl [of ?f 0 "i * 128" 128] by (simp add: atLeast0LessThan add.commute)
    then show ?thesis
      using that assms by (auto simp: Gf_dot_product_word choice_def add.commute intro!: sum.cong)
  qed
  have "[0..<3] = [0, 1, 2 :: nat]" "{..<3 :: nat} = {0, 1, 2}" by (auto simp: upt_rec)
  then have "Gf (dot_product gamma gadget) =
      (\<Sum>i<3. sum ?f {i * 128..<i * 128 + 128})"
    using w [of 0] w [of 1] w [of 2]
    by (simp add: dot_product_def Gf_0 add_ac)
  also have "\<dots> = sum ?f {..<3 * 128}" by (rule sum.nat_group)
  finally show ?thesis by simp
qed

lemma sum_lessThan_add:
  "sum f {..<a + b} = sum f {..<a} + (\<Sum>i<b. f (a + i) :: 'a :: comm_monoid_add)" for a b :: nat
  by (induction b) (simp_all add: add.assoc)

lemma shift_left_one_iter: "(shift_left_bits 1 ^^ i) (makeBlock 0 1) = 2 ^ i"
proof (induction i)
  case 0
  then show ?case by (simp add: makeBlock_def set_epi64x_def)
next
  case (Suc i)
  have "shift_left_bits 1 (2 ^ i) = 2 ^ Suc i"
    by (subst shift_left_bits_small) (simp_all add: push_bit_eq_mult)
  then show ?case by (simp only: funpow.simps o_apply Suc)
qed

lemma generate_g_nth:
  "m < 128 \<Longrightarrow> generate_g g_r ! m = 2 ^ m"
  "m < length g_r \<Longrightarrow> generate_g g_r ! (128 + m) = g_r ! m"
  by (simp_all add: generate_g_def nth_append shift_left_one_iter [unfolded One_nat_def])

lemma encode_inner_product:
  assumes "length gadget = 384"
  shows "(\<Sum>m<512. if choice (encode inp gadget gamma) m then Gf (generate_g gadget ! m) else 0) = Gf inp"
proof -
  let ?o = "encode inp gadget gamma" and ?g = "\<lambda>m. Gf (generate_g gadget ! m)"
  have "(\<Sum>m<128. if choice ?o m then ?g m else 0) = Gf (inp XOR dot_product gamma gadget)"
    by (subst Gf_sum_bits, intro sum.cong)
       (auto simp: choice_def encode_def generate_g_nth)
  moreover have "choice ?o (128 + m) = choice gamma m" for m
    by (simp add: choice_def encode_def le_div_geq)
  then have "(\<Sum>m<384. if choice ?o (128 + m) then ?g (128 + m) else 0) = Gf (dot_product gamma gadget)"
    by (subst Gf_dot_product [OF assms], intro sum.cong) (auto simp: generate_g_nth assms)
  ultimately show ?thesis
    using sum_lessThan_add [of "\<lambda>m. if choice ?o m then ?g m else 0" 128 384]
    by (simp add: Gf_xor add.assoc)
qed

lemma compute_share_sum:
  assumes "\<And>m. m < n \<Longrightarrow> t_b ! m = t_a ! m XOR (if c m then alpha else 0)"
  shows "Gf (compute_share n t_b g) + Gf (compute_share n t_a g) =
     Gf alpha * (\<Sum>m<n. if c m then Gf (g ! m) else 0)"
proof -
  have "Gf (t_b ! m) * Gf (g ! m) + Gf (t_a ! m) * Gf (g ! m) =
      Gf alpha * (if c m then Gf (g ! m) else 0)" if "m < n" for m
    using assms [OF that] by (simp add: Gf_xor Gf_0 distrib_right add_ac)
  then show ?thesis
    by (simp add: compute_share_def Gf_inner_product sum.distrib [symmetric] sum_distrib_left
        del: vector_inn_prdt_sum_red.simps)
qed

section \<open>One multiplication\<close>

text \<open>What the development asks of SHA-256: it does not fail, and its output has 32 bytes.\<close>

definition digest_ok :: "(bytes \<Rightarrow> bytes option) \<Rightarrow> bool" where
  "digest_ok digest \<longleftrightarrow> (\<forall>x. \<exists>h. digest x = Some h \<and> length h = 32)"

lemma check_accepts:
  assumes "digest_ok digest" and "length omega = 4"
    and "\<And>m. m < 512 \<Longrightarrow> fst t_b ! m = fst t_a ! m XOR (if choice omega m then alpha else 0)"
    and "\<And>m. m < 512 \<Longrightarrow> snd t_b ! m = snd t_a ! m XOR (if choice omega m then alpha_hat else 0)"
  shows "\<exists>msg. prove_consistency digest alpha alpha_hat t_a chi = Some msg \<and>
     check_consistency digest msg t_b chi (get_choice_bits omega)"
proof -
  let ?u = "mul (fst chi) alpha XOR mul (snd chi) alpha_hat"
  let ?r = "\<lambda>i. mul (fst chi) (fst t_a ! i) XOR mul (snd chi) (snd t_a ! i)"
  have r: "(mul (fst chi) (fst t_b ! i) XOR mul (snd chi) (snd t_b ! i)) XOR
      mul ?u (if get_choice_bits omega ! (2 * i) then makeBlock 0 1 else makeBlock 0 0) = ?r i" if "i < 512" for i
  proof -
    have "get_choice_bits omega ! (2 * i) = choice omega i"
      using get_choice_bits_nth [of i omega False] that assms(2) by simp
    moreover have "Gf (makeBlock 0 0) = 0" by (simp add: makeBlock_def set_epi64x_def Gf_0)
    ultimately have "Gf ((mul (fst chi) (fst t_b ! i) XOR mul (snd chi) (snd t_b ! i)) XOR
      mul ?u (if get_choice_bits omega ! (2 * i) then makeBlock 0 1 else makeBlock 0 0)) = Gf (?r i)"
      using assms(3,4) [OF that]
      by (simp add: Gf_xor Gf_mul Gf_makeBlock_1 Gf_0 algebra_simps)
    then show ?thesis by simp
  qed
  then have "map (\<lambda>i. (mul (fst chi) (fst t_b ! i) XOR mul (snd chi) (snd t_b ! i)) XOR
      mul ?u (if get_choice_bits omega ! (2 * i) then makeBlock 0 1 else makeBlock 0 0)) [0..<512] =
      map ?r [0..<512]" by simp
  moreover obtain h where h: "digest (blocks_to_bytes (map ?r [0..<512])) = Some h" "length h = 32"
    using assms(1) by (auto simp: digest_ok_def)
  ultimately show ?thesis
    by (simp add: prove_consistency_def check_consistency_def Let_def sizes arr_to_block_to_arr
        del: map_eq_conv)
qed

context oblivious_transfer
begin

lemma play_receiver_pairs:
  fixes alpha alpha_hat
  assumes "length omega = 4" and "length pads = 1024"
  defines "pairs \<equiv> prepare_pairs alpha alpha_hat pads"
  obtains t_b where "play_receiver ot pairs (get_choice_bits omega) = Some t_b"
    and "\<And>m. m < 512 \<Longrightarrow> fst t_b ! m = fst (get_sender_out pads) ! m XOR (if choice omega m then alpha else 0)"
    and "\<And>m. m < 512 \<Longrightarrow> snd t_b ! m = snd (get_sender_out pads) ! m XOR (if choice omega m then alpha_hat else 0)"
proof
  let ?c = "get_choice_bits omega"
  have len: "length ?c = 1024" using assms(1) by (simp add: length_get_choice_bits)
  show "play_receiver ot pairs ?c = Some (split_halves batch_size (ot_select (fst pairs) (snd pairs) ?c))"
    using len assms by (simp add: play_receiver_def prepare_pairs_def ot_selects)
  have bits: "?c ! (2 * m) = choice omega m" "?c ! (2 * m + 1) = choice omega m" if "m < 512" for m
    using get_choice_bits_nth [of m omega False] get_choice_bits_nth [of m omega True] that assms(1) by simp_all
  show "fst (split_halves batch_size (ot_select (fst pairs) (snd pairs) ?c)) ! m =
      fst (get_sender_out pads) ! m XOR (if choice omega m then alpha else 0)" if "m < 512" for m
    using that len assms(2) bits [OF that]
    by (simp add: sizes get_sender_out_def ot_select_def pairs_def prepare_pairs_def ac_simps)
  show "snd (split_halves batch_size (ot_select (fst pairs) (snd pairs) ?c)) ! m =
      snd (get_sender_out pads) ! m XOR (if choice omega m then alpha_hat else 0)" if "m < 512" for m
    using that len assms(2) bits [OF that]
    by (simp add: sizes get_sender_out_def ot_select_def pairs_def prepare_pairs_def ac_simps)
qed

lemma single_iter_product:
  assumes "digest_ok digest"
  shows "\<exists>a b. single_iter ot digest rnd in_r in_s = Some (a, b) \<and> Gf a + Gf b = Gf in_r * Gf in_s"
proof -
  let ?gadget = "generate_gadget_r (ir_gadget rnd)" and ?pads = "generate_pads (ir_pads rnd)"
  let ?omega = "encode in_r ?gadget (map (ir_gamma rnd) [0..<3])"
  have len: "length ?omega = 4" "length ?pads = 1024" "length ?gadget = 384"
    by (simp_all add: encode_def generate_pads_def generate_gadget_r_def sizes)
  obtain t_b where t: "play_receiver ot (prepare_pairs in_s (ir_alpha_hat rnd) ?pads) (get_choice_bits ?omega) = Some t_b"
    and f: "\<And>m. m < 512 \<Longrightarrow> fst t_b ! m = fst (get_sender_out ?pads) ! m XOR (if choice ?omega m then in_s else 0)"
    and s: "\<And>m. m < 512 \<Longrightarrow> snd t_b ! m = snd (get_sender_out ?pads) ! m XOR
      (if choice ?omega m then ir_alpha_hat rnd else 0)"
    using play_receiver_pairs [OF len(1,2)] by blast
  obtain msg where m: "prove_consistency digest in_s (ir_alpha_hat rnd) (get_sender_out ?pads) (ir_chi rnd, ir_chi_hat rnd) = Some msg"
    "check_consistency digest msg t_b (ir_chi rnd, ir_chi_hat rnd) (get_choice_bits ?omega)"
    using check_accepts [OF assms len(1) f s] by blast
  have g: "length (generate_g ?gadget) = 512" using len(3) by (simp add: generate_g_def)
  have "Gf (compute_share 512 (fst t_b) (generate_g ?gadget)) +
      Gf (compute_share 512 (fst (get_sender_out ?pads)) (generate_g ?gadget)) = Gf in_r * Gf in_s"
    using compute_share_sum [where n = 512 and c = "choice ?omega" and g = "generate_g ?gadget", OF f]
      encode_inner_product [OF len(3)] by (simp add: mult.commute)
  then show ?thesis using t m g by (simp add: single_iter_def Let_def check_simps)
qed

end

section \<open>Shares of powers\<close>

text \<open>Both arrays are full, and at the positions in \<open>S\<close> they share the power of \<open>h\<close> the position names.\<close>

definition powers_ok :: "gf \<Rightarrow> nat set \<Rightarrow> block list \<times> block list \<Rightarrow> bool" where
  "powers_ok h S outs \<longleftrightarrow> length (fst outs) = num_powers \<and> length (snd outs) = num_powers \<and>
     (\<forall>j \<in> S. j < num_powers \<longrightarrow> Gf (fst outs ! j) + Gf (snd outs ! j) = h ^ (j + 1))"

definition doublings :: "nat \<Rightarrow> nat set" where
  "doublings r = {j. \<exists>e. j + 1 = (r + 1) * 2 ^ e}"

lemma doublings_step: "doublings r = insert r (doublings (2 * r + 1))"
proof -
  have "j \<in> doublings r \<longleftrightarrow> j = r \<or> j \<in> doublings (2 * r + 1)" for j
  proof
    assume "j \<in> doublings r"
    then obtain e where "j + 1 = (r + 1) * 2 ^ e" by (auto simp: doublings_def)
    then show "j = r \<or> j \<in> doublings (2 * r + 1)"
      by (cases e) (auto simp: doublings_def intro!: exI [of _ "e - 1"])
  next
    assume "j = r \<or> j \<in> doublings (2 * r + 1)"
    then consider "j = r" | e where "j + 1 = (2 * r + 1 + 1) * 2 ^ e" by (auto simp: doublings_def)
    then show "j \<in> doublings r"
    proof cases
      case (2 e)
      then have "j + 1 = (r + 1) * 2 ^ Suc e" by simp
      then show ?thesis unfolding doublings_def by blast
    qed (auto simp: doublings_def intro: exI [of _ 0])
  qed
  then show ?thesis by blast
qed

lemma doublings_ge: "j \<in> doublings r \<Longrightarrow> r \<le> j"
proof -
  assume "j \<in> doublings r"
  then obtain e where "j + 1 = (r + 1) * 2 ^ e" by (auto simp: doublings_def)
  moreover have "(r + 1) * 1 \<le> (r + 1) * 2 ^ e" by (intro mult_le_mono) simp_all
  ultimately show ?thesis by simp
qed

lemma powers_ok_set:
  assumes "powers_ok h S (v, p)" and "i < num_powers \<Longrightarrow> Gf a + Gf b = h ^ (i + 1)"
  shows "powers_ok h (insert i S) (v[i := a], p[i := b])"
proof -
  have "Gf (v[i := a] ! j) + Gf (p[i := b] ! j) = h ^ (j + 1)" if "j \<in> insert i S" "j < num_powers" for j
    using that assms by (cases "j = i") (auto simp: powers_ok_def)
  then show ?thesis using assms(1) by (auto simp: powers_ok_def)
qed

lemma powers_ok_subset: "powers_ok h S outs \<Longrightarrow> T \<subseteq> S \<Longrightarrow> powers_ok h T outs"
  by (auto simp: powers_ok_def)

lemma gf_square_power: "x + y = h ^ n \<Longrightarrow> x * x + y * y = (h :: gf) ^ (2 * n)"
  by (metis gf_square_add mult_2 power_add)

lemma sq_loop_powers:
  assumes "powers_ok h S (v, p)" and "rhs \<in> S" and "lhs = 2 * rhs + 1"
  shows "powers_ok h (S \<union> doublings rhs) (sq_loop lhs rhs v, sq_loop lhs rhs p)"
  using assms
proof (induction lhs rhs v arbitrary: S p rule: sq_loop.induct)
  case (1 lhs rhs v)
  show ?case
  proof (cases "lhs < num_powers")
    case True
    have "Gf (v ! rhs) + Gf (p ! rhs) = h ^ (rhs + 1)"
      using 1(2-) True by (auto simp: powers_ok_def)
    from gf_square_power [OF this] have "Gf (mul (v ! rhs) (v ! rhs)) + Gf (mul (p ! rhs) (p ! rhs)) = h ^ (lhs + 1)"
      using 1(4) by (simp add: Gf_mul)
    then have "powers_ok h (insert lhs S) (v[lhs := mul (v ! rhs) (v ! rhs)], p[lhs := mul (p ! rhs) (p ! rhs)])"
      using powers_ok_set 1(2) by blast
    from 1(1) [OF True this] have "powers_ok h (insert lhs S \<union> doublings lhs) (sq_loop lhs rhs v, sq_loop lhs rhs p)"
      using True by (simp add: sq_loop.simps [of lhs rhs] mult.commute)
    then show ?thesis
      by (rule powers_ok_subset) (use 1(3,4) doublings_step [of rhs] in auto)
  next
    case False
    have "j \<in> S" if "j \<in> doublings rhs" "j < num_powers" for j
      using that 1(3,4) False doublings_step [of rhs] doublings_ge [of j lhs] by auto
    then show ?thesis using 1(2) False
      by (auto simp: sq_loop.simps [of lhs rhs] powers_ok_def)
  qed
qed

lemma compute_squares_powers:
  "powers_ok h S (v, p) \<Longrightarrow> i \<in> S \<Longrightarrow>
     powers_ok h (S \<union> doublings i) (compute_squares i v, compute_squares i p)"
  unfolding compute_squares_def by (rule sq_loop_powers) simp_all

text \<open>The positions that follow from the odd powers up to \<open>h ^ (i - 1)\<close>.\<close>

definition covered :: "nat \<Rightarrow> nat set" where
  "covered i = (\<Union>k \<in> {k. even k \<and> k < i}. doublings k)"

lemma odd_part: "0 < n \<Longrightarrow> \<exists>k e. even k \<and> (n :: nat) = (k + 1) * 2 ^ e"
proof (induction n rule: less_induct)
  case (less n)
  show ?case
  proof (cases "even n")
    case True
    then obtain m where m: "n = 2 * m" by blast
    then have "m < n" "0 < m" using less.prems by simp_all
    then obtain k e where "even k" "m = (k + 1) * 2 ^ e" using less.IH by blast
    then have "even k \<and> n = (k + 1) * 2 ^ Suc e" using m by simp
    then show ?thesis by blast
  next
    case False
    then have "even (n - 1) \<and> n = (n - 1 + 1) * 2 ^ 0" by (cases n) simp_all
    then show ?thesis by blast
  qed
qed

lemma covered_below: "j < i \<Longrightarrow> j \<in> covered i"
proof -
  assume "j < i"
  obtain k e where "even k" "j + 1 = (k + 1) * 2 ^ e" using odd_part [of "j + 1"] by auto
  then have j: "j \<in> doublings k" unfolding doublings_def by blast
  then have "k < i" using doublings_ge \<open>j < i\<close> by fastforce
  with \<open>even k\<close> j show ?thesis unfolding covered_def by blast
qed

lemma covered_step: "even i \<Longrightarrow> covered (i + 2) = covered i \<union> doublings i"
proof -
  assume i: "even i"
  have "even k \<and> k < i + 2 \<longleftrightarrow> k = i \<or> even k \<and> k < i" for k
  proof (cases "k = i + 1")
    case True
    then show ?thesis using i by simp
  qed (use i in auto)
  then have "{k. even k \<and> k < i + 2} = insert i {k. even k \<and> k < i}" by blast
  then show ?thesis by (simp only: covered_def UN_insert Un_commute [of "doublings i"])
qed

lemma num_powers_pos: "0 < num_powers"
  by (simp add: num_powers_def)

lemma init_powers:
  "powers_ok h {0} ((init_shares a), (init_shares b))" if "Gf a + Gf b = h"
  using that num_powers_pos by (simp add: powers_ok_def init_shares_def)

section \<open>The repeated protocol\<close>

lemma repeated_step_powers:
  assumes ots: "\<And>i e. oblivious_transfer (ots i e)" and "digest_ok digest"
    and ok: "powers_ok (Gf in_v + Gf in_p) (covered i) outs" and i: "even i" "0 < i" "i < num_powers"
  shows "\<exists>outs'. repeated_step ots digest rnd in_v in_p i outs = Some outs' \<and>
     powers_ok (Gf in_v + Gf in_p) (covered (i + 2)) outs'"
proof -
  let ?h = "Gf in_v + Gf in_p"
  obtain v p where outs: "outs = (v, p)" by (cases outs)
  obtain a1 b1 where 1: "single_iter (ots i False) digest (rnd i False) in_v (p ! (i - 1)) = Some (a1, b1)"
    "Gf a1 + Gf b1 = Gf in_v * Gf (p ! (i - 1))"
    using oblivious_transfer.single_iter_product [OF ots assms(2)] by blast
  obtain a2 b2 where 2: "single_iter (ots i True) digest (rnd i True) (v ! (i - 1)) in_p = Some (a2, b2)"
    "Gf a2 + Gf b2 = Gf (v ! (i - 1)) * Gf in_p"
    using oblivious_transfer.single_iter_product [OF ots assms(2)] by blast
  let ?a = "mul (v ! (i - 1)) in_v XOR a1 XOR a2" and ?b = "mul (p ! (i - 1)) in_p XOR b1 XOR b2"
  have prev: "Gf (v ! (i - 1)) + Gf (p ! (i - 1)) = ?h ^ i"
  proof -
    have "i - 1 \<in> covered i" "i - 1 < num_powers" "i - 1 + 1 = i" using i covered_below by simp_all
    then show ?thesis using ok unfolding powers_ok_def outs by (metis fst_conv snd_conv)
  qed
  have "Gf ?a + Gf ?b = Gf (v ! (i - 1)) * Gf in_v + Gf (p ! (i - 1)) * Gf in_p
      + (Gf a1 + Gf b1) + (Gf a2 + Gf b2)"
    by (simp add: Gf_xor Gf_mul add_ac)
  also have "\<dots> = (Gf (v ! (i - 1)) + Gf (p ! (i - 1))) * ?h"
    unfolding 1 2 by (simp add: algebra_simps)
  finally have "Gf ?a + Gf ?b = ?h ^ (i + 1)" unfolding prev by (simp add: mult.commute)
  from powers_ok_set [OF ok [unfolded outs] this]
  have "powers_ok ?h (insert i (covered i)) (v[i := ?a], p[i := ?b])" .
  from compute_squares_powers [OF this, of i] have
    "powers_ok ?h (covered (i + 2)) (compute_squares i (v[i := ?a]), compute_squares i (p[i := ?b]))"
    unfolding covered_step [OF i(1)] by (rule powers_ok_subset) auto
  then show ?thesis using 1 2 by (simp add: repeated_step_def Let_def outs)
qed

lemma repeated_loop_powers:
  assumes "\<And>i e. oblivious_transfer (ots i e)" and "digest_ok digest"
    and "powers_ok (Gf in_v + Gf in_p) (covered i) outs" "even i" "0 < i"
  shows "\<exists>outs'. repeated_loop ots digest rnd in_v in_p (step2 i) outs = Some outs' \<and>
     powers_ok (Gf in_v + Gf in_p) {..<num_powers} outs'"
  using assms(3-)
proof (induction i arbitrary: outs rule: step2.induct)
  case (1 i)
  show ?case
  proof (cases "i < num_powers")
    case True
    then obtain outs' where "repeated_step ots digest rnd in_v in_p i outs = Some outs'"
      "powers_ok (Gf in_v + Gf in_p) (covered (i + 2)) outs'"
      using repeated_step_powers [where ots = ots and rnd = rnd, OF assms(1,2) 1(2,3,4)] by blast
    then show ?thesis using 1(1) [OF True] True 1(3) by (subst step2.simps) simp
  next
    case False
    have "{..<num_powers} \<subseteq> covered i" using covered_below False by fastforce
    then show ?thesis using 1(2) False powers_ok_subset by (subst step2.simps) auto
  qed
qed

lemma generate_shares_repeated_powers:
  assumes "\<And>i e. oblivious_transfer (ots i e)" and "digest_ok digest"
  shows "\<exists>outs. generate_shares_repeated ots digest rnd in_v in_p = Some outs \<and>
     powers_ok (Gf in_v + Gf in_p) {..<num_powers} outs"
proof -
  have "covered 2 = covered 0 \<union> doublings 0" using covered_step [of 0] by (simp only: add_0 even_zero)
  moreover have "covered 0 = {}" by (simp add: covered_def)
  ultimately have "covered 2 \<subseteq> {0} \<union> doublings 0" by blast
  then have "powers_ok (Gf in_v + Gf in_p) (covered 2)
      (compute_squares 0 (init_shares in_v), compute_squares 0 (init_shares in_p))"
    using compute_squares_powers [OF init_powers [OF refl]] powers_ok_subset by blast
  from repeated_loop_powers [OF assms this] show ?thesis by (simp add: generate_shares_repeated_def)
qed

section \<open>The batched protocol\<close>

text \<open>A row in closed form: one set choice bit of the row clears \<open>rhs\<close>, which was the sender's value.\<close>

lemma check_row_eq:
  "check_row r t_b chi beta i =
     (foldl (XOR) (r ! (2 * i + 1))
        (map (\<lambda>j. mul (fst chi ! i) (fst t_b ! (i * gadget_elements + j)) XOR
                  mul (snd chi ! i) (snd t_b ! (i * gadget_elements + j))) [0..<l_mults]),
      if \<exists>j < l_mults. beta ! (i * gadget_elements + j) then 0 else r ! (2 * i))"
proof -
  have fold: "foldl (\<lambda>(tmp, rhs) j. (tmp XOR f j, if c j then rhs XOR rhs else rhs)) (x, y) js =
      (foldl (XOR) x (map f js), if \<exists>j \<in> set js. c j then 0 else y)" for f c x y and js :: "nat list"
    by (induction js arbitrary: x y) auto
  show ?thesis unfolding check_row_def fold by (simp add: Bex_def)
qed

lemma check_consistency_batched_iff:
  "check_consistency_batched r t_b chi beta \<longleftrightarrow>
     (\<forall>i < gadget_elements. fst (check_row r t_b chi beta i) \<noteq> snd (check_row r t_b chi beta i))"
proof -
  have "foldl (\<lambda>c i. let (tmp, rhs) = check_row r t_b chi beta i in if cmpBlock [tmp] [rhs] 1 then False else c) b xs
      \<longleftrightarrow> b \<and> (\<forall>i \<in> set xs. fst (check_row r t_b chi beta i) \<noteq> snd (check_row r t_b chi beta i))" for b xs
  proof (induction xs arbitrary: b)
    case (Cons i xs)
    then show ?case
      by (simp add: Let_def case_prod_unfold cmpBlock_1 del: One_nat_def cmpBlock.simps)
  qed simp
  from this [of True "[0..<gadget_elements]"] show ?thesis
    unfolding check_consistency_batched_def
    by (simp add: Ball_def del: One_nat_def cmpBlock.simps)
qed

lemma length_produce_alpha: "length (produce_alpha a_tilde a_hat) = length a_tilde * 768"
  by (simp add: produce_alpha_def length_concat sizes o_def sum_list_triv)

lemma produce_alpha_nth:
  assumes "m < length a_tilde * 384"
  shows "produce_alpha a_tilde a_hat ! (2 * m + of_bool e) = (if e then a_hat else a_tilde) ! (m div 384)"
proof -
  let ?i = "2 * m + of_bool e :: nat"
  have "?i div 2 = m" "?i mod 2 = of_bool e" by (cases e; simp)+
  then have "?i div 768 = m div 384" "?i mod 768 = 2 * (m mod 384) + of_bool e"
    using div_mult2_eq [of ?i 2 384] mod_mult2_eq [of ?i 2 384] by simp_all
  moreover have "?i < length a_tilde * 768" using assms by (cases e) auto
  moreover have "m div 384 < length a_tilde" using assms by (simp add: div_less_iff_less_mult)
  ultimately show ?thesis
    unfolding produce_alpha_def
    by (subst concat_nth [where n = 768]) (auto simp: sizes concat_pairs_nth)
qed

lemma Gf_produce_b:
  assumes "length gadget = 384" and "i < 544" and "3 * i \<le> length beta"
  shows "Gf (produce_b gadget beta ! i) = (\<Sum>j<384. if choice beta (i * 384 + j) then Gf (gadget ! j) else 0)"
proof -
  have "(i * 384 + j) div 128 = 3 * i + j div 128" "(i * 384 + j) mod 128 = j mod 128" for j
    using div_mult_self1 [of 128 j "3 * i"] mod_mult_self1 [of j "3 * i" 128] by (simp_all add: ac_simps)
  then show ?thesis
    using assms by (simp add: produce_b_def sizes Gf_dot_product choice_def)
qed

lemma Gf_compute_share_of:
  "Gf (compute_share_of gadget_r my_in other_in i t) =
     (\<Sum>j<384. Gf (t ! (i * 384 + j)) * Gf (gadget_r ! j)) + Gf my_in * Gf other_in"
  by (simp add: compute_share_of_def sizes Gf_xor Gf_foldl_xor Gf_0 Gf_mul
      interv_sum_list_conv_sum_set_nat atLeast0LessThan)

lemma batched_share_sum:
  assumes "\<And>j. j < 384 \<Longrightarrow> t_b ! (i * 384 + j) = t_a ! (i * 384 + j) XOR (if c j then a else 0)"
    and "Gf b = (\<Sum>j<384. if c j then Gf (gadget_r ! j) else 0)"
  shows "Gf (compute_share_of gadget_r x (y XOR b) i t_a) +
     Gf (compute_share_of gadget_r b (x XOR a) i t_b) = Gf x * Gf y"
proof -
  have "Gf (t_b ! (i * 384 + j)) * Gf (gadget_r ! j) =
      Gf (t_a ! (i * 384 + j)) * Gf (gadget_r ! j) + Gf a * (if c j then Gf (gadget_r ! j) else 0)"
    if "j < 384" for j
    using assms(1) [OF that] by (simp add: Gf_xor Gf_0 distrib_right)
  then have "(\<Sum>j<384. Gf (t_b ! (i * 384 + j)) * Gf (gadget_r ! j)) =
      (\<Sum>j<384. Gf (t_a ! (i * 384 + j)) * Gf (gadget_r ! j)) + Gf a * Gf b"
    by (simp add: sum.distrib sum_distrib_left assms(2))
  then show ?thesis by (simp add: Gf_compute_share_of Gf_xor algebra_simps)
qed

lemma fold_even_updates:
  "length (foldl (\<lambda>out i. out[2 * i := f i (out ! (2 * i))]) out [0..<n]) = length out \<and>
   (2 * i < length out \<longrightarrow>
     foldl (\<lambda>out i. out[2 * i := f i (out ! (2 * i))]) out [0..<n] ! (2 * i) =
       (if i < n then f i (out ! (2 * i)) else out ! (2 * i)))"
proof (induction n)
  case (Suc n)
  then show ?case by (cases "i = n") auto
qed simp

lemma length_foldl_update: "length (foldl (\<lambda>out i. out[g i := f i out]) out xs) = length out"
  by (induction xs arbitrary: out) simp_all

lemma odd_powers_ok:
  "length (odd_powers inp) = num_powers \<and>
     (\<forall>j < num_powers. even j \<longrightarrow> Gf (odd_powers inp ! j) = Gf inp ^ (j + 1))"
proof -
  let ?f = "\<lambda>(tmp, out) i. let tmp = mul (mul inp inp) tmp in (tmp, out[i := tmp])"
  have "length (snd (foldl ?f (tmp, out) (step2 i))) = num_powers \<and>
      (\<forall>j < num_powers. even j \<longrightarrow> Gf (snd (foldl ?f (tmp, out) (step2 i)) ! j) = Gf inp ^ (j + 1))"
    if "even i" "0 < i" "Gf tmp = Gf inp ^ (i - 1)" "length out = num_powers"
      "\<forall>j < i. j < num_powers \<longrightarrow> even j \<longrightarrow> Gf (out ! j) = Gf inp ^ (j + 1)" for i tmp out
    using that
  proof (induction i arbitrary: tmp out rule: step2.induct)
    case (1 i)
    show ?case
    proof (cases "i < num_powers")
      case True
      let ?t = "mul (mul inp inp) tmp"
      have "Suc (Suc (i - 1)) = i + 1" using 1(3) by simp
      then have t: "Gf ?t = Gf inp ^ (i + 1)"
        by (simp only: Gf_mul 1(4) mult.assoc power_Suc [symmetric])
      have "Gf (out[i := ?t] ! j) = Gf inp ^ (j + 1)" if "j < i + 2" "j < num_powers" "even j" for j
      proof (cases "j = i")
        case False
        then have "j < i" using that 1(2) by (metis even_Suc less_SucE add_2_eq_Suc')
        then show ?thesis using that 1(6) False by simp
      qed (use t that 1(5) in simp)
      then show ?thesis
        using 1(1) [OF True, of ?t "out[i := ?t]"] 1(2,5) t True by (subst (1 2) step2.simps) (simp add: Let_def)
    next
      case False
      then show ?thesis using 1(5,6) by (subst (1 2) step2.simps) simp
    qed
  qed
  from this [of 2 inp "init_shares inp"] show ?thesis
    using num_powers_pos
    by (auto simp: odd_powers_def Let_def init_shares_def less_Suc_eq numeral_2_eq_2)
qed

lemma all_squares_powers:
  assumes "powers_ok h ({j. even j} \<union> covered i) (v, p)" and "even i"
  shows "powers_ok h {..<num_powers}
     (foldl (\<lambda>out i. compute_squares i out) v (step2 i), foldl (\<lambda>out i. compute_squares i out) p (step2 i))"
  using assms
proof (induction i arbitrary: v p rule: step2.induct)
  case (1 i)
  show ?case
  proof (cases "i < num_powers")
    case True
    have "powers_ok h ({j. even j} \<union> covered (i + 2)) (compute_squares i v, compute_squares i p)"
      using compute_squares_powers [OF 1(2), of i] 1(3)
      unfolding covered_step [OF 1(3)] by (simp add: Un_assoc)
    from 1(1) [OF True this] show ?thesis using True 1(3) by (subst (1 2) step2.simps) simp
  next
    case False
    have "{..<num_powers} \<subseteq> {j. even j} \<union> covered i" using covered_below False by fastforce
    then show ?thesis using 1(2) False powers_ok_subset by (subst (1 2) step2.simps) auto
  qed
qed

text \<open>The transferred array of the receiver, and the receiver's verdict on a batch.\<close>

definition batch_t_b :: "batched_rand \<Rightarrow> block list \<times> block list" where
  "batch_t_b rnd =
     (let pairs = prepare_batched_pairs (produce_alpha (generate_a (br_a_tilde rnd)) (generate_a (br_a_hat rnd)))
            (generate_batched_pads (br_pads rnd))
      in split_halves (number_of_batched_ots div 2)
           (ot_select (fst pairs) (snd pairs) (get_choice_bits (generate_beta (br_beta rnd)))))"

definition batch_consistent :: "batched_rand \<Rightarrow> bool" where
  "batch_consistent rnd =
     (let a_tilde = generate_a (br_a_tilde rnd);
          a_hat = generate_a (br_a_hat rnd);
          t_a = get_sender_batched_out (generate_batched_pads (br_pads rnd));
          chi = (generate_a (br_chi rnd), generate_a (br_chi_hat rnd))
      in check_consistency_batched (prove_consistency_batched a_tilde a_hat t_a chi) (batch_t_b rnd) chi
           (get_choice_bits (generate_beta (br_beta rnd))))"

lemma batch_lengths:
  "length (generate_a f) = 544" "length (generate_beta f) = 1632" "length (generate_gadget_r f) = 384"
  "length (generate_batched_pads f) = 417792"
  by (simp_all add: generate_a_def generate_beta_def generate_gadget_r_def generate_batched_pads_def sizes)

lemma batch_t_b_nth:
  assumes "m < 208896"
  shows "fst (batch_t_b rnd) ! m = fst (get_sender_batched_out (generate_batched_pads (br_pads rnd))) ! m XOR
     (if choice (generate_beta (br_beta rnd)) m then generate_a (br_a_tilde rnd) ! (m div 384) else 0)"
proof -
  have "get_choice_bits (generate_beta (br_beta rnd)) ! (2 * m) = choice (generate_beta (br_beta rnd)) m"
    using get_choice_bits_nth [of m _ False] assms by (simp add: batch_lengths)
  moreover have "produce_alpha (generate_a (br_a_tilde rnd)) (generate_a (br_a_hat rnd)) ! (2 * m) =
      generate_a (br_a_tilde rnd) ! (m div 384)"
    using produce_alpha_nth [of m _ _ False] assms by (simp add: batch_lengths)
  ultimately show ?thesis using assms
    by (simp add: batch_t_b_def Let_def sizes get_sender_batched_out_def prepare_batched_pairs_def
        ot_select_def length_get_choice_bits batch_lengths ac_simps)
qed

lemma batched_shares:
  fixes rnd in_v in_p
  defines "gadget \<equiv> generate_gadget_r (br_gadget rnd)"
  defines "b \<equiv> produce_b gadget (generate_beta (br_beta rnd))"
  defines "v \<equiv> sender_mult_shares gadget (fst (get_sender_batched_out (generate_batched_pads (br_pads rnd))))
     (masked_powers (odd_powers in_p) b) (odd_powers in_v)"
  defines "p \<equiv> receiver_mult_shares gadget b (fst (batch_t_b rnd))
     (masked_powers (odd_powers in_v) (generate_a (br_a_tilde rnd))) (odd_powers in_p)"
  shows "powers_ok (Gf in_v * Gf in_p) {j. even j} (v, p)"
proof -
  let ?t_a = "fst (get_sender_batched_out (generate_batched_pads (br_pads rnd)))"
  let ?a = "generate_a (br_a_tilde rnd)" and ?beta = "generate_beta (br_beta rnd)"
  have len: "length (odd_powers x) = num_powers" for x using odd_powers_ok by simp
  have "Gf (v ! (2 * i)) + Gf (p ! (2 * i)) = (Gf in_v * Gf in_p) ^ (2 * i + 1)" if "2 * i < num_powers" for i
  proof -
    have i: "i < 544" using that by (simp add: sizes)
    have div: "(i * 384 + j) div 384 = i" if "j < 384" for j using that by simp
    have t: "fst (batch_t_b rnd) ! (i * 384 + j) = ?t_a ! (i * 384 + j) XOR
        (if choice ?beta (i * 384 + j) then ?a ! i else 0)" if "j < 384" for j
      using batch_t_b_nth [of "i * 384 + j" rnd] that i div [OF that] by simp
    have "v ! (2 * i) = compute_share_of gadget (odd_powers in_v ! (2 * i)) (odd_powers in_p ! (2 * i) XOR b ! i) i ?t_a"
      using that i fold_even_updates [of "\<lambda>i x. compute_share_of gadget x
          (masked_powers (odd_powers in_p) b ! i) i ?t_a" "odd_powers in_v" l_mults i] len
      by (simp add: v_def sender_mult_shares_def masked_powers_def sizes(2))
    moreover have "p ! (2 * i) = compute_share_of gadget (b ! i) (odd_powers in_v ! (2 * i) XOR ?a ! i) i (fst (batch_t_b rnd))"
      using that i fold_even_updates [of "\<lambda>i x. compute_share_of gadget (b ! i)
          (masked_powers (odd_powers in_v) ?a ! i) i (fst (batch_t_b rnd))" "odd_powers in_p" l_mults i] len
      by (simp add: p_def receiver_mult_shares_def masked_powers_def sizes(2))
    moreover have "Gf (b ! i) = (\<Sum>j<384. if choice ?beta (i * 384 + j) then Gf (gadget ! j) else 0)"
      unfolding b_def using i by (intro Gf_produce_b) (simp_all add: gadget_def batch_lengths)
    ultimately have "Gf (v ! (2 * i)) + Gf (p ! (2 * i)) = Gf (odd_powers in_v ! (2 * i)) * Gf (odd_powers in_p ! (2 * i))"
      using batched_share_sum [where t_a = ?t_a and c = "\<lambda>j. choice ?beta (i * 384 + j)", OF t] by simp
    then show ?thesis using odd_powers_ok [of in_v] odd_powers_ok [of in_p] that
      by (simp add: power_mult_distrib)
  qed
  moreover have "length v = num_powers" "length p = num_powers"
    by (simp_all add: v_def p_def sender_mult_shares_def receiver_mult_shares_def length_foldl_update len)
  ultimately show ?thesis by (auto simp: powers_ok_def elim!: evenE)
qed

context oblivious_transfer
begin

lemma generate_shares_batched_powers:
  "case generate_shares_batched ot rnd in_v in_p of
     None \<Rightarrow> \<not> batch_consistent rnd
   | Some outs \<Rightarrow> batch_consistent rnd \<and> powers_ok (Gf in_v * Gf in_p) {..<num_powers} outs"
proof -
  let ?pads = "generate_batched_pads (br_pads rnd)" and ?beta = "generate_beta (br_beta rnd)"
  let ?pairs = "prepare_batched_pairs (produce_alpha (generate_a (br_a_tilde rnd)) (generate_a (br_a_hat rnd))) ?pads"
  have "play_batched_receiver ot ?pairs (get_choice_bits ?beta) = Some (batch_t_b rnd)"
    by (simp add: play_batched_receiver_def ot_selects prepare_batched_pairs_def length_get_choice_bits
        batch_lengths batch_t_b_def)
  moreover have "powers_ok (Gf in_v * Gf in_p) ({j. even j} \<union> covered 0) x =
      powers_ok (Gf in_v * Gf in_p) {j. even j} x" for x
    by (simp add: covered_def)
  ultimately show ?thesis
    using all_squares_powers [of "Gf in_v * Gf in_p" 0] batched_shares [of in_v in_p rnd]
    by (cases "batch_consistent rnd")
       (simp_all add: generate_shares_batched_def batch_consistent_def all_squares_def Let_def check_simps)
qed

end

lemma powers_ok_list:
  assumes "powers_ok h {..<num_powers} (v, p)"
  shows "map2 (XOR) v p = map (\<lambda>i. ungf (h ^ (i + 1))) [0..<num_powers]"
proof (rule nth_equalityI)
  fix i
  assume "i < length (map2 (XOR) v p)"
  then have i: "i < num_powers" "i < length v" "i < length p" using assms by (simp_all add: powers_ok_def)
  then have "Gf (v ! i XOR p ! i) = h ^ (i + 1)" using assms unfolding powers_ok_def Gf_xor by simp
  then have "ungf (h ^ (i + 1)) = v ! i XOR p ! i" by (metis gf.sel)
  then show "map2 (XOR) v p ! i = map (\<lambda>i. ungf (h ^ (i + 1))) [0..<num_powers] ! i" using i by simp
qed (use assms in \<open>simp add: powers_ok_def\<close>)

section \<open>A batch the receiver accepts\<close>

definition plain_batch :: batched_rand where
  "plain_batch = \<lparr>br_gadget = (\<lambda>_. 0), br_beta = (\<lambda>_. 0), br_a_tilde = (\<lambda>_. 1), br_a_hat = (\<lambda>_. 0),
     br_pads = (\<lambda>_. 0), br_chi = (\<lambda>_. 1), br_chi_hat = (\<lambda>_. 0)\<rparr>"

lemma mul_simps: "mul 0 a = 0" "mul a 0 = 0" "mul 1 a = a" "mul a 1 = a"
proof -
  have "Gf (mul 0 a) = Gf 0" "Gf (mul a 0) = Gf 0" "Gf (mul 1 a) = Gf a" "Gf (mul a 1) = Gf a"
    by (simp_all add: Gf_mul Gf_0 Gf_1)
  then show "mul 0 a = 0" "mul a 0 = 0" "mul 1 a = a" "mul a 1 = a" by simp_all
qed

lemma foldl_constant:
  "(\<And>j. j \<in> set xs \<Longrightarrow> f s j = s) \<Longrightarrow> foldl f s xs = s"
  by (induction xs) simp_all

lemma choice_bits_zero: "n < 417792 \<Longrightarrow> \<not> get_choice_bits (generate_beta (\<lambda>_. 0)) ! n"
proof -
  assume n: "n < 417792"
  have "get_choice_bits (generate_beta (\<lambda>_. 0)) ! (2 * (n div 2) + of_bool (odd n)) = choice (generate_beta (\<lambda>_. 0)) (n div 2)"
    using n by (intro get_choice_bits_nth) (simp add: batch_lengths)
  moreover have "2 * (n div 2) + of_bool (odd n) = n" by (cases "odd n") auto
  moreover have "\<not> choice (generate_beta (\<lambda>_. 0)) (n div 2)"
    using n by (simp add: choice_def generate_beta_def sizes div_less_iff_less_mult)
  ultimately show ?thesis by simp
qed

lemma plain_batch_consistent: "batch_consistent plain_batch"
proof -
  let ?a = "generate_a (\<lambda>_. 1)" and ?z = "generate_a (\<lambda>_. 0)"
  let ?t_a = "get_sender_batched_out (generate_batched_pads (\<lambda>_. 0))"
  let ?r = "prove_consistency_batched ?a ?z ?t_a (?a, ?z)"
  let ?beta = "get_choice_bits (generate_beta (\<lambda>_. 0))"
  have t_a: "fst ?t_a ! m = 0" if "m < 208896" for m
    using that by (simp add: get_sender_batched_out_def generate_batched_pads_def sizes)
  have t_b: "fst (batch_t_b plain_batch) ! m = 0" if m: "m < 208896" for m
  proof -
    have "\<not> choice (generate_beta (\<lambda>_. 0)) m"
      using m by (simp add: choice_def generate_beta_def sizes div_less_iff_less_mult)
    then show ?thesis using batch_t_b_nth [OF m, of plain_batch] t_a [OF m] by (simp add: plain_batch_def)
  qed
  have "fst (check_row ?r (batch_t_b plain_batch) (?a, ?z) ?beta i) = 0 \<and>
      snd (check_row ?r (batch_t_b plain_batch) (?a, ?z) ?beta i) = 1" if i: "i < 384" for i
  proof -
    have a: "?a ! i = 1" "?z ! i = 0" using i by (simp_all add: generate_a_def sizes)
    have r0: "?r ! (2 * i) = 1"
      unfolding prove_consistency_batched_def sizes
      by (subst concat_pairs_nth [where b = False, unfolded of_bool_eq add_0_right]) (use i a in \<open>simp_all add: mul_simps\<close>)
    have "foldl (\<lambda>acc j. acc XOR (mul (?a ! i) (fst ?t_a ! (j * 384 + i)) XOR
        mul (?z ! i) (snd ?t_a ! (j * 384 + i)))) 0 [0..<544] = 0"
      using i by (intro foldl_constant) (simp add: a t_a mul_simps)
    then have r1: "?r ! (2 * i + 1) = 0"
      unfolding prove_consistency_batched_def sizes
      by (subst concat_pairs_nth [where b = True, unfolded of_bool_eq]) (use i in simp_all)
    have "check_row ?r (batch_t_b plain_batch) (?a, ?z) ?beta i = (?r ! (2 * i + 1), ?r ! (2 * i))"
      unfolding check_row_def using i
      by (intro foldl_constant) (simp add: sizes a t_b mul_simps choice_bits_zero)
    then show ?thesis using r0 r1 by simp
  qed
  then show ?thesis
    unfolding batch_consistent_def Let_def check_consistency_batched_iff by (simp add: plain_batch_def sizes)
qed

end
