(* ===== verification/Channel.thy ===== *)
theory Channel
  imports Surf_Prelude
begin

text \<open>
  Byte transport: application data of one TLS direction (SSL_write, SSL_read), the retrying I/O
  loop of Util::process_data, the read/write counters, the heads-and-buffer queue SSLBufferPolicy
  and the length-prefixed framing of EmpWrapper on top of them.  A direction is the plaintext of
  the records in flight plus the unread rest of the current record; record protection itself is
  BoringSSL's.  A call that would return a non-positive count is None.
\<close>

section \<open>Application data of one direction\<close>

definition SSL3_RT_MAX_PLAIN_LENGTH :: nat where
  "SSL3_RT_MAX_PLAIN_LENGTH = 16384"

record ssl =
  pending_app_data :: bytes
  incoming :: "bytes list"

text \<open>The write loop cuts the input into records; an empty input produces none.\<close>

function tls_fragments :: "bytes \<Rightarrow> bytes list" where
  "tls_fragments bs =
     (if bs = [] then []
      else if length bs \<le> SSL3_RT_MAX_PLAIN_LENGTH then [bs]
      else take SSL3_RT_MAX_PLAIN_LENGTH bs # tls_fragments (drop SSL3_RT_MAX_PLAIN_LENGTH bs))"
  by pat_completeness auto
termination
  by (relation "measure length") (auto simp: SSL3_RT_MAX_PLAIN_LENGTH_def)

declare tls_fragments.simps [simp del]

definition SSL_write :: "bytes \<Rightarrow> ssl \<Rightarrow> ssl" where
  "SSL_write bs s = s\<lparr>incoming := incoming s @ tls_fragments bs\<rparr>"

fun ssl_read_impl :: "bytes \<Rightarrow> bytes list \<Rightarrow> (bytes \<times> bytes list) option" where
  "ssl_read_impl (b # bs) rs = Some (b # bs, rs)"
| "ssl_read_impl [] [] = None"
| "ssl_read_impl [] (r # rs) = ssl_read_impl r rs"

definition SSL_peek :: "nat \<Rightarrow> ssl \<Rightarrow> (bytes \<times> ssl) option" where
  "SSL_peek num s = do {
     (p, rs) \<leftarrow> ssl_read_impl (pending_app_data s) (incoming s);
     check (num \<noteq> 0);
     Some (take num p, \<lparr>pending_app_data = p, incoming = rs\<rparr>) }"

definition SSL_read :: "nat \<Rightarrow> ssl \<Rightarrow> (bytes \<times> ssl) option" where
  "SSL_read num s = do {
     (bs, s') \<leftarrow> SSL_peek num s;
     Some (bs, s'\<lparr>pending_app_data := drop (length bs) (pending_app_data s')\<rparr>) }"

definition ssl_content :: "ssl \<Rightarrow> bytes" where
  "ssl_content s = pending_app_data s @ concat (incoming s)"

lemma concat_tls_fragments [simp, codec_simps]: "concat (tls_fragments bs) = bs"
proof (induction bs rule: tls_fragments.induct)
  case (1 bs)
  then show ?case by (subst tls_fragments.simps) simp
qed

lemma content_SSL_write [simp]: "ssl_content (SSL_write bs s) = ssl_content s @ bs"
  by (simp add: ssl_content_def SSL_write_def)

lemma ssl_read_impl_None: "ssl_read_impl p rs = None \<longleftrightarrow> p @ concat rs = []"
  by (induction p rs rule: ssl_read_impl.induct) auto

lemma ssl_read_impl_Some:
  "ssl_read_impl p rs = Some (p', rs') \<Longrightarrow> p' \<noteq> [] \<and> p' @ concat rs' = p @ concat rs"
  by (induction p rs rule: ssl_read_impl.induct) auto

lemma SSL_read_Some:
  assumes "SSL_read n s = Some (bs, s')"
  shows "0 < length bs \<and> length bs \<le> n \<and> ssl_content s = bs @ ssl_content s'"
proof -
  from assms obtain p rs where 1: "ssl_read_impl (pending_app_data s) (incoming s) = Some (p, rs)"
      "n \<noteq> 0" "bs = take n p" "s' = \<lparr>pending_app_data = drop (length bs) p, incoming = rs\<rparr>"
    by (auto simp: SSL_read_def SSL_peek_def result_simps)
  have "ssl_content s = p @ concat rs" "p \<noteq> []"
    using ssl_read_impl_Some [OF 1(1)] by (simp_all add: ssl_content_def)
  moreover have "drop (length bs) p = drop n p" using 1(3) by (simp add: min_def)
  ultimately show ?thesis using 1 by (simp add: ssl_content_def)
qed

lemma SSL_read_None: "SSL_read n s = None \<longleftrightarrow> n = 0 \<or> ssl_content s = []"
  using ssl_read_impl_None [of "pending_app_data s" "incoming s"]
  by (auto simp: SSL_read_def SSL_peek_def check_def ssl_content_def split: option.splits
      Option.bind_splits)

section \<open>The loop that reads a whole message\<close>

text \<open>The read loop of the multiplication protocol: read until the requested count has arrived;
  a failed read ends it.\<close>

function ssl_read_loop :: "nat \<Rightarrow> ssl \<Rightarrow> bytes \<Rightarrow> (bytes \<times> ssl) option" where
  "ssl_read_loop n s acc =
     (if n = 0 then Some (acc, s)
      else case SSL_read n s of
             None \<Rightarrow> None
           | Some (bs, s') \<Rightarrow> ssl_read_loop (n - length bs) s' (acc @ bs))"
  by pat_completeness auto
termination
  by (relation "measure (\<lambda>(n, s, acc). n)") (auto dest: SSL_read_Some)

declare ssl_read_loop.simps [simp del]

lemma ssl_read_loop_enough:
  "n \<le> length (ssl_content s) \<Longrightarrow>
     \<exists>s'. ssl_read_loop n s acc = Some (acc @ take n (ssl_content s), s') \<and>
          ssl_content s' = drop n (ssl_content s)"
proof (induction n s acc rule: ssl_read_loop.induct)
  case (1 n s acc)
  show ?case
  proof (cases "n = 0")
    case True
    then show ?thesis by (simp add: ssl_read_loop.simps)
  next
    case False
    with 1(2) have "SSL_read n s \<noteq> None" by (auto simp: SSL_read_None)
    then obtain bs s' where r: "SSL_read n s = Some (bs, s')" by fastforce
    note f = SSL_read_Some [OF r]
    then have "n - length bs \<le> length (ssl_content s')" using 1(2) by auto
    with 1(1) [OF False r refl] f False r show ?thesis
      by (subst ssl_read_loop.simps) (auto simp: take_append)
  qed
qed

lemma ssl_read_loop_short:
  "length (ssl_content s) < n \<Longrightarrow> ssl_read_loop n s acc = None"
proof (induction n s acc rule: ssl_read_loop.induct)
  case (1 n s acc)
  show ?case
  proof (cases "SSL_read n s")
    case None
    then show ?thesis using 1(2) by (simp add: ssl_read_loop.simps)
  next
    case (Some r)
    then obtain bs s' where r: "SSL_read n s = Some (bs, s')" by (cases r) auto
    moreover have "length (ssl_content s') < n - length bs" using SSL_read_Some [OF r] 1(2) by auto
    ultimately show ?thesis using 1(1) [OF _ r refl] 1(2) by (simp add: ssl_read_loop.simps [of n])
  qed
qed

text \<open>A message that was written alone is read without touching what follows it.\<close>

lemma ssl_read_loop_fragments:
  "n = length (p @ concat rs) \<Longrightarrow> \<forall>r \<in> set rs. r \<noteq> [] \<Longrightarrow>
     ssl_read_loop n \<lparr>pending_app_data = p, incoming = rs @ rest\<rparr> acc =
       Some (acc @ p @ concat rs, \<lparr>pending_app_data = [], incoming = rest\<rparr>)"
proof (induction rs arbitrary: n p acc)
  case Nil
  show ?case
  proof (cases p)
    case Nil
    with Nil.prems show ?thesis by (simp add: ssl_read_loop.simps)
  next
    case (Cons b bs)
    with Nil.prems show ?thesis
      by (simp add: ssl_read_loop.simps [of "Suc (length bs)"] ssl_read_loop.simps [of 0]
          SSL_read_def SSL_peek_def)
  qed
next
  case (Cons r rs)
  obtain c cs where r: "r = c # cs" using Cons.prems by (cases r) auto
  have step: "ssl_read_loop (length (r @ concat rs)) \<lparr>pending_app_data = [], incoming = r # rs @ rest\<rparr> acc' =
      Some (acc' @ r @ concat rs, \<lparr>pending_app_data = [], incoming = rest\<rparr>)" for acc'
    using Cons.IH [of "length (concat rs)" "[]" "acc' @ r"] Cons.prems r
    by (simp add: ssl_read_loop.simps [of "Suc (length cs + length (concat rs))"] SSL_read_def SSL_peek_def)
  show ?case
  proof (cases p)
    case Nil
    then show ?thesis using step Cons.prems by simp
  next
    case (Cons b bs)
    then show ?thesis using step [of "acc @ p"] Cons.prems
      by (subst ssl_read_loop.simps) (simp add: SSL_read_def SSL_peek_def)
  qed
qed

lemma tls_fragments_nonempty: "r \<in> set (tls_fragments bs) \<Longrightarrow> r \<noteq> []"
proof (induction bs rule: tls_fragments.induct)
  case (1 bs)
  then show ?case by (subst (asm) tls_fragments.simps) (auto split: if_splits
    simp: SSL3_RT_MAX_PLAIN_LENGTH_def)
qed

lemma ssl_read_loop_message:
  "ssl_read_loop (length m) \<lparr>pending_app_data = [], incoming = tls_fragments m @ rest\<rparr> [] =
     Some (m, \<lparr>pending_app_data = [], incoming = rest\<rparr>)"
  using ssl_read_loop_fragments [of "length m" "[]" "tls_fragments m"] tls_fragments_nonempty by simp

lemma SSL_read_single_record:
  assumes "m \<noteq> []" "length m \<le> SSL3_RT_MAX_PLAIN_LENGTH"
  shows "SSL_read (length m) \<lparr>pending_app_data = [], incoming = tls_fragments m @ rest\<rparr> =
     Some (m, \<lparr>pending_app_data = [], incoming = rest\<rparr>)"
  using assms by (cases m) (simp_all add: tls_fragments.simps SSL_read_def SSL_peek_def)

section \<open>Util::process\_data\<close>

text \<open>One attempt of the loop ends in one of three ways: the operation makes progress, it reports
  that it would block and poll then succeeds or fails, or it fails for good.  \<open>ev i\<close> is the
  outcome of attempt \<open>i\<close>.  The inner option is the returned bool; the outer one is None when the
  loop never returns.\<close>

datatype io_event = Ready | Want bool | Fatal

partial_function (option) process_data_read ::
  "(nat \<Rightarrow> io_event) \<Rightarrow> nat \<Rightarrow> nat \<Rightarrow> ssl \<Rightarrow> bytes \<Rightarrow> (bytes \<times> ssl) option option" where
  "process_data_read ev i n s acc =
     (if n = 0 then Some (Some (acc, s))
      else case ev i of
             Fatal \<Rightarrow> Some None
           | Want polled \<Rightarrow> if polled then process_data_read ev (Suc i) n s acc else Some None
           | Ready \<Rightarrow>
               (case SSL_read (min SSL3_RT_MAX_PLAIN_LENGTH n) s of
                  None \<Rightarrow> Some None
                | Some (bs, s') \<Rightarrow>
                    process_data_read ev (Suc i) (n - length bs) s' (acc @ bs)))"

partial_function (option) process_data_write ::
  "(nat \<Rightarrow> io_event) \<Rightarrow> nat \<Rightarrow> bytes \<Rightarrow> ssl \<Rightarrow> ssl option option" where
  "process_data_write ev i bs s =
     (if bs = [] then Some (Some s)
      else case ev i of
             Fatal \<Rightarrow> Some None
           | Want polled \<Rightarrow> if polled then process_data_write ev (Suc i) bs s else Some None
           | Ready \<Rightarrow>
               process_data_write ev (Suc i) (drop SSL3_RT_MAX_PLAIN_LENGTH bs)
                 (SSL_write (take SSL3_RT_MAX_PLAIN_LENGTH bs) s))"

text \<open>Transient failures that poll resolves, with progress again and again.\<close>

definition fair :: "(nat \<Rightarrow> io_event) \<Rightarrow> bool" where
  "fair ev \<longleftrightarrow> (\<forall>i. ev i = Ready \<or> ev i = Want True) \<and> (\<forall>i. \<exists>j \<ge> i. ev j = Ready)"

lemma fair_const [simp]: "fair (\<lambda>_. Ready)"
  by (auto simp: fair_def)

lemma fair_next_ready:
  assumes "fair ev"
  obtains j where "i \<le> j" "ev j = Ready" "\<forall>k. i \<le> k \<and> k < j \<longrightarrow> ev k = Want True"
proof -
  define j where "j = (LEAST j. i \<le> j \<and> ev j = Ready)"
  have "\<exists>j. i \<le> j \<and> ev j = Ready" using assms by (auto simp: fair_def)
  then have j: "i \<le> j" "ev j = Ready" unfolding j_def by (metis (mono_tags, lifting) LeastI)+
  moreover have "ev k = Want True" if "i \<le> k" "k < j" for k
    using not_less_Least [of k "\<lambda>j. i \<le> j \<and> ev j = Ready"] that assms
    by (auto simp: j_def fair_def)
  ultimately show ?thesis using that by blast
qed

lemma process_data_read_waits:
  "\<forall>k. i \<le> k \<and> k < i + d \<longrightarrow> ev k = Want True \<Longrightarrow> 0 < n \<Longrightarrow>
     process_data_read ev i n s acc = process_data_read ev (i + d) n s acc"
proof (induction d arbitrary: i)
  case (Suc d)
  then have "ev i = Want True" by simp
  then have "process_data_read ev i n s acc = process_data_read ev (Suc i) n s acc"
    using Suc.prems by (subst process_data_read.simps) simp
  with Suc.IH [of "Suc i"] Suc.prems show ?case by simp
qed simp

lemma process_data_write_waits:
  "\<forall>k. i \<le> k \<and> k < i + d \<longrightarrow> ev k = Want True \<Longrightarrow> bs \<noteq> [] \<Longrightarrow>
     process_data_write ev i bs s = process_data_write ev (i + d) bs s"
proof (induction d arbitrary: i)
  case (Suc d)
  then have "ev i = Want True" by simp
  then have "process_data_write ev i bs s = process_data_write ev (Suc i) bs s"
    using Suc.prems by (subst process_data_write.simps) simp
  with Suc.IH [of "Suc i"] Suc.prems show ?case by simp
qed simp

lemma process_data_read_complete:
  assumes "fair ev"
  shows "n \<le> length (ssl_content s) \<Longrightarrow>
     \<exists>s'. process_data_read ev i n s acc = Some (Some (acc @ take n (ssl_content s), s')) \<and>
          ssl_content s' = drop n (ssl_content s)"
proof (induction n arbitrary: i s acc rule: less_induct)
  case (less n)
  show ?case
  proof (cases "n = 0")
    case True
    then show ?thesis by (simp add: process_data_read.simps)
  next
    case False
    obtain j where j: "i \<le> j" "ev j = Ready" "\<forall>k. i \<le> k \<and> k < j \<longrightarrow> ev k = Want True"
      using fair_next_ready [OF assms] .
    have skip: "process_data_read ev i n s acc = process_data_read ev j n s acc"
      using process_data_read_waits [of i "j - i" ev n s acc] j False by simp
    let ?m = "min SSL3_RT_MAX_PLAIN_LENGTH n"
    have "SSL_read ?m s \<noteq> None"
      using False less.prems by (auto simp: SSL_read_None SSL3_RT_MAX_PLAIN_LENGTH_def)
    then obtain bs s' where r: "SSL_read ?m s = Some (bs, s')" by fastforce
    note f = SSL_read_Some [OF r]
    have "n - length bs < n" "n - length bs \<le> length (ssl_content s')" "length bs \<le> n"
      using f less.prems False by auto
    with less.IH [of "n - length bs" s' "Suc j" "acc @ bs"] f skip j(2) r False show ?thesis
      by (subst (asm) process_data_read.simps [of ev j]) auto
  qed
qed

lemma process_data_write_complete:
  assumes "fair ev"
  shows "\<exists>s'. process_data_write ev i bs s = Some (Some s') \<and>
     pending_app_data s' = pending_app_data s \<and>
     incoming s' = incoming s @ tls_fragments bs"
proof (induction bs arbitrary: i s rule: tls_fragments.induct)
  case (1 bs)
  show ?case
  proof (cases "bs = []")
    case True
    then show ?thesis by (simp add: process_data_write.simps tls_fragments.simps)
  next
    case False
    let ?M = SSL3_RT_MAX_PLAIN_LENGTH
    obtain j where j: "i \<le> j" "ev j = Ready" "\<forall>k. i \<le> k \<and> k < j \<longrightarrow> ev k = Want True"
      using fair_next_ready [OF assms] .
    have step: "process_data_write ev i bs s =
        process_data_write ev (Suc j) (drop ?M bs) (SSL_write (take ?M bs) s)"
      using process_data_write_waits [of i "j - i" ev bs s] j False
        process_data_write.simps [of ev j bs s] by simp
    have one: "tls_fragments (take ?M bs) = [take ?M bs]"
      using False by (simp add: tls_fragments.simps SSL3_RT_MAX_PLAIN_LENGTH_def)
    show ?thesis
    proof (cases "length bs \<le> ?M")
      case True
      with step one False show ?thesis
        by (simp add: process_data_write.simps SSL_write_def tls_fragments.simps [of bs])
    next
      case long: False
      then have "tls_fragments bs = take ?M bs # tls_fragments (drop ?M bs)"
        using False by (simp add: tls_fragments.simps [of bs])
      with 1 [OF False long, of "Suc j" "SSL_write (take ?M bs) s"] step one show ?thesis
        by (simp add: SSL_write_def)
    qed
  qed
qed

lemma process_data_read_short:
  assumes "fair ev"
  shows "length (ssl_content s) < n \<Longrightarrow> process_data_read ev i n s acc = Some None"
proof (induction n arbitrary: i s acc rule: less_induct)
  case (less n)
  obtain j where j: "i \<le> j" "ev j = Ready" "\<forall>k. i \<le> k \<and> k < j \<longrightarrow> ev k = Want True"
    using fair_next_ready [OF assms] .
  have skip: "process_data_read ev i n s acc = process_data_read ev j n s acc"
    using process_data_read_waits [of i "j - i" ev n s acc] j less.prems by simp
  let ?m = "min SSL3_RT_MAX_PLAIN_LENGTH n"
  show ?case
  proof (cases "SSL_read ?m s")
    case None
    then show ?thesis using skip j(2) less.prems by (subst (asm) process_data_read.simps [of ev j]) simp
  next
    case (Some r)
    then obtain bs s' where r: "SSL_read ?m s = Some (bs, s')" by (cases r) auto
    note f = SSL_read_Some [OF r]
    have "n - length bs < n" "length (ssl_content s') < n - length bs"
      using f less.prems by auto
    with less.IH [of "n - length bs" s' "Suc j" "acc @ bs"] skip j(2) r less.prems show ?thesis
      by (subst (asm) process_data_read.simps [of ev j]) simp
  qed
qed

section \<open>The interface: a byte stream\<close>

text \<open>What the clients of a transport rely on: bytes arrive in order, a receive of \<open>n\<close> bytes ends
  with exactly the next \<open>n\<close> bytes, and fails when fewer were sent.\<close>

locale byte_stream =
  fixes snd_bytes :: "bytes \<Rightarrow> 'c \<Rightarrow> 'c"
    and rcv_bytes :: "nat \<Rightarrow> 'c \<Rightarrow> (bytes \<times> 'c) option"
    and content :: "'c \<Rightarrow> bytes"
  assumes content_snd: "content (snd_bytes m c) = content c @ m"
    and rcv_enough: "n \<le> length (content c) \<Longrightarrow>
      \<exists>c'. rcv_bytes n c = Some (take n (content c), c') \<and> content c' = drop n (content c)"
    and rcv_short: "length (content c) < n \<Longrightarrow> rcv_bytes n c = None"
begin

fun rcv_all :: "nat list \<Rightarrow> 'c \<Rightarrow> (bytes list \<times> 'c) option" where
  "rcv_all [] c = Some ([], c)"
| "rcv_all (n # ns) c =
     (case rcv_bytes n c of
        None \<Rightarrow> None
      | Some (m, c') \<Rightarrow> (case rcv_all ns c' of None \<Rightarrow> None | Some (ms, c'') \<Rightarrow> Some (m # ms, c'')))"

lemma content_fold_snd: "content (fold snd_bytes ms c) = content c @ concat ms"
  by (induction ms arbitrary: c) (simp_all add: content_snd)

lemma rcv_all_content:
  "content c = concat ms @ rest \<Longrightarrow>
     \<exists>c'. rcv_all (map length ms) c = Some (ms, c') \<and> content c' = rest"
proof (induction ms arbitrary: c)
  case (Cons m ms)
  obtain c' where c': "rcv_bytes (length m) c = Some (m, c')" "content c' = concat ms @ rest"
    using rcv_enough [of "length m" c] Cons.prems by auto
  with Cons.IH [OF c'(2)] show ?case by auto
qed simp

lemma messages_in_order:
  "content c = [] \<Longrightarrow> \<exists>c'. rcv_all (map length ms) (fold snd_bytes ms c) = Some (ms, c') \<and> content c' = []"
  using rcv_all_content [of "fold snd_bytes ms c" ms "[]"] by (simp add: content_fold_snd)

end

interpretation ssl_loop: byte_stream SSL_write "\<lambda>n s. ssl_read_loop n s []" ssl_content
  by unfold_locales (simp_all add: ssl_read_loop_enough [where acc = "[]", simplified] ssl_read_loop_short)

text \<open>The two directions of process\_data under a given outcome sequence.\<close>

definition pd_write :: "(nat \<Rightarrow> io_event) \<Rightarrow> bytes \<Rightarrow> ssl \<Rightarrow> ssl" where
  "pd_write ev bs s = (case process_data_write ev 0 bs s of Some (Some s') \<Rightarrow> s' | _ \<Rightarrow> s)"

definition pd_read :: "(nat \<Rightarrow> io_event) \<Rightarrow> nat \<Rightarrow> ssl \<Rightarrow> (bytes \<times> ssl) option" where
  "pd_read ev n s = Option.bind (process_data_read ev 0 n s []) id"

lemma pd_write_fair:
  "fair ev \<Longrightarrow> pd_write ev bs s = s\<lparr>incoming := incoming s @ tls_fragments bs\<rparr>"
  using process_data_write_complete [of ev 0 bs s]
  by (auto simp: pd_write_def intro: ssl.equality)

lemma pd_read_fair_enough:
  "fair ev \<Longrightarrow> n \<le> length (ssl_content s) \<Longrightarrow>
     \<exists>s'. pd_read ev n s = Some (take n (ssl_content s), s') \<and> ssl_content s' = drop n (ssl_content s)"
  using process_data_read_complete [of ev n s 0 "[]"] by (auto simp: pd_read_def)

lemma pd_read_fair_short: "fair ev \<Longrightarrow> length (ssl_content s) < n \<Longrightarrow> pd_read ev n s = None"
  using process_data_read_short [of ev s n 0 "[]"] by (simp add: pd_read_def)

interpretation pd: byte_stream "pd_write (\<lambda>_. Ready)" "pd_read (\<lambda>_. Ready)" ssl_content
  by unfold_locales
     (use pd_read_fair_enough pd_read_fair_short in
       \<open>auto simp: pd_write_fair ssl_content_def\<close>)

end
