(* ===== verification/Codec.thy ===== *)
theory Codec
  imports Channel
begin

text \<open>
  Message headers and the byte codecs between the parties: the header enumeration and the key share
  messages of ssl/Messaging, BoringSSL's big-endian readers and writers as far as they are used, the
  framing of a serialised curve point (ssl/Util.cpp), and the conversions between bytes and bools
  that feed the circuits (ssl/Util.inl).
\<close>

section \<open>Message headers\<close>

datatype MessageHeaders =
    H_COLLECT | H_OK | H_DONE_HS | H_SERVER_KEY_SHARE | H_HS_RECV | H_DO_ECTF | H_ECTF_DONE
  | H_ADVANCE_KS | H_KS_DONE | H_TRANSCRIPT_INIT | H_TRANSCRIPT_INIT_DONE | H_CERTIFICATE_CTX_SEND
  | H_CERTIFICATE_CTX_RECV | H_H6_SEND | H_H6_RECV | H_DERIVE_TS | H_GCM_SHARE_START | H_GCM_SHARE_DONE
  | H_DERIVE_RES | H_RES_DONE | H_DERIVE_PSK | H_PSK_DONE | H_COMMIT | H_COMMIT_TO | H_AES_ENC
  | H_SESSION_CTX_SEND | H_SESSION_CTX_RECV | H_STOP | H_HS_MODE_FULL | H_HS_MODE_RESUMED | H_PSK_SKIP
  | H_RUN_FULL | H_RUN_RESUMED | H_DERIVE_PSK_8 | H_DERIVE_BINDER | H_MASK_COMMITMENTS | H_GCM_VERIFY
  | H_KS_DERIVE | H_GCM_TAG | H_KEY_COMMIT | H_KEY_RELEASE | H_DERIVE_PSK_0 | H_ROTATE_KEY | H_TAG_OK
  | H_TAG_REJECT | H_SIZE

text \<open>The value of an enumerator.  A received header is a byte: the cast of a byte into the
  enumeration does not check that an enumerator has that value.\<close>

primrec header_byte :: "MessageHeaders \<Rightarrow> byte" where
  "header_byte H_COLLECT = 0"
| "header_byte H_OK = 1"
| "header_byte H_DONE_HS = 2"
| "header_byte H_SERVER_KEY_SHARE = 3"
| "header_byte H_HS_RECV = 4"
| "header_byte H_DO_ECTF = 5"
| "header_byte H_ECTF_DONE = 6"
| "header_byte H_ADVANCE_KS = 7"
| "header_byte H_KS_DONE = 8"
| "header_byte H_TRANSCRIPT_INIT = 9"
| "header_byte H_TRANSCRIPT_INIT_DONE = 10"
| "header_byte H_CERTIFICATE_CTX_SEND = 11"
| "header_byte H_CERTIFICATE_CTX_RECV = 12"
| "header_byte H_H6_SEND = 13"
| "header_byte H_H6_RECV = 14"
| "header_byte H_DERIVE_TS = 16"
| "header_byte H_GCM_SHARE_START = 17"
| "header_byte H_GCM_SHARE_DONE = 18"
| "header_byte H_DERIVE_RES = 19"
| "header_byte H_RES_DONE = 20"
| "header_byte H_DERIVE_PSK = 21"
| "header_byte H_PSK_DONE = 22"
| "header_byte H_COMMIT = 23"
| "header_byte H_COMMIT_TO = 24"
| "header_byte H_AES_ENC = 25"
| "header_byte H_SESSION_CTX_SEND = 26"
| "header_byte H_SESSION_CTX_RECV = 27"
| "header_byte H_STOP = 28"
| "header_byte H_HS_MODE_FULL = 29"
| "header_byte H_HS_MODE_RESUMED = 30"
| "header_byte H_PSK_SKIP = 31"
| "header_byte H_RUN_FULL = 32"
| "header_byte H_RUN_RESUMED = 33"
| "header_byte H_DERIVE_PSK_8 = 34"
| "header_byte H_DERIVE_BINDER = 35"
| "header_byte H_MASK_COMMITMENTS = 36"
| "header_byte H_GCM_VERIFY = 37"
| "header_byte H_KS_DERIVE = 38"
| "header_byte H_GCM_TAG = 39"
| "header_byte H_KEY_COMMIT = 40"
| "header_byte H_KEY_RELEASE = 41"
| "header_byte H_DERIVE_PSK_0 = 42"
| "header_byte H_ROTATE_KEY = 43"
| "header_byte H_TAG_OK = 44"
| "header_byte H_TAG_REJECT = 45"
| "header_byte H_SIZE = 46"

definition is_valid_header :: "byte \<Rightarrow> bool" where
  "is_valid_header header \<longleftrightarrow> header < header_byte H_SIZE"

section \<open>Reading and writing big-endian integers\<close>

text \<open>A CBS is the rest of the input; a failed read is None.\<close>

definition cbs_get :: "nat \<Rightarrow> bytes \<Rightarrow> (bytes \<times> bytes) option" where
  "cbs_get n cbs = (if length cbs < n then None else Some (take n cbs, drop n cbs))"

definition cbs_get_u :: "nat \<Rightarrow> bytes \<Rightarrow> (64 word \<times> bytes) option" where
  "cbs_get_u len cbs = do {
     (data, rest) \<leftarrow> cbs_get len cbs;
     Some (foldl (\<lambda>result b. push_bit 8 result OR ucast b) 0 data, rest) }"

definition CBS_get_u8 :: "bytes \<Rightarrow> (byte \<times> bytes) option" where
  "CBS_get_u8 cbs = do { (v, rest) \<leftarrow> cbs_get 1 cbs; Some (v ! 0, rest) }"

definition CBS_get_u16 :: "bytes \<Rightarrow> (16 word \<times> bytes) option" where
  "CBS_get_u16 cbs = do { (v, rest) \<leftarrow> cbs_get_u 2 cbs; Some (ucast v, rest) }"

definition CBS_get_u64 :: "bytes \<Rightarrow> (64 word \<times> bytes) option" where
  "CBS_get_u64 cbs = cbs_get_u 8 cbs"

definition CBS_get_u16_length_prefixed :: "bytes \<Rightarrow> (bytes \<times> bytes) option" where
  "CBS_get_u16_length_prefixed cbs = do {
     (len, rest) \<leftarrow> cbs_get_u 2 cbs;
     cbs_get (unat len) rest }"

text \<open>Writers return the bytes they append; a value or a length that does not fit is an error.\<close>

primrec cbb_be :: "nat \<Rightarrow> 64 word \<Rightarrow> bytes" where
  "cbb_be 0 v = []"
| "cbb_be (Suc n) v = cbb_be n (drop_bit 8 v) @ [ucast v]"

definition cbb_add_u :: "64 word \<Rightarrow> nat \<Rightarrow> bytes option" where
  "cbb_add_u v len_len = do { check (drop_bit (8 * len_len) v = 0); Some (cbb_be len_len v) }"

definition CBB_add_u16 :: "16 word \<Rightarrow> bytes option" where
  "CBB_add_u16 v = cbb_add_u (ucast v) 2"

definition CBB_add_u16_length_prefixed :: "bytes \<Rightarrow> bytes option" where
  "CBB_add_u16_length_prefixed contents = do {
     check (length contents div 2 ^ 16 = 0);
     Some (cbb_be 2 (word_of_nat (length contents)) @ contents) }"

section \<open>Key share messages\<close>

definition pack_key_bytes :: "MessageHeaders \<Rightarrow> bytes \<Rightarrow> bytes option" where
  "pack_key_bytes header key_share_bytes = do {
     check (length key_share_bytes \<noteq> 0 \<and> length key_share_bytes \<le> SSL3_RT_MAX_PLAIN_LENGTH - 1);
     h \<leftarrow> cbb_add_u (ucast (header_byte header)) 1;
     Some (h @ key_share_bytes) }"

definition unpack_key_bytes :: "bytes \<Rightarrow> (byte \<times> bytes) option" where
  "unpack_key_bytes input = do {
     check (length input \<noteq> 0 \<and> length input \<le> SSL3_RT_MAX_PLAIN_LENGTH \<and> 2 \<le> length input);
     (header, rest) \<leftarrow> CBS_get_u8 input;
     check (is_valid_header header);
     (out, rest) \<leftarrow> cbs_get (length input - 1) rest;
     Some (header, out) }"

section \<open>Serialised curve points\<close>

text \<open>The framing of a point: the group, then the point behind a 16-bit length.\<close>

definition initialise_cbb_for_ec_point_data :: "16 word \<Rightarrow> bytes \<Rightarrow> bytes option" where
  "initialise_cbb_for_ec_point_data group_id contents = do {
     g \<leftarrow> CBB_add_u16 group_id;
     c \<leftarrow> CBB_add_u16_length_prefixed contents;
     Some (g @ c) }"

definition deinitialise_cbb_for_ec_point_data :: "bytes \<Rightarrow> (16 word \<times> bytes) option" where
  "deinitialise_cbb_for_ec_point_data input = do {
     (group_id, rest) \<leftarrow> CBS_get_u16 input;
     (out, rest) \<leftarrow> CBS_get_u16_length_prefixed rest;
     check (length rest = 0);
     Some (group_id, out) }"

section \<open>Bits and bytes\<close>

definition convert_bool_to_uint8 :: "bool list \<Rightarrow> bytes" where
  "convert_bool_to_uint8 input =
     map (\<lambda>i. foldl (\<lambda>out j. push_bit 1 (out OR of_bool (input ! (i * 8 + j)))) 0 [0..<8])
       [0..<length input div 8]"

primrec byte_bits :: "nat \<Rightarrow> byte \<Rightarrow> bool list" where
  "byte_bits 0 curr_byte = []"
| "byte_bits (Suc n) curr_byte = (curr_byte AND 1 = 1) # byte_bits n (drop_bit 1 curr_byte)"

definition convert_uint8_to_bool :: "bytes \<Rightarrow> bool list" where
  "convert_uint8_to_bool input = concat (map (byte_bits 8) input)"

text \<open>The conversion back, as the circuit wrapper does it with the outputs of a circuit.\<close>

definition bits_byte :: "bool list \<Rightarrow> byte" where
  "bits_byte bs = foldl (\<lambda>tmp j. tmp + push_bit j (of_bool (bs ! j))) 0 [0..<8]"

fun post_proc :: "nat \<Rightarrow> bool list \<Rightarrow> bytes" where
  "post_proc 0 temp_out = []"
| "post_proc (Suc n) temp_out = bits_byte (take 8 temp_out) # post_proc n (drop 8 temp_out)"

section \<open>Facts\<close>

definition header_table :: "(byte \<times> MessageHeaders) list" where
  "header_table = map (\<lambda>h. (header_byte h, h))
     [H_COLLECT, H_OK, H_DONE_HS, H_SERVER_KEY_SHARE, H_HS_RECV, H_DO_ECTF, H_ECTF_DONE, H_ADVANCE_KS,
      H_KS_DONE, H_TRANSCRIPT_INIT, H_TRANSCRIPT_INIT_DONE, H_CERTIFICATE_CTX_SEND,
      H_CERTIFICATE_CTX_RECV, H_H6_SEND, H_H6_RECV, H_DERIVE_TS, H_GCM_SHARE_START, H_GCM_SHARE_DONE,
      H_DERIVE_RES, H_RES_DONE, H_DERIVE_PSK, H_PSK_DONE, H_COMMIT, H_COMMIT_TO, H_AES_ENC,
      H_SESSION_CTX_SEND, H_SESSION_CTX_RECV, H_STOP, H_HS_MODE_FULL, H_HS_MODE_RESUMED, H_PSK_SKIP,
      H_RUN_FULL, H_RUN_RESUMED, H_DERIVE_PSK_8, H_DERIVE_BINDER, H_MASK_COMMITMENTS, H_GCM_VERIFY,
      H_KS_DERIVE, H_GCM_TAG, H_KEY_COMMIT, H_KEY_RELEASE, H_DERIVE_PSK_0, H_ROTATE_KEY, H_TAG_OK,
      H_TAG_REJECT, H_SIZE]"

lemma header_table_lookup: "map_of header_table (header_byte h) = Some h"
  by (cases h) (simp_all add: header_table_def)

lemma header_byte_inject [simp]: "header_byte a = header_byte b \<longleftrightarrow> a = b"
  by (metis header_table_lookup option.inject)

lemma header_below_size: "header_byte h = 46 \<longleftrightarrow> h = H_SIZE"
  using header_byte_inject [of h H_SIZE] by (simp del: header_byte_inject)

lemma header_byte_le: "header_byte h \<le> 46"
  by (cases h) simp_all

lemma header_byte_not_15: "header_byte h \<noteq> 15"
  by (cases h) simp_all

lemma is_valid_header_enumerator: "is_valid_header (header_byte h) \<longleftrightarrow> h \<noteq> H_SIZE"
  using header_byte_le [of h] header_below_size [of h] by (auto simp: is_valid_header_def)

lemma header_byte_surj:
  assumes "b < 46" and "b \<noteq> 15"
  shows "\<exists>h. header_byte h = b"
proof -
  have "list_all (\<lambda>n. n = 15 \<or> List.member (map fst header_table) (word_of_nat n)) [0..<46]"
    by code_simp
  moreover have "unat b < 46" "unat b \<noteq> 15"
    using assms by (simp_all add: word_less_nat_alt word_unat_eq_iff)
  ultimately have "b \<in> fst ` set header_table"
    by (force simp: list_all_iff)
  moreover have "header_byte (snd p) = fst p" if "p \<in> set header_table" for p
    using that unfolding header_table_def set_map by (elim imageE) simp
  ultimately show ?thesis by blast
qed

lemma unat_push_byte:
  assumes "unat (r :: 64 word) < 2 ^ 56"
  shows "unat (push_bit 8 r OR ucast (b :: byte)) = unat r * 256 + unat b"
proof -
  have d: "push_bit 8 r AND ucast b = 0"
    by (rule bit_eqI) (auto simp: bit_simps dest: bit_imp_le_length)
  have u: "unat (ucast b :: 64 word) = unat b"
    by (simp add: unsigned_ucast_eq take_bit_nat_eq_self less_trans [OF unat_byte_less])
  have "unat (push_bit 8 r) = unat r * 256"
    using assms by (simp add: push_bit_eq_mult unat_mult_lem [THEN iffD1] unat_word_ariths(2) mult.commute)
  moreover have "push_bit 8 r OR ucast b = push_bit 8 r + ucast b"
    using d by (simp only: disjunctive_add_eq_or)
  moreover have "unat r * 256 + unat b < 2 ^ 64"
    using assms unat_byte_less [of b] by (simp del: unat_byte_less)
  ultimately show ?thesis using u by (simp add: unat_word_ariths)
qed

lemma unat_cbs_value:
  "unat r * 256 ^ length bs + 256 ^ length bs \<le> 2 ^ 64 \<Longrightarrow>
     unat (foldl (\<lambda>result b. push_bit 8 result OR ucast b) (r :: 64 word) (bs :: bytes)) =
       unat r * 256 ^ length bs + be_nat bs"
proof (induction bs arbitrary: r)
  case Nil
  then show ?case by simp
next
  case (Cons b bs)
  have p: "(256 :: nat) ^ length bs \<ge> 1" by simp
  have "unat r * 256 * 256 ^ length bs + 256 * 256 ^ length bs \<le> 2 ^ 64"
    using Cons.prems by (simp add: ac_simps)
  moreover have "(unat r * 256 + 256) * 1 \<le> (unat r * 256 + 256) * 256 ^ length bs"
    using p by (rule mult_le_mono2)
  ultimately have le: "(unat r * 256 + 256) * 256 ^ length bs \<le> 2 ^ 64" "unat r * 256 + 256 \<le> 2 ^ 64"
    by (simp_all add: algebra_simps)
  then have "unat r < 2 ^ 56" by simp
  note u = unat_push_byte [OF this, of b]
  have "(unat r * 256 + unat b + 1) * 256 ^ length bs \<le> (unat r * 256 + 256) * 256 ^ length bs"
    using unat_byte_less [of b] by (intro mult_le_mono1) linarith
  from le_trans [OF this le(1)] have "(unat r * 256 + unat b) * 256 ^ length bs + 256 ^ length bs \<le> 2 ^ 64"
    by (simp add: algebra_simps)
  with Cons.IH [of "push_bit 8 r OR ucast b"] u show ?case
    by (simp add: algebra_simps)
qed

lemma cbs_get_u_eq:
  assumes "n \<le> 8"
  shows "cbs_get_u n cbs = (if length cbs < n then None
     else Some (word_of_nat (be_nat (take n cbs)), drop n cbs))"
proof (cases "length cbs < n")
  case False
  have "(256 :: nat) ^ n \<le> 256 ^ 8" using assms by (intro power_increasing) simp_all
  then have "unat (foldl (\<lambda>result b. push_bit 8 result OR ucast b) (0 :: 64 word) (take n cbs)) =
      be_nat (take n cbs)"
    using False unat_cbs_value [of 0 "take n cbs"] by (simp add: min_def)
  from arg_cong [OF this, of "word_of_nat :: nat \<Rightarrow> 64 word"]
  have "foldl (\<lambda>result b. push_bit 8 result OR ucast b) (0 :: 64 word) (take n cbs) =
      word_of_nat (be_nat (take n cbs))"
    by simp
  with False show ?thesis by (simp add: cbs_get_u_def cbs_get_def)
qed (simp add: cbs_get_u_def cbs_get_def)

lemma nat_be_Suc_snoc: "nat_be (Suc n) x = nat_be n (x div 256) @ [word_of_nat x]"
proof (induction n)
  case 0
  then show ?case by simp
next
  case (Suc n)
  have "x div 256 ^ Suc n = x div 256 div 256 ^ n" by (simp add: div_mult2_eq)
  with Suc show ?case by (metis append_Cons nat_be.simps(2))
qed

lemma cbb_be_eq: "cbb_be n v = nat_be n (unat v)"
proof (induction n arbitrary: v)
  case 0
  then show ?case by simp
next
  case (Suc n)
  have "unat (drop_bit 8 v) = unat v div 256" by (subst unat_drop_bit_eq) (simp add: drop_bit_eq_div)
  moreover have "(ucast v :: byte) = word_of_nat (unat v)" by simp
  ultimately show ?case by (simp add: Suc nat_be_Suc_snoc del: nat_be.simps(2))
qed

lemma length_cbb_be [simp]: "length (cbb_be n v) = n"
  by (simp add: cbb_be_eq)

lemma unat_16_less [simp]: "unat (v :: 16 word) < 65536"
  using unsigned_less [where w = v and 'a = nat] by simp

lemma unat_16_64 [simp]: "unat (ucast (v :: 16 word) :: 64 word) = unat v"
proof -
  have "unat v < 2 ^ 64" using unat_16_less [of v] by (simp del: unat_16_less)
  then show ?thesis by (simp add: unsigned_ucast_eq take_bit_nat_eq_self)
qed

lemma word_64_16 [simp]: "(ucast (word_of_nat x :: 64 word) :: 16 word) = word_of_nat x"
  by (rule bit_eqI) (auto simp: bit_simps)

lemma CBB_add_u16_eq: "CBB_add_u16 v = Some (nat_be 2 (unat v))"
proof -
  have "drop_bit 16 (ucast v :: 64 word) = 0"
    by (rule bit_eqI) (auto simp: bit_simps dest: bit_imp_le_length)
  then show ?thesis by (simp add: CBB_add_u16_def cbb_add_u_def cbb_be_eq)
qed

lemma CBS_get_u16_nat_be:
  assumes "x < 65536"
  shows "CBS_get_u16 (nat_be 2 x @ rest) = Some (word_of_nat x, rest)"
  using assms
  by (simp add: CBS_get_u16_def cbs_get_u_eq be_nat_nat_be
      del: nat_be.simps)

lemma CBB_add_u16_length_prefixed_eq:
  "CBB_add_u16_length_prefixed c =
     (if length c < 65536 then Some (nat_be 2 (length c) @ c) else None)"
  by (auto simp: CBB_add_u16_length_prefixed_def cbb_be_eq check_def unat_of_nat simp del: nat_be.simps)

lemma CBS_get_u16_length_prefixed_nat_be:
  assumes "length c < 65536"
  shows "CBS_get_u16_length_prefixed (nat_be 2 (length c) @ c @ rest) = Some (c, rest)"
  using assms
  by (simp add: CBS_get_u16_length_prefixed_def cbs_get_u_eq be_nat_nat_be cbs_get_def unat_of_nat
      del: nat_be.simps)

lemma ec_point_framing:
  assumes "initialise_cbb_for_ec_point_data g c = Some x"
  shows "deinitialise_cbb_for_ec_point_data x = Some (g, c)"
proof -
  from assms have l: "length c < 65536" and x: "x = nat_be 2 (unat g) @ nat_be 2 (length c) @ c"
    by (simp_all add: initialise_cbb_for_ec_point_data_def CBB_add_u16_eq CBB_add_u16_length_prefixed_eq
        split: if_splits del: nat_be.simps)
  show ?thesis
    using CBS_get_u16_nat_be [of "unat g" "nat_be 2 (length c) @ c"]
      CBS_get_u16_length_prefixed_nat_be [OF l, of "[]"]
    by (simp add: deinitialise_cbb_for_ec_point_data_def x del: nat_be.simps)
qed

lemma ec_point_framing_total:
  "length c < 65536 \<Longrightarrow> initialise_cbb_for_ec_point_data g c \<noteq> None"
  by (simp add: initialise_cbb_for_ec_point_data_def CBB_add_u16_eq CBB_add_u16_length_prefixed_eq)

lemma be_nat_2: "length bs = 2 \<Longrightarrow> be_nat bs < 65536"
  using be_nat_less [of bs] by simp

lemma deinitialise_unique:
  assumes "deinitialise_cbb_for_ec_point_data x = Some (g, c)"
  shows "initialise_cbb_for_ec_point_data g c = Some x"
proof -
  from assms have len: "2 \<le> length x" "4 \<le> length x"
    and g: "g = ucast (word_of_nat (be_nat (take 2 x)) :: 64 word)"
    and c: "c = take (unat (word_of_nat (be_nat (take 2 (drop 2 x))) :: 64 word)) (drop 4 x)"
    and n: "length (drop 4 x) = unat (word_of_nat (be_nat (take 2 (drop 2 x))) :: 64 word)"
    by (auto simp: deinitialise_cbb_for_ec_point_data_def CBS_get_u16_def CBS_get_u16_length_prefixed_def
        cbs_get_u_eq cbs_get_def result_simps split: if_splits)
  have b: "be_nat (take 2 x) < 65536" "be_nat (take 2 (drop 2 x)) < 65536"
    using len by (simp_all add: be_nat_2)
  have cx: "c = drop 4 x" "length c = be_nat (take 2 (drop 2 x))"
    using c n b(2) by (simp_all add: unat_of_nat)
  have "unat g = be_nat (take 2 x)"
    using b(1) by (simp add: g unat_of_nat)
  then have "nat_be 2 (unat g) = take 2 x" "nat_be 2 (length c) = take 2 (drop 2 x)"
    using len cx(2) by (simp_all add: nat_be_be_nat del: nat_be.simps)
  moreover have "take 2 x @ take 2 (drop 2 x) @ drop 4 x = x"
    by (metis append_take_drop_id drop_drop numeral_Bit0)
  ultimately show ?thesis using cx b(2)
    by (simp add: initialise_cbb_for_ec_point_data_def CBB_add_u16_eq CBB_add_u16_length_prefixed_eq
        del: nat_be.simps)
qed

lemma cbb_add_header: "cbb_add_u (ucast (b :: byte)) 1 = Some [b]"
proof -
  have "drop_bit 8 (ucast b :: 64 word) = 0"
    by (rule bit_eqI) (auto simp: bit_simps dest: bit_imp_le_length)
  moreover have "(ucast (ucast b :: 64 word) :: byte) = b"
    by (rule bit_eqI) (auto simp: bit_simps dest: bit_imp_le_length)
  ultimately show ?thesis by (simp add: cbb_add_u_def)
qed

lemma pack_key_bytes_eq:
  "pack_key_bytes h bs =
     (if bs \<noteq> [] \<and> length bs < SSL3_RT_MAX_PLAIN_LENGTH then Some (header_byte h # bs) else None)"
  using cbb_add_header [of "header_byte h"]
  by (auto simp: pack_key_bytes_def check_def SSL3_RT_MAX_PLAIN_LENGTH_def)

lemma unpack_key_bytes_eq:
  "unpack_key_bytes bs = (case bs of [] \<Rightarrow> None
     | h # out \<Rightarrow> if is_valid_header h \<and> out \<noteq> [] \<and> length out < SSL3_RT_MAX_PLAIN_LENGTH
                then Some (h, out) else None)"
  by (cases bs; cases "tl bs")
     (auto simp: unpack_key_bytes_def CBS_get_u8_def cbs_get_def check_def SSL3_RT_MAX_PLAIN_LENGTH_def)

section \<open>Bits\<close>

lemma byte_bits_eq: "n \<le> 8 \<Longrightarrow> byte_bits n b = map (bit b) [0..<n]"
proof (induction n arbitrary: b)
  case 0
  then show ?case by simp
next
  case (Suc n)
  have "(b AND 1 = 1) = bit b 0" by (simp add: and_one_eq odd_iff_mod_2_eq_one bit_0)
  moreover have "map (bit (drop_bit 1 b)) [0..<n] = map (bit b) [1..<Suc n]"
    by (simp add: bit_drop_bit_eq map_Suc_upt [symmetric] comp_def del: upt_Suc)
  ultimately show ?case using Suc by (simp add: upt_conv_Cons del: upt_Suc)
qed

lemma convert_uint8_to_bool_eq: "convert_uint8_to_bool bs = concat (map (\<lambda>b. map (bit b) [0..<8]) bs)"
proof -
  have "byte_bits 8 = (\<lambda>b. map (bit b) [0..<8])" by (rule ext) (rule byte_bits_eq, simp)
  then show ?thesis by (simp add: convert_uint8_to_bool_def)
qed

lemma length_convert_uint8_to_bool [simp]: "length (convert_uint8_to_bool bs) = 8 * length bs"
  by (induction bs) (simp_all add: convert_uint8_to_bool_eq)

lemma bits_byte_bits: "bits_byte (map (bit b) [0..<8]) = b"
proof -
  have "bits_byte (map (bit b) [0..<8]) = (\<Sum>j\<leftarrow>[0..<8]. push_bit j (of_bool (bit b j)))"
    by (simp add: bits_byte_def upt_rec)
  also have "\<dots> = horner_sum of_bool 2 (map (bit b) [0..<8])"
    by (simp add: upt_rec push_bit_eq_mult algebra_simps)
  also have "\<dots> = take_bit 8 b" by (rule horner_sum_bit_eq_take_bit)
  finally show ?thesis by (simp add: take_bit_word_eq_self)
qed

lemma post_proc_convert: "post_proc (length bs) (convert_uint8_to_bool bs @ rest) = bs"
  by (induction bs) (simp_all add: convert_uint8_to_bool_eq bits_byte_bits)

lemma nth_convert_uint8_to_bool:
  "i < 8 * length bs \<Longrightarrow> convert_uint8_to_bool bs ! i = bit (bs ! (i div 8)) (i mod 8)"
proof (induction bs arbitrary: i)
  case Nil
  then show ?case by simp
next
  case (Cons b bs)
  show ?case
  proof (cases "i < 8")
    case True
    then show ?thesis by (simp add: convert_uint8_to_bool_eq nth_append)
  next
    case False
    then have "i div 8 = Suc ((i - 8) div 8)" "i mod 8 = (i - 8) mod 8"
      by (simp_all add: le_div_geq le_mod_geq)
    moreover have "convert_uint8_to_bool (b # bs) ! i = convert_uint8_to_bool bs ! (i - 8)"
      using False by (simp add: convert_uint8_to_bool_eq nth_append)
    moreover have "i - 8 < 8 * length bs" using Cons.prems False by simp
    ultimately show ?thesis using Cons.IH [of "i - 8"] by simp
  qed
qed

lemma bit_shifted_fold:
  "k < 8 \<Longrightarrow> bit (foldl (\<lambda>out j. push_bit 1 (out OR of_bool (f j))) (0 :: byte) [0..<n]) k \<longleftrightarrow>
     1 \<le> k \<and> k \<le> n \<and> f (n - k)"
proof (induction n arbitrary: k)
  case 0
  then show ?case by simp
next
  case (Suc n)
  let ?F = "foldl (\<lambda>out j. push_bit 1 (out OR of_bool (f j))) (0 :: byte) [0..<n]"
  have st: "foldl (\<lambda>out j. push_bit 1 (out OR of_bool (f j))) (0 :: byte) [0..<Suc n] =
      push_bit 1 (?F OR of_bool (f n))" by simp
  show ?case
  proof (cases k)
    case 0
    then show ?thesis unfolding st bit_push_bit_iff by simp
  next
    case (Suc k')
    have "bit (of_bool (f n) :: byte) k' \<longleftrightarrow> k' = 0 \<and> f n" by (simp add: bit_of_bool_iff)
    with Suc.IH [of k'] Suc.prems Suc show ?thesis
      unfolding st bit_push_bit_iff bit_or_iff by (cases "k' = 0") auto
  qed
qed

lemma bit_convert_bool_to_uint8:
  assumes "i < length bs div 8" and "k < 8"
  shows "bit (convert_bool_to_uint8 bs ! i) k \<longleftrightarrow> 1 \<le> k \<and> bs ! (8 * i + (8 - k))"
  using assms bit_shifted_fold [where f = "\<lambda>j. bs ! (i * 8 + j)" and n = 8 and k = k]
  by (auto simp: convert_bool_to_uint8_def mult.commute)

end
