(* ===== verification/Circuits.thy ===== *)
theory Circuits
  imports Codec
begin

text \<open>
  The circuits the parties evaluate jointly on a record (2pc/DeriveCircuits.cpp) and the packing of
  their inputs and outputs (ssl/ThreePartyHandshake.cpp, ssl/EmpWrapperAG2PC.cpp).  A wire is a bool
  and a circuit a function from the two parties' input wires to the revealed wires.  The AES netlist
  aes128\_full.txt is the argument \<open>bf\<close>; \<open>aes_netlist\<close> is what the source says it computes.
\<close>

section \<open>Gates\<close>

definition xor_gate :: "bool \<Rightarrow> bool \<Rightarrow> bool" where
  "xor_gate a b \<longleftrightarrow> a \<noteq> b"

definition and_gate :: "bool \<Rightarrow> bool \<Rightarrow> bool" where
  "and_gate a b \<longleftrightarrow> a \<and> b"

definition not_gate :: "bool \<Rightarrow> bool" where
  "not_gate a \<longleftrightarrow> \<not> a"

definition or_gate :: "bool \<Rightarrow> bool \<Rightarrow> bool" where
  "or_gate a b = not_gate (and_gate (not_gate a) (not_gate b))"

definition wires :: "nat \<Rightarrow> nat \<Rightarrow> bool list \<Rightarrow> bool list" where
  "wires off n x = take n (drop off x)"

definition xor_wires :: "nat \<Rightarrow> bool list \<Rightarrow> bool list \<Rightarrow> bool list" where
  "xor_wires n a b = map (\<lambda>i. xor_gate (a ! i) (b ! i)) [0..<n]"

definition equals :: "nat \<Rightarrow> bool list \<Rightarrow> bool list \<Rightarrow> bool" where
  "equals n a b = not_gate (foldl (\<lambda>out i. or_gate out (xor_gate (a ! i) (b ! i))) False [0..<n])"

definition rev_bytes128 :: "bool list \<Rightarrow> bool list" where
  "rev_bytes128 input = map (\<lambda>k. input ! ((15 - k div 8) * 8 + k mod 8)) [0..<128]"

definition rev_bits128 :: "bool list \<Rightarrow> bool list" where
  "rev_bits128 input = map (\<lambda>k. input ! (k div 8 * 8 + (7 - k mod 8))) [0..<128]"

definition aes128_encrypt :: "(bool list \<Rightarrow> bool list) \<Rightarrow> bool list \<Rightarrow> bool list \<Rightarrow> bool list" where
  "aes128_encrypt bf key pt = rev_bits128 (bf (rev_bytes128 key @ rev_bytes128 pt))"

definition kHiroseC :: bytes where
  "kHiroseC = [0x63, 0, 0, 0, 0, 0, 0, 0, 0, 0, 0, 0, 0, 0, 0, 1]"

definition hirose_commit :: "(bool list \<Rightarrow> bool list) \<Rightarrow> bool list \<Rightarrow> bool list \<Rightarrow> bool list \<Rightarrow> bool list" where
  "hirose_commit bf r b c =
     (let bc = xor_wires 128 b c;
          g = aes128_encrypt bf r b;
          h = aes128_encrypt bf r bc
      in xor_wires 128 g b @ xor_wires 128 h bc)"

section \<open>The circuits\<close>

definition DeriveGCMTag :: "(bool list \<Rightarrow> bool list) \<Rightarrow> bool list \<Rightarrow> bool list \<Rightarrow> bool list" where
  "DeriveGCMTag bf alice bob =
     (let key = xor_wires 128 (wires 0 128 alice) (wires 0 128 bob);
          out = aes128_encrypt bf key (wires 128 128 alice);
          out = xor_wires 128 out (xor_wires 128 (wires 256 128 alice) (wires 256 128 bob));
          were_same = equals 128 (wires 128 128 alice) (wires 128 128 bob);
          out = map (\<lambda>w. and_gate were_same w) out
      in replicate 8 were_same @ xor_wires 128 out (wires 384 128 alice))"

definition DeriveGCMVerify :: "(bool list \<Rightarrow> bool list) \<Rightarrow> bool list \<Rightarrow> bool list \<Rightarrow> bool list" where
  "DeriveGCMVerify bf alice bob =
     (let key = xor_wires 128 (wires 0 128 alice) (wires 0 128 bob);
          out = aes128_encrypt bf key (wires 128 128 alice);
          out = xor_wires 128 out (xor_wires 128 (wires 256 128 alice) (wires 256 128 bob));
          were_ivs_same = equals 128 (wires 128 128 alice) (wires 128 128 bob);
          were_tags_same = equals 128 (wires 384 128 alice) (wires 384 128 bob);
          did_either_cheat = and_gate were_ivs_same were_tags_same;
          tag_verify = and_gate (equals 128 out (wires 384 128 alice)) did_either_cheat
      in replicate 8 tag_verify @ replicate 8 did_either_cheat)"

definition DeriveGCMVerifyCommit :: "(bool list \<Rightarrow> bool list) \<Rightarrow> bool list \<Rightarrow> bool list \<Rightarrow> bool list" where
  "DeriveGCMVerifyCommit bf alice bob =
     (let key = xor_wires 128 (wires 0 128 alice) (wires 0 128 bob);
          out = aes128_encrypt bf key (wires 128 128 alice);
          out = xor_wires 128 out (xor_wires 128 (wires 256 128 alice) (wires 256 128 bob));
          key_commit = hirose_commit bf (wires 512 128 alice) (wires 0 128 alice)
            (convert_uint8_to_bool kHiroseC);
          key_opened = equals 256 key_commit (wires 640 256 bob);
          were_ivs_same = equals 128 (wires 128 128 alice) (wires 128 128 bob);
          were_tags_same = equals 128 (wires 384 128 alice) (wires 384 128 bob);
          did_either_cheat = and_gate were_ivs_same were_tags_same;
          tag_and_key = and_gate (equals 128 out (wires 384 128 alice)) key_opened;
          tag_verify = and_gate tag_and_key did_either_cheat
      in replicate 8 tag_verify @ replicate 8 did_either_cheat @ replicate 8 key_opened)"

definition DeriveKeystreamBatch ::
  "(bool list \<Rightarrow> bool list) \<Rightarrow> nat \<Rightarrow> bool list \<Rightarrow> bool list \<Rightarrow> bool list" where
  "DeriveKeystreamBatch bf n alice bob =
     (let offS = 128 + 128 * n; offR = offS + 128; offD = offR + 128;
          key = xor_wires 128 (wires 0 128 alice) (wires 0 128 bob);
          commit = hirose_commit bf (wires offR 128 alice) (wires offS 128 alice)
            (convert_uint8_to_bool kHiroseC);
          ok = and_gate True (equals 256 commit (wires offD 256 bob));
          (ok, out) = foldl (\<lambda>(ok, out) blk.
            let c = 128 + 128 * blk;
                ok = and_gate ok (equals 128 (wires c 128 alice) (wires c 128 bob));
                ks = aes128_encrypt bf key (wires c 128 alice);
                b = aes128_encrypt bf (wires offS 128 alice) (wires c 128 alice)
            in (ok, out @ xor_wires 128 ks b)) (ok, []) [0..<n]
      in map (\<lambda>w. and_gate w ok) out @ replicate 8 ok)"

definition DeriveAESEncBatch ::
  "(bool list \<Rightarrow> bool list) \<Rightarrow> nat \<Rightarrow> bool list \<Rightarrow> bool list \<Rightarrow> bool list" where
  "DeriveAESEncBatch bf n alice bob =
     (let offPt = 128 + 128 * n;
          key = xor_wires 128 (wires 0 128 alice) (wires 0 128 bob);
          (ok, out) = foldl (\<lambda>(ok, out) blk.
            let c = 128 + 128 * blk; p = offPt + 128 * blk;
                ok = and_gate ok (equals 128 (wires c 128 alice) (wires c 128 bob));
                ks = aes128_encrypt bf key (wires c 128 alice)
            in (ok, out @ xor_wires 128 ks (wires p 128 alice))) (True, []) [0..<n]
      in map (\<lambda>w. and_gate w ok) out @ replicate 8 ok)"

text \<open>What the online phase of a circuit gives both parties: the circuit evaluated on the bits of
  the two inputs, the first party being Alice, packed back into bytes.\<close>

definition exec_small_internal :: "(bool list \<Rightarrow> bool list \<Rightarrow> bool list) \<Rightarrow> nat \<Rightarrow> bytes \<Rightarrow> bytes \<Rightarrow> bytes" where
  "exec_small_internal circuit output_size alice bob =
     post_proc output_size (circuit (convert_uint8_to_bool alice) (convert_uint8_to_bool bob))"

section \<open>Inputs and outputs\<close>

record GCMVfyCircuitIn =
  gv_key :: bytes
  gv_iv :: bytes
  gv_tag_share :: bytes
  gv_server_tag :: bytes

record GCMVfyCommitCircuitIn = GCMVfyCircuitIn +
  gv_r_k :: bytes
  gv_d_k :: bytes

record GCMVfyCircuitOut =
  gv_tag_passed :: bool
  gv_cheated :: bool

record GCMVfyCommitCircuitOut = GCMVfyCircuitOut +
  gv_key_opened :: bool

record KSBatchCircuitIn =
  ks_key :: bytes
  ks_ctr :: "bytes list"
  ks_s :: bytes
  ks_r :: bytes
  ks_d :: bytes

record KSBatchCircuitOut =
  ks_masked :: "bytes list"
  ks_ok :: bool

record AESEncBatchCircuitIn =
  ae_key :: bytes
  ae_ctr :: "bytes list"
  ae_pt :: "bytes list"

record AESEncBatchCircuitOut =
  ae_ct :: "bytes list"
  ae_ok :: bool

record GCMTagCircuitIn =
  gt_key_share :: bytes
  gt_iv :: bytes
  gt_tag_share :: bytes
  gt_mask_or_unused :: bytes

record GCMTagCircuitOut =
  gt_cheated :: bool
  gt_tag :: bytes

definition KS_BATCH_N :: nat where
  "KS_BATCH_N = 16"

definition AES_ENC_N :: nat where
  "AES_ENC_N = 16"

definition repeated_bit :: "byte \<Rightarrow> bool" where
  "repeated_bit b \<longleftrightarrow> b = 0 \<or> b = 0xFF"

definition gcm_vfy_input :: "GCMVfyCircuitIn \<Rightarrow> bytes" where
  "gcm_vfy_input i = gv_key i @ gv_iv i @ gv_tag_share i @ gv_server_tag i"

definition gcm_vfy_output :: "bytes \<Rightarrow> GCMVfyCircuitOut option" where
  "gcm_vfy_output out = do {
     check (repeated_bit (out ! 0) \<and> repeated_bit (out ! 1));
     Some \<lparr>gv_tag_passed = out ! 0 \<noteq> 0, gv_cheated = (out ! 1 = 0)\<rparr> }"

definition gcm_vfy_commit_input :: "GCMVfyCommitCircuitIn \<Rightarrow> bytes" where
  "gcm_vfy_commit_input i =
     gv_key i @ gv_iv i @ gv_tag_share i @ gv_server_tag i @ gv_r_k i @ gv_d_k i"

definition gcm_vfy_commit_output :: "bytes \<Rightarrow> GCMVfyCommitCircuitOut option" where
  "gcm_vfy_commit_output out = do {
     check (\<forall>i \<in> set [0..<3]. repeated_bit (out ! i));
     Some \<lparr>gv_tag_passed = out ! 0 \<noteq> 0, gv_cheated = (out ! 1 = 0), gv_key_opened = out ! 2 \<noteq> 0\<rparr> }"

definition ks_batch_input :: "KSBatchCircuitIn \<Rightarrow> bytes" where
  "ks_batch_input i = ks_key i @ concat (ks_ctr i) @ ks_s i @ ks_r i @ ks_d i"

definition blocks16 :: "nat \<Rightarrow> bytes \<Rightarrow> bytes list" where
  "blocks16 n out = map (\<lambda>i. take 16 (drop (i * 16) out)) [0..<n]"

definition ks_batch_output :: "bytes \<Rightarrow> KSBatchCircuitOut option" where
  "ks_batch_output out = do {
     let ok_byte = out ! (16 * KS_BATCH_N);
     check (repeated_bit ok_byte);
     Some \<lparr>ks_masked = blocks16 KS_BATCH_N out, ks_ok = ok_byte \<noteq> 0\<rparr> }"

definition aes_enc_batch_input :: "AESEncBatchCircuitIn \<Rightarrow> bytes" where
  "aes_enc_batch_input i = ae_key i @ concat (ae_ctr i) @ concat (ae_pt i)"

definition aes_enc_batch_output :: "bytes \<Rightarrow> AESEncBatchCircuitOut option" where
  "aes_enc_batch_output out = do {
     let ok_byte = out ! (16 * AES_ENC_N);
     check (repeated_bit ok_byte);
     Some \<lparr>ae_ct = blocks16 AES_ENC_N out, ae_ok = ok_byte \<noteq> 0\<rparr> }"

definition gcm_tag_input :: "GCMTagCircuitIn \<Rightarrow> bytes" where
  "gcm_tag_input i = gt_key_share i @ gt_iv i @ gt_tag_share i @ gt_mask_or_unused i"

definition gcm_tag_output :: "bytes \<Rightarrow> GCMTagCircuitOut option" where
  "gcm_tag_output out = do {
     check (repeated_bit (out ! 0));
     Some \<lparr>gt_cheated = (out ! 0 = 0), gt_tag = drop 1 out\<rparr> }"

section \<open>Commitments outside the circuit\<close>

text \<open>\<open>aes\<close> is AES-128 on a key and a block, as EVP computes it in ECB mode without padding.\<close>

definition hirose_commit_host :: "(bytes \<Rightarrow> bytes \<Rightarrow> bytes) \<Rightarrow> bytes \<Rightarrow> bytes \<Rightarrow> bytes" where
  "hirose_commit_host aes r b =
     (let bc = map (\<lambda>i. b ! i XOR kHiroseC ! i) [0..<16];
          g = aes r b;
          h = aes r bc
      in map (\<lambda>i. g ! i XOR b ! i) [0..<16] @ map (\<lambda>i. h ! i XOR bc ! i) [0..<16])"

text \<open>The source's account of the netlist: on byte-reversed operands it computes AES-128 with the
  bits of every output byte reversed.\<close>

definition aes_netlist :: "(bool list \<Rightarrow> bool list) \<Rightarrow> (bytes \<Rightarrow> bytes \<Rightarrow> bytes) \<Rightarrow> bool" where
  "aes_netlist bf aes \<longleftrightarrow>
     (\<forall>k p. length k = 16 \<longrightarrow> length p = 16 \<longrightarrow> length (aes k p) = 16 \<and>
        bf (convert_uint8_to_bool (rev k) @ convert_uint8_to_bool (rev p)) =
          concat (map (\<lambda>b. rev (map (bit b) [0..<8])) (aes k p)))"

section \<open>Circuits on the bits of bytes\<close>

abbreviation xor_bytes :: "bytes \<Rightarrow> bytes \<Rightarrow> bytes" where
  "xor_bytes a b \<equiv> map2 (XOR) a b"

lemma bits_Nil [simp]: "convert_uint8_to_bool [] = []"
  by (simp add: convert_uint8_to_bool_def)

lemma bits_Cons: "convert_uint8_to_bool (b # bs) = map (bit b) [0..<8] @ convert_uint8_to_bool bs"
  by (simp add: convert_uint8_to_bool_eq)

lemma bits_append: "convert_uint8_to_bool (a @ b) = convert_uint8_to_bool a @ convert_uint8_to_bool b"
  by (simp add: convert_uint8_to_bool_def)

lemma take_bits: "take (8 * n) (convert_uint8_to_bool x) = convert_uint8_to_bool (take n x)"
proof (induction x arbitrary: n)
  case (Cons b x)
  show ?case by (cases n) (simp_all add: bits_Cons Cons del: upt_Suc)
qed simp

lemma drop_bits: "drop (8 * n) (convert_uint8_to_bool x) = convert_uint8_to_bool (drop n x)"
proof (induction x arbitrary: n)
  case (Cons b x)
  show ?case by (cases n) (simp_all add: bits_Cons Cons del: upt_Suc)
qed simp

lemma wires_bits:
  "8 dvd off \<Longrightarrow> 8 dvd n \<Longrightarrow>
     wires off n (convert_uint8_to_bool x) = convert_uint8_to_bool (take (n div 8) (drop (off div 8) x))"
  by (auto elim!: dvdE simp: wires_def drop_bits take_bits)

lemma bits_inject [simp]: "convert_uint8_to_bool a = convert_uint8_to_bool b \<longleftrightarrow> a = b"
proof
  assume eq: "convert_uint8_to_bool a = convert_uint8_to_bool b"
  then have "length a = length b" using length_convert_uint8_to_bool by (metis mult_cancel1 zero_neq_numeral)
  with eq show "a = b" using post_proc_convert [of a "[]"] post_proc_convert [of b "[]"] by simp
qed simp

lemma xor_wires_bits:
  assumes "length a = n" "length b = n"
  shows "xor_wires (8 * n) (convert_uint8_to_bool a) (convert_uint8_to_bool b) =
     convert_uint8_to_bool (xor_bytes a b)"
  using assms
  by (intro nth_equalityI)
     (auto simp: xor_wires_def xor_gate_def nth_convert_uint8_to_bool bit_xor_iff less_mult_imp_div_less mult.commute)

lemma equals_iff: "equals n a b \<longleftrightarrow> (\<forall>i < n. a ! i = b ! i)"
proof -
  have "foldl (\<lambda>out i. or_gate out (xor_gate (a ! i) (b ! i))) False [0..<n] \<longleftrightarrow> (\<exists>i < n. a ! i \<noteq> b ! i)"
    by (induction n) (auto simp: or_gate_def not_gate_def and_gate_def xor_gate_def less_Suc_eq)
  then show ?thesis by (auto simp: equals_def not_gate_def)
qed

lemma equals_bits:
  assumes "length a = n" "length b = n"
  shows "equals (8 * n) (convert_uint8_to_bool a) (convert_uint8_to_bool b) \<longleftrightarrow> a = b"
proof -
  have "equals (8 * n) (convert_uint8_to_bool a) (convert_uint8_to_bool b) \<longleftrightarrow>
      convert_uint8_to_bool a = convert_uint8_to_bool b"
    using assms by (simp add: equals_iff list_eq_iff_nth_eq)
  then show ?thesis by simp
qed

lemma rev_bytes128_bits:
  assumes "length k = 16"
  shows "rev_bytes128 (convert_uint8_to_bool k) = convert_uint8_to_bool (rev k)"
proof (rule nth_equalityI)
  fix i
  assume "i < length (rev_bytes128 (convert_uint8_to_bool k))"
  then have i: "i < 128" "i div 8 < 16" by (simp_all add: rev_bytes128_def less_mult_imp_div_less)
  have "((15 - i div 8) * 8 + i mod 8) div 8 = 15 - i div 8" by simp
  moreover have "((15 - i div 8) * 8 + i mod 8) mod 8 = i mod 8" by simp
  moreover have "(15 - i div 8) * 8 + i mod 8 < 128" using pos_mod_bound [of 8 "int i"] by linarith
  ultimately show "rev_bytes128 (convert_uint8_to_bool k) ! i = convert_uint8_to_bool (rev k) ! i"
    using i assms by (simp add: rev_bytes128_def nth_convert_uint8_to_bool rev_nth)
qed (simp add: rev_bytes128_def assms)

definition bits_reversed :: "bytes \<Rightarrow> bool list" where
  "bits_reversed x = concat (map (\<lambda>b. rev (map (bit b) [0..<8])) x)"

lemma nth_bits_reversed: "i < 8 * length x \<Longrightarrow> bits_reversed x ! i = bit (x ! (i div 8)) (7 - i mod 8)"
proof (induction x arbitrary: i)
  case Nil
  then show ?case by simp
next
  case (Cons b x)
  show ?case
  proof (cases "i < 8")
    case True
    then show ?thesis by (simp add: bits_reversed_def nth_append rev_nth)
  next
    case False
    then have "i div 8 = Suc ((i - 8) div 8)" "i mod 8 = (i - 8) mod 8"
      by (simp_all add: le_div_geq le_mod_geq)
    moreover have "bits_reversed (b # x) ! i = bits_reversed x ! (i - 8)"
      using False by (simp add: bits_reversed_def nth_append)
    ultimately show ?thesis using Cons False by simp
  qed
qed

lemma rev_bits128_reversed:
  assumes "length x = 16"
  shows "rev_bits128 (bits_reversed x) = convert_uint8_to_bool x"
proof (rule nth_equalityI)
  fix i
  assume "i < length (rev_bits128 (bits_reversed x))"
  then have i: "i < 128" "i div 8 < 16" by (simp_all add: rev_bits128_def less_mult_imp_div_less)
  have r: "r < 8 \<Longrightarrow> (i div 8 * 8 + r) div 8 = i div 8" "r < 8 \<Longrightarrow> (i div 8 * 8 + r) mod 8 = r" for r
    by simp_all
  note d = r [of "7 - i mod 8"]
  have "i div 8 * 8 + (7 - i mod 8) < 128" using i(2) by linarith
  then show "rev_bits128 (bits_reversed x) ! i = convert_uint8_to_bool x ! i"
    using i assms d by (simp add: rev_bits128_def nth_bits_reversed nth_convert_uint8_to_bool)
qed (simp add: rev_bits128_def assms)

lemma aes_netlistD:
  assumes "aes_netlist bf aes" "length k = 16" "length p = 16"
  shows "length (aes k p) = 16"
    and "aes128_encrypt bf (convert_uint8_to_bool k) (convert_uint8_to_bool p) = convert_uint8_to_bool (aes k p)"
  using assms rev_bits128_reversed [of "aes k p"]
  by (auto simp: aes_netlist_def aes128_encrypt_def rev_bytes128_bits bits_reversed_def)

lemma hirose_commit_bits:
  assumes bf: "aes_netlist bf aes" and len: "length r = 16" "length b = 16"
  shows "hirose_commit bf (convert_uint8_to_bool r) (convert_uint8_to_bool b) (convert_uint8_to_bool kHiroseC) =
     convert_uint8_to_bool (hirose_commit_host aes r b)"
    and "length (hirose_commit_host aes r b) = 32"
proof -
  have nth: "map (\<lambda>i. x ! i XOR y ! i) [0..<16] = xor_bytes x y" if "length x = 16" "length y = 16" for x y :: bytes
    using that by (intro nth_equalityI) simp_all
  have c: "length kHiroseC = 16" by (simp add: kHiroseC_def)
  let ?bc = "xor_bytes b kHiroseC"
  have bc: "length ?bc = 16" using len c by simp
  note g = aes_netlistD [OF bf len(1) len(2)] and h = aes_netlistD [OF bf len(1) bc]
  have x: "xor_wires 128 (convert_uint8_to_bool u) (convert_uint8_to_bool v) = convert_uint8_to_bool (xor_bytes u v)"
    if "length u = 16" "length v = 16" for u v
    using xor_wires_bits [OF that] by simp
  have host: "hirose_commit_host aes r b = xor_bytes (aes r b) b @ xor_bytes (aes r ?bc) ?bc"
    unfolding hirose_commit_host_def Let_def nth [OF len(2) c] nth [OF g(1) len(2)] nth [OF h(1) bc] ..
  show "hirose_commit bf (convert_uint8_to_bool r) (convert_uint8_to_bool b) (convert_uint8_to_bool kHiroseC) =
     convert_uint8_to_bool (hirose_commit_host aes r b)"
    unfolding hirose_commit_def Let_def x [OF len(2) c] g(2) h(2) x [OF g(1) len(2)] x [OF h(1) bc] host bits_append ..
  show "length (hirose_commit_host aes r b) = 32" using g(1) h(1) len bc by (simp add: host)
qed

lemma post_proc_append:
  "length a = 8 * m \<Longrightarrow> post_proc (m + n) (a @ b) = post_proc m a @ post_proc n b"
proof (induction m arbitrary: a)
  case (Suc m)
  then have "length (drop 8 a) = 8 * m" "8 \<le> length a" by simp_all
  with Suc.IH [of "drop 8 a"] show ?case by simp
qed simp

lemma post_proc_bits: "length x = n \<Longrightarrow> post_proc n (convert_uint8_to_bool x) = x"
  using post_proc_convert [of x "[]"] by simp

definition bit_byte :: "bool \<Rightarrow> byte" where
  "bit_byte b = (if b then 0xFF else 0)"

lemma bits_bit_byte: "replicate 8 b = convert_uint8_to_bool [bit_byte b]"
  by (cases b) (simp_all add: bit_byte_def bits_Cons upt_rec numeral_eq_Suc)

lemma repeated_bit_byte [simp]: "repeated_bit (bit_byte b)" "bit_byte b = 0 \<longleftrightarrow> \<not> b"
  by (simp_all add: repeated_bit_def bit_byte_def)

lemma bits_zero: "map (\<lambda>w. False) (convert_uint8_to_bool x) = convert_uint8_to_bool (replicate (length x) 0)"
  by (induction x) (simp_all add: bits_Cons comp_def)

lemma gate_bits:
  "map (\<lambda>w. and_gate w ok) (convert_uint8_to_bool x) =
     convert_uint8_to_bool (if ok then x else replicate (length x) 0)"
  "map (\<lambda>w. and_gate ok w) (convert_uint8_to_bool x) =
     convert_uint8_to_bool (if ok then x else replicate (length x) 0)"
  by (cases ok; simp add: and_gate_def bits_zero)+

section \<open>What the circuits compute\<close>

text \<open>A 16-byte field of an input, and the operations on such fields.\<close>

definition field16 :: "nat \<Rightarrow> bytes \<Rightarrow> bytes" where
  "field16 i x = take 16 (drop (16 * i) x)"

lemma length_field16: "16 * i + 16 \<le> length x \<Longrightarrow> length (field16 i x) = 16"
  by (simp add: field16_def)

lemma wires_field16: "wires (128 * i) 128 (convert_uint8_to_bool x) = convert_uint8_to_bool (field16 i x)"
  using wires_bits [of "128 * i" 128 x] by (simp add: field16_def)

lemmas wires_fields = wires_field16 [of 0, simplified] wires_field16 [of 1, simplified]
  wires_field16 [of 2, simplified] wires_field16 [of 3, simplified] wires_field16 [of 4, simplified]

lemma xor128: "length a = 16 \<Longrightarrow> length b = 16 \<Longrightarrow>
   xor_wires 128 (convert_uint8_to_bool a) (convert_uint8_to_bool b) = convert_uint8_to_bool (xor_bytes a b)"
  using xor_wires_bits [of a 16 b] by simp

lemma equals128: "length a = 16 \<Longrightarrow> length b = 16 \<Longrightarrow>
   equals 128 (convert_uint8_to_bool a) (convert_uint8_to_bool b) \<longleftrightarrow> a = b"
  using equals_bits [of a 16 b] by simp

lemma equals256: "length a = 32 \<Longrightarrow> length b = 32 \<Longrightarrow>
   equals 256 (convert_uint8_to_bool a) (convert_uint8_to_bool b) \<longleftrightarrow> a = b"
  using equals_bits [of a 32 b] by simp

text \<open>The value both verification circuits compare with the tag.\<close>

definition tag_value :: "(bytes \<Rightarrow> bytes \<Rightarrow> bytes) \<Rightarrow> bytes \<Rightarrow> bytes \<Rightarrow> bytes" where
  "tag_value aes a b =
     xor_bytes (aes (xor_bytes (field16 0 a) (field16 0 b)) (field16 1 a)) (xor_bytes (field16 2 a) (field16 2 b))"

lemma tag_value_wires:
  assumes bf: "aes_netlist bf aes" and "64 \<le> length a" "64 \<le> length b"
  shows "xor_wires 128 (aes128_encrypt bf (xor_wires 128 (convert_uint8_to_bool (field16 0 a)) (convert_uint8_to_bool (field16 0 b)))
      (convert_uint8_to_bool (field16 1 a)))
      (xor_wires 128 (convert_uint8_to_bool (field16 2 a)) (convert_uint8_to_bool (field16 2 b))) =
     convert_uint8_to_bool (tag_value aes a b)"
    and "length (tag_value aes a b) = 16"
proof -
  have f: "length (field16 i a) = 16" "length (field16 i b) = 16" if "i < 4" for i
    using assms that by (simp_all add: length_field16)
  have k: "length (xor_bytes (field16 0 a) (field16 0 b)) = 16" by (simp add: f)
  note e = aes_netlistD [OF bf k, of "field16 1 a"]
  show "xor_wires 128 (aes128_encrypt bf (xor_wires 128 (convert_uint8_to_bool (field16 0 a)) (convert_uint8_to_bool (field16 0 b)))
      (convert_uint8_to_bool (field16 1 a)))
      (xor_wires 128 (convert_uint8_to_bool (field16 2 a)) (convert_uint8_to_bool (field16 2 b))) =
     convert_uint8_to_bool (tag_value aes a b)"
    using e f by (simp add: xor128 tag_value_def)
  show "length (tag_value aes a b) = 16" using e f by (simp add: tag_value_def)
qed

lemma exec_gcm_tag:
  assumes bf: "aes_netlist bf aes" and len: "length a = 64" "length b = 64"
  shows "exec_small_internal (DeriveGCMTag bf) 17 a b =
     bit_byte (field16 1 a = field16 1 b) #
     xor_bytes (if field16 1 a = field16 1 b then tag_value aes a b else replicate 16 0) (field16 3 a)"
proof -
  let ?same = "field16 1 a = field16 1 b"
  let ?out = "if ?same then tag_value aes a b else replicate 16 0"
  have f: "length (field16 i a) = 16" "length (field16 i b) = 16" if "i < 4" for i
    using len that by (simp_all add: length_field16)
  have t: "length (tag_value aes a b) = 16" using tag_value_wires [OF bf] len by simp
  have "DeriveGCMTag bf (convert_uint8_to_bool a) (convert_uint8_to_bool b) =
      replicate 8 ?same @ xor_wires 128 (convert_uint8_to_bool ?out) (convert_uint8_to_bool (field16 3 a))"
    using tag_value_wires(1) [OF bf, of a b] len f t
    by (simp add: DeriveGCMTag_def Let_def wires_fields gate_bits equals128)
  also have "\<dots> = convert_uint8_to_bool (bit_byte ?same # xor_bytes ?out (field16 3 a))"
    using xor128 [of ?out "field16 3 a"] f t by (simp only: bits_bit_byte) (simp add: bits_append [symmetric])
  finally show ?thesis
    unfolding exec_small_internal_def using f t by (simp add: post_proc_bits)
qed

lemma exec_gcm_verify:
  assumes bf: "aes_netlist bf aes" and len: "length a = 64" "length b = 64"
  defines "same \<equiv> field16 1 a = field16 1 b \<and> field16 3 a = field16 3 b"
  shows "exec_small_internal (DeriveGCMVerify bf) 2 a b =
     [bit_byte (tag_value aes a b = field16 3 a \<and> same), bit_byte same]"
proof -
  have f: "length (field16 i a) = 16" "length (field16 i b) = 16" if "i < 4" for i
    using len that by (simp_all add: length_field16)
  have t: "length (tag_value aes a b) = 16" using tag_value_wires [OF bf] len by simp
  have "DeriveGCMVerify bf (convert_uint8_to_bool a) (convert_uint8_to_bool b) =
      replicate 8 (tag_value aes a b = field16 3 a \<and> same) @ replicate 8 same"
    using tag_value_wires(1) [OF bf, of a b] len f t
    by (simp add: DeriveGCMVerify_def Let_def wires_fields equals128 and_gate_def same_def)
  also have "\<dots> = convert_uint8_to_bool [bit_byte (tag_value aes a b = field16 3 a \<and> same), bit_byte same]"
    by (simp only: bits_bit_byte) (simp add: bits_append [symmetric])
  finally show ?thesis unfolding exec_small_internal_def by (simp add: post_proc_bits)
qed

lemma exec_gcm_verify_commit:
  assumes bf: "aes_netlist bf aes" and len: "length a = 112" "length b = 112"
  defines "same \<equiv> field16 1 a = field16 1 b \<and> field16 3 a = field16 3 b"
    and "opened \<equiv> hirose_commit_host aes (field16 4 a) (field16 0 a) = take 32 (drop 80 b)"
  shows "exec_small_internal (DeriveGCMVerifyCommit bf) 3 a b =
     [bit_byte (tag_value aes a b = field16 3 a \<and> opened \<and> same), bit_byte same, bit_byte opened]"
proof -
  have f: "length (field16 i a) = 16" "length (field16 i b) = 16" if "i < 5" for i
    using len that by (simp_all add: length_field16)
  have t: "length (tag_value aes a b) = 16" using tag_value_wires [OF bf] len by simp
  note h = hirose_commit_bits [OF bf, of "field16 4 a" "field16 0 a"]
  have d: "wires 640 256 (convert_uint8_to_bool b) = convert_uint8_to_bool (take 32 (drop 80 b))"
    using wires_bits [of 640 256 b] by simp
  have "DeriveGCMVerifyCommit bf (convert_uint8_to_bool a) (convert_uint8_to_bool b) =
      replicate 8 (tag_value aes a b = field16 3 a \<and> opened \<and> same) @ replicate 8 same @ replicate 8 opened"
    using tag_value_wires(1) [OF bf, of a b] len f t h
    by (simp add: DeriveGCMVerifyCommit_def Let_def wires_fields d equals128 equals256 and_gate_def same_def
        opened_def conj_assoc)
  also have "\<dots> = convert_uint8_to_bool
      [bit_byte (tag_value aes a b = field16 3 a \<and> opened \<and> same), bit_byte same, bit_byte opened]"
    by (simp only: bits_bit_byte) (simp add: bits_append [symmetric])
  finally show ?thesis unfolding exec_small_internal_def by (simp add: post_proc_bits)
qed

lemma batch_fold:
  "foldl (\<lambda>(ok, out) i. (and_gate ok (e i), out @ x i)) (ok, out) [0..<n] =
     (ok \<and> (\<forall>i < n. e i), out @ concat (map x [0..<n]))"
  by (induction n) (auto simp: and_gate_def less_Suc_eq)

lemma bits_concat: "convert_uint8_to_bool (concat xs) = concat (map convert_uint8_to_bool xs)"
  by (induction xs) (simp_all add: bits_append)

lemma batch_wires:
  assumes "\<And>i. i < n \<Longrightarrow> e i = e' i" and "\<And>i. i < n \<Longrightarrow> x i = convert_uint8_to_bool (y i)"
    and "\<And>i. i < n \<Longrightarrow> length (y i) = 16"
  shows "(case foldl (\<lambda>(ok, out) i. (and_gate ok (e i), out @ x i)) (ok, []) [0..<n] of
       (ok, out) \<Rightarrow> map (\<lambda>w. and_gate w ok) out @ replicate 8 ok) =
     (let good = ok \<and> (\<forall>i < n. e' i)
      in convert_uint8_to_bool ((if good then concat (map y [0..<n]) else replicate (16 * n) 0) @ [bit_byte good]))"
proof -
  have l: "length (concat (map y [0..<n])) = 16 * n"
    using assms(3) length_concat_const [of "map y [0..<n]" 16] by simp
  have m: "map x [0..<n] = map (\<lambda>i. convert_uint8_to_bool (y i)) [0..<n]" using assms(2) by simp
  have c: "concat (map x [0..<n]) = convert_uint8_to_bool (concat (map y [0..<n]))"
    unfolding m by (simp add: bits_concat comp_def)
  have e: "(\<forall>i < n. e i) = (\<forall>i < n. e' i)" using assms(1) by simp
  show ?thesis
    unfolding batch_fold e c prod.case append_Nil gate_bits l bits_bit_byte Let_def bits_append ..
qed

lemma wires_block:
  "wires (128 + 128 * i) 128 (convert_uint8_to_bool x) = convert_uint8_to_bool (field16 (Suc i) x)"
  using wires_field16 [of "Suc i" x] by (simp add: algebra_simps)

lemma exec_aes_enc_batch:
  assumes bf: "aes_netlist bf aes" and len: "length a = 16 + 32 * n" "length b = 16 + 32 * n"
  defines "key \<equiv> xor_bytes (field16 0 a) (field16 0 b)"
    and "ok \<equiv> \<forall>i < n. field16 (Suc i) a = field16 (Suc i) b"
  shows "exec_small_internal (DeriveAESEncBatch bf n) (16 * n + 1) a b =
     (if ok then concat (map (\<lambda>i. xor_bytes (aes key (field16 (Suc i) a)) (field16 (Suc (n + i)) a)) [0..<n])
      else replicate (16 * n) 0) @ [bit_byte ok]"
proof -
  let ?y = "\<lambda>i. xor_bytes (aes key (field16 (Suc i) a)) (field16 (Suc (n + i)) a)"
  have f: "length (field16 i a) = 16" "length (field16 i b) = 16" if "i \<le> 2 * n" for i
    using len that by (simp_all add: length_field16)
  have k: "length key = 16" using f [of 0] by (simp add: key_def)
  have e: "length (aes key (field16 (Suc i) a)) = 16"
    "aes128_encrypt bf (convert_uint8_to_bool key) (convert_uint8_to_bool (field16 (Suc i) a)) =
       convert_uint8_to_bool (aes key (field16 (Suc i) a))" if "i < n" for i
    using aes_netlistD [OF bf k] f that by simp_all
  have w: "wires (128 + 128 * n + 128 * i) 128 (convert_uint8_to_bool a) = convert_uint8_to_bool (field16 (Suc (n + i)) a)" for i
    using wires_block [of "n + i" a] by (simp add: algebra_simps)
  have kw: "xor_wires 128 (wires 0 128 (convert_uint8_to_bool a)) (wires 0 128 (convert_uint8_to_bool b)) = convert_uint8_to_bool key"
    using f [of 0] by (simp add: wires_fields xor128 key_def)
  have "DeriveAESEncBatch bf n (convert_uint8_to_bool a) (convert_uint8_to_bool b) =
     (case foldl (\<lambda>(ok, out) i. (and_gate ok (equals 128 (convert_uint8_to_bool (field16 (Suc i) a)) (convert_uint8_to_bool (field16 (Suc i) b))),
        out @ xor_wires 128 (aes128_encrypt bf (convert_uint8_to_bool key) (convert_uint8_to_bool (field16 (Suc i) a)))
          (convert_uint8_to_bool (field16 (Suc (n + i)) a)))) (True, []) [0..<n] of
       (ok, out) \<Rightarrow> map (\<lambda>w. and_gate w ok) out @ replicate 8 ok)"
    unfolding DeriveAESEncBatch_def Let_def kw wires_block w ..
  also have "\<dots> = convert_uint8_to_bool ((if ok then concat (map ?y [0..<n]) else replicate (16 * n) 0) @ [bit_byte ok])"
    using batch_wires [where n = n and y = ?y and ok = True and e' = "\<lambda>i. field16 (Suc i) a = field16 (Suc i) b"
      and e = "\<lambda>i. equals 128 (convert_uint8_to_bool (field16 (Suc i) a)) (convert_uint8_to_bool (field16 (Suc i) b))"
      and x = "\<lambda>i. xor_wires 128 (aes128_encrypt bf (convert_uint8_to_bool key) (convert_uint8_to_bool (field16 (Suc i) a)))
          (convert_uint8_to_bool (field16 (Suc (n + i)) a))"] f e
    by (simp add: equals128 xor128 ok_def Let_def)
  finally show ?thesis
    unfolding exec_small_internal_def
    using f e length_concat_const [of "map ?y [0..<n]" 16] by (simp only:) (rule post_proc_bits, simp)
qed

lemma exec_ks_batch:
  assumes bf: "aes_netlist bf aes" and len: "length a = 16 * n + 80" "length b = 16 * n + 80"
  defines "key \<equiv> xor_bytes (field16 0 a) (field16 0 b)"
    and "ok \<equiv> hirose_commit_host aes (field16 (n + 2) a) (field16 (Suc n) a) = take 32 (drop (16 * n + 48) b) \<and>
       (\<forall>i < n. field16 (Suc i) a = field16 (Suc i) b)"
  shows "exec_small_internal (DeriveKeystreamBatch bf n) (16 * n + 1) a b =
     (if ok then concat (map (\<lambda>i. xor_bytes (aes key (field16 (Suc i) a)) (aes (field16 (Suc n) a) (field16 (Suc i) a))) [0..<n])
      else replicate (16 * n) 0) @ [bit_byte ok]"
proof -
  let ?s = "field16 (Suc n) a"
  let ?y = "\<lambda>i. xor_bytes (aes key (field16 (Suc i) a)) (aes ?s (field16 (Suc i) a))"
  let ?open = "hirose_commit_host aes (field16 (n + 2) a) ?s = take 32 (drop (16 * n + 48) b)"
  have f: "length (field16 i a) = 16" "length (field16 i b) = 16" if "i \<le> n + 2" for i
    using len that by (simp_all add: length_field16)
  have k: "length key = 16" using f [of 0] by (simp add: key_def)
  have e: "length (aes x (field16 (Suc i) a)) = 16"
    "aes128_encrypt bf (convert_uint8_to_bool x) (convert_uint8_to_bool (field16 (Suc i) a)) =
       convert_uint8_to_bool (aes x (field16 (Suc i) a))" if "i < n" "length x = 16" for i x
    using aes_netlistD [OF bf that(2)] f that by simp_all
  have w: "wires (128 + 128 * n) 128 (convert_uint8_to_bool a) = convert_uint8_to_bool ?s"
    "wires (128 + 128 * n + 128) 128 (convert_uint8_to_bool a) = convert_uint8_to_bool (field16 (n + 2) a)"
    using wires_block [of n a] wires_block [of "n + 1" a] by (simp_all add: algebra_simps)
  have d: "wires (128 + 128 * n + 128 + 128) 256 (convert_uint8_to_bool b) = convert_uint8_to_bool (take 32 (drop (16 * n + 48) b))"
    using wires_bits [of "8 * (16 * n + 48)" 256 b] by (simp add: algebra_simps)
  have kw: "xor_wires 128 (wires 0 128 (convert_uint8_to_bool a)) (wires 0 128 (convert_uint8_to_bool b)) = convert_uint8_to_bool key"
    using f [of 0] by (simp add: wires_fields xor128 key_def)
  have len2: "length (field16 (n + 2) a) = 16" "length ?s = 16" by (simp_all add: f)
  note h = hirose_commit_bits [OF bf len2]
  have t: "and_gate True x = x" for x by (simp add: and_gate_def)
  have o: "equals 256 (convert_uint8_to_bool (hirose_commit_host aes (field16 (n + 2) a) ?s))
      (convert_uint8_to_bool (take 32 (drop (16 * n + 48) b))) \<longleftrightarrow> ?open"
    using h len by (simp add: equals256)
  have "DeriveKeystreamBatch bf n (convert_uint8_to_bool a) (convert_uint8_to_bool b) =
     (case foldl (\<lambda>(ok, out) i. (and_gate ok (equals 128 (convert_uint8_to_bool (field16 (Suc i) a)) (convert_uint8_to_bool (field16 (Suc i) b))),
        out @ xor_wires 128 (aes128_encrypt bf (convert_uint8_to_bool key) (convert_uint8_to_bool (field16 (Suc i) a)))
          (aes128_encrypt bf (convert_uint8_to_bool ?s) (convert_uint8_to_bool (field16 (Suc i) a))))) (?open, []) [0..<n] of
       (ok, out) \<Rightarrow> map (\<lambda>w. and_gate w ok) out @ replicate 8 ok)"
    unfolding DeriveKeystreamBatch_def Let_def kw wires_block w d h(1) t o ..
  also have "\<dots> = convert_uint8_to_bool ((if ok then concat (map ?y [0..<n]) else replicate (16 * n) 0) @ [bit_byte ok])"
    using batch_wires [where n = n and y = ?y and ok = ?open and e' = "\<lambda>i. field16 (Suc i) a = field16 (Suc i) b"
      and e = "\<lambda>i. equals 128 (convert_uint8_to_bool (field16 (Suc i) a)) (convert_uint8_to_bool (field16 (Suc i) b))"
      and x = "\<lambda>i. xor_wires 128 (aes128_encrypt bf (convert_uint8_to_bool key) (convert_uint8_to_bool (field16 (Suc i) a)))
          (aes128_encrypt bf (convert_uint8_to_bool ?s) (convert_uint8_to_bool (field16 (Suc i) a)))"] f e k
    by (simp add: equals128 xor128 ok_def Let_def)
  finally show ?thesis
    unfolding exec_small_internal_def
    using f e k length_concat_const [of "map ?y [0..<n]" 16] by (simp only:) (rule post_proc_bits, simp)
qed

end
