(* ===== verification/GHash.thy ===== *)
theory GHash
  imports F2128_MtA
begin

text \<open>
  ssl/GHash.hpp: a party's share of GHASH, computed from its shares of the powers of \<open>H\<close>.  The
  reference is GHASH as NIST SP 800-38D defines it, on 128-bit strings whose first bit is the most
  significant one; \<open>ghash_shares_xor\<close> says that the two parties' results XOR to it.
\<close>

section \<open>The code\<close>

definition bitrev_byte :: "byte \<Rightarrow> byte" where
  "bitrev_byte b = foldl (\<lambda>r j. r OR push_bit (7 - j) (drop_bit j b AND 1)) 0 [0..<8]"

definition bitrev :: "bytes \<Rightarrow> bytes" where
  "bitrev xs = map bitrev_byte xs"

definition kMaxPowers :: nat where
  "kMaxPowers = 1088"

definition pad_block :: "bytes \<Rightarrow> nat \<Rightarrow> bytes" where
  "pad_block xs off =
     (let len = min 16 (length xs - off)
      in take len (drop off xs) @ replicate (16 - len) 0)"

definition be64 :: "nat \<Rightarrow> bytes" where
  "be64 n = map (\<lambda>i. ucast (drop_bit (56 - 8 * i) (word_of_nat n :: 64 word))) [0..<8]"

definition aad_blocks :: "bytes \<Rightarrow> nat" where
  "aad_blocks xs = (length xs + 15) div 16"

definition block_at :: "bytes \<Rightarrow> bytes \<Rightarrow> nat \<Rightarrow> bytes" where
  "block_at aad ct j =
     (if j \<le> aad_blocks aad then pad_block aad ((j - 1) * 16)
      else if j \<le> aad_blocks aad + aad_blocks ct then pad_block ct ((j - aad_blocks aad - 1) * 16)
      else be64 (length aad * 8) @ be64 (length ct * 8))"

definition ghash_share :: "bytes \<Rightarrow> bytes \<Rightarrow> bytes \<Rightarrow> bytes option" where
  "ghash_share powers aad ct =
     (let n = aad_blocks aad + aad_blocks ct + 1
      in if n > kMaxPowers then None
         else let acc = foldl (\<lambda>acc j. acc XOR
                      mul (arr_to_block (bitrev (block_at aad ct j)))
                          (arr_to_block (take 16 (drop ((n - j) * 16) powers)))) 0 [1..<n + 1]
              in Some (bitrev (block_to_arr acc)))"

section \<open>The reference\<close>

text \<open>A string \<open>x\<^sub>0 x\<^sub>1 \<dots> x\<^sub>1\<^sub>2\<^sub>7\<close> is the word that has \<open>x\<^sub>i\<close> at bit \<open>127 - i\<close>.\<close>

definition be_block :: "bytes \<Rightarrow> block" where
  "be_block xs = le_block (rev xs)"

definition nist_R :: block where
  "nist_R = push_bit 120 0xE1"

primrec nist_loop :: "nat \<Rightarrow> nat \<Rightarrow> block \<Rightarrow> block \<Rightarrow> block \<Rightarrow> block" where
  "nist_loop 0 i x z v = z"
| "nist_loop (Suc n) i x z v =
     nist_loop n (Suc i) x (if bit x (127 - i) then z XOR v else z)
       (if bit v 0 then drop_bit 1 v XOR nist_R else drop_bit 1 v)"

definition nist_mult :: "block \<Rightarrow> block \<Rightarrow> block" where
  "nist_mult x y = nist_loop 128 0 x 0 y"

definition nist_ghash :: "block \<Rightarrow> block list \<Rightarrow> block" where
  "nist_ghash h xs = foldl (\<lambda>y x. nist_mult (y XOR x) h) 0 xs"

fun blocks_of :: "bytes \<Rightarrow> bytes list" where
  "blocks_of xs = (if xs = [] then []
     else (take 16 xs @ replicate (16 - length xs) 0) # blocks_of (drop 16 xs))"

declare blocks_of.simps [simp del]

text \<open>The input of GHASH in GCM: both strings padded to whole blocks, then the two lengths in bits.\<close>

definition gcm_blocks :: "bytes \<Rightarrow> bytes \<Rightarrow> bytes list" where
  "gcm_blocks aad ct = blocks_of aad @ blocks_of ct @ [nat_be 8 (8 * length aad) @ nat_be 8 (8 * length ct)]"

definition gcm_ghash :: "block \<Rightarrow> bytes \<Rightarrow> bytes \<Rightarrow> block" where
  "gcm_ghash h aad ct = nist_ghash h (map be_block (gcm_blocks aad ct))"

section \<open>Bit orders\<close>

lemma bit_foldl_or: "bit (foldl (\<lambda>r j. r OR f j) r xs) n \<longleftrightarrow> bit r n \<or> (\<exists>j \<in> set xs. bit (f j) n)"
  by (induction xs arbitrary: r) (auto simp: bit_or_iff)

lemma bit_moved:
  assumes "j < 8"
  shows "bit (push_bit (7 - j) (drop_bit j (b :: byte) AND 1)) n \<longleftrightarrow> n = 7 - j \<and> bit b j"
  using assms by (auto simp: bit_push_bit_iff bit_and_iff bit_drop_bit_eq bit_exp_iff)

lemma bit_bitrev_byte: "bit (bitrev_byte b) n \<longleftrightarrow> n < 8 \<and> bit b (7 - n)"
proof -
  have "bit (bitrev_byte b) n \<longleftrightarrow> (\<exists>j < 8. n = 7 - j \<and> bit b j)"
    unfolding bitrev_byte_def bit_foldl_or using bit_moved by auto
  also have "\<dots> \<longleftrightarrow> n < 8 \<and> bit b (7 - n)"
    by (auto intro!: exI [of _ "7 - n"])
  finally show ?thesis .
qed

lemma bitrev_byte_twice [simp]: "bitrev_byte (bitrev_byte b) = b"
  by (rule bit_eqI) (auto simp: bit_bitrev_byte)

text \<open>Reversing the bits of each byte turns the string into the natural order: bit \<open>k\<close> of the block is
  \<open>x\<^sub>k\<close>.\<close>

definition nat_block :: "bytes \<Rightarrow> block" where
  "nat_block xs = arr_to_block (bitrev xs)"

lemma bit_nat_block:
  assumes len: "length xs = 16"
  shows "bit (nat_block xs) k \<longleftrightarrow> k < 128 \<and> bit (be_block xs) (127 - k)"
proof (cases "k < 128")
  case True
  define a r where "a = k div 8" and "r = k mod 8"
  have k: "k = 8 * a + r" "a < 16" "r < 8" using True by (simp_all add: a_def r_def)
  then have "127 - k = 8 * (15 - a) + (7 - r)" by simp
  then have d: "(127 - k) div 8 = 15 - a" "(127 - k) mod 8 = 7 - r"
    using div_mult_self4 [of 8 "15 - a" "7 - r"] by (auto simp: mod_mult_self4)
  have "rev xs ! (15 - a) = xs ! a" using len k by (simp add: rev_nth)
  moreover have "k div 8 = a" "k mod 8 = r" by (simp_all add: a_def r_def)
  ultimately show ?thesis using True len k(2,3)
    by (simp add: nat_block_def arr_to_block_def be_block_def bit_le_block bitrev_def bit_bitrev_byte d
        less_imp_diff_less)
qed (auto dest: bit_less_128)

lemma bitrev_twice [simp]: "bitrev (bitrev xs) = xs"
  by (simp add: bitrev_def o_def)

lemma length_bitrev [simp]: "length (bitrev xs) = length xs"
  by (simp add: bitrev_def)

definition natw :: "block \<Rightarrow> block" where
  "natw x = bools_to_word (map (\<lambda>k. bit x (127 - k)) [0..<128])"

lemma bit_natw: "bit (natw x) k \<longleftrightarrow> k < 128 \<and> bit x (127 - k)"
  by (auto simp: natw_def bit_bools_to_word)

lemma natw_be_block: "length xs = 16 \<Longrightarrow> natw (be_block xs) = nat_block xs"
  by (rule bit_eqI) (simp add: bit_natw bit_nat_block)

lemma natw_twice [simp]: "natw (natw x) = x"
  by (rule bit_eqI) (auto simp: bit_natw)

lemma natw_xor: "natw (x XOR y) = natw x XOR natw y"
  by (rule bit_eqI) (auto simp: bit_natw bit_xor_iff)

lemma natw_0 [simp]: "natw 0 = 0"
  by (rule bit_eqI) (simp add: bit_natw)

section \<open>The two multiplications\<close>

lemma natw_exp: "k < 128 \<Longrightarrow> natw (2 ^ k) = 2 ^ (127 - k)"
  by (rule bit_eqI) (auto simp: bit_natw bit_exp_iff)

lemma natw_R: "natw nist_R = 0x87"
proof -
  have R: "nist_R = 2 ^ 127 XOR 2 ^ 126 XOR 2 ^ 125 XOR 2 ^ 120"
    by (simp add: nist_R_def push_bit_eq_mult)
  have "natw nist_R = 2 ^ (127 - 127) XOR 2 ^ (127 - 126) XOR 2 ^ (127 - 125) XOR 2 ^ (127 - 120)"
    unfolding R natw_xor by (intro arg_cong2 [where f = "(XOR)"] natw_exp) simp_all
  then show ?thesis by simp
qed

lemma natw_step: "natw (if bit v 0 then drop_bit 1 v XOR nist_R else drop_bit 1 v) = xtime (natw v)"
proof -
  have "natw (drop_bit 1 v) = push_bit 1 (natw v)"
  proof (rule bit_eqI)
    fix k
    assume "possible_bit TYPE(block) k"
    then have "k < 128" by simp
    then have "k \<noteq> 0 \<Longrightarrow> Suc (127 - k) = 127 - (k - 1)" by simp
    then show "bit (natw (drop_bit 1 v)) k = bit (push_bit 1 (natw v)) k"
      using \<open>k < 128\<close> bit_beyond [of 128 v]
      unfolding bit_push_bit_iff bit_natw bit_drop_bit_eq by (cases "k = 0") auto
  qed
  moreover have "bit (natw v) 127 = bit v 0" by (simp add: bit_natw)
  ultimately show ?thesis
    by (cases "bit v 0") (simp_all only: if_True if_False natw_xor natw_R xtime_def xor.right_neutral)
qed

lemma nist_loop_eq:
  "natw z = gf_mult_upto i (natw y) (natw x) \<Longrightarrow> natw v = (xtime ^^ i) (natw y) \<Longrightarrow> i + n \<le> 128 \<Longrightarrow>
     natw (nist_loop n i x z v) = gf_mult_upto (i + n) (natw y) (natw x)"
proof (induction n arbitrary: i z v)
  case (Suc n)
  have "natw (if bit x (127 - i) then z XOR v else z) = gf_mult_upto (Suc i) (natw y) (natw x)"
    using Suc.prems by (auto simp: natw_xor bit_natw)
  from Suc.IH [OF this] show ?case using Suc.prems natw_step [of v] by simp
qed simp

lemma Gf_nist_mult: "Gf (natw (nist_mult x y)) = Gf (natw x) * Gf (natw y)"
  using nist_loop_eq [of 0 0 y x y 128]
  by (simp add: nist_mult_def times_gf_def gf_mult_commute)

lemma Gf_nist_ghash:
  "Gf (natw (foldl (\<lambda>y x. nist_mult (y XOR x) h) y xs)) =
     Gf (natw y) * Gf (natw h) ^ length xs + (\<Sum>j<length xs. Gf (natw (xs ! j)) * Gf (natw h) ^ (length xs - j))"
proof (induction xs arbitrary: y)
  case (Cons x xs)
  then show ?case
    by (simp add: Gf_nist_mult natw_xor Gf_xor sum.lessThan_Suc_shift algebra_simps del: sum.lessThan_Suc)
qed simp

section \<open>The blocks\<close>

lemma length_blocks_of: "length (blocks_of xs) = aad_blocks xs"
proof (induction xs rule: blocks_of.induct)
  case (1 xs)
  show ?case
  proof (cases "xs = []")
    case False
    then have "aad_blocks xs = Suc (aad_blocks (drop 16 xs))"
      by (cases "length xs \<le> 16") (auto simp: aad_blocks_def Suc_le_eq le_div_geq)
    with 1 False show ?thesis by (subst blocks_of.simps) simp
  qed (simp add: blocks_of.simps aad_blocks_def)
qed

lemma blocks_of_nth: "i < aad_blocks xs \<Longrightarrow> blocks_of xs ! i = pad_block xs (i * 16)"
proof (induction xs arbitrary: i rule: blocks_of.induct)
  case (1 xs)
  then have ne: "xs \<noteq> []" by (auto simp: aad_blocks_def)
  show ?case
  proof (cases i)
    case 0
    then show ?thesis using ne
      by (subst blocks_of.simps) (simp add: pad_block_def Let_def min_def)
  next
    case (Suc j)
    then have "j < aad_blocks (drop 16 xs)" using 1(2) by (auto simp: aad_blocks_def)
    then show ?thesis using 1(1) [OF ne] ne Suc
      by (subst blocks_of.simps) (simp add: pad_block_def Let_def add.commute)
  qed
qed

lemma length_pad_block [simp]: "length (pad_block xs off) = 16"
  by (auto simp: pad_block_def Let_def)

lemma nat_be_nth: "i < n \<Longrightarrow> nat_be n x ! i = word_of_nat (x div 256 ^ (n - 1 - i))"
  by (induction n arbitrary: i) (auto simp: nth_Cons split: nat.splits)

lemma be64_eq: "be64 n = nat_be 8 n"
proof (rule nth_equalityI)
  fix i
  assume "i < length (be64 n)"
  then have i: "i < 8" by (simp add: be64_def)
  have p: "256 ^ (7 - i) = (2 :: nat) ^ (56 - 8 * i)"
    using i power_mult [of "2 :: nat" 8 "7 - i"] by (simp add: diff_mult_distrib2)
  have "(ucast (drop_bit (56 - 8 * i) (word_of_nat n :: 64 word)) :: byte) = word_of_nat (n div 2 ^ (56 - 8 * i))"
    using i by (intro bit_eqI) (auto simp: bit_ucast_iff bit_drop_bit_eq bit_of_nat_iff drop_bit_eq_div [symmetric])
  then show "be64 n ! i = nat_be 8 n ! i" using i by (simp add: be64_def nat_be_nth p)
qed (simp add: be64_def)

lemma length_gcm_blocks: "length (gcm_blocks aad ct) = aad_blocks aad + aad_blocks ct + 1"
  by (simp add: gcm_blocks_def length_blocks_of)

lemma block_at_eq:
  assumes "j < aad_blocks aad + aad_blocks ct + 1"
  shows "block_at aad ct (Suc j) = gcm_blocks aad ct ! j"
  using assms
  by (auto simp: block_at_def gcm_blocks_def nth_append length_blocks_of blocks_of_nth be64_eq
      diff_diff_left mult.commute)

lemma length_block_at: "length (block_at aad ct j) = 16"
  by (simp add: block_at_def be64_def)

section \<open>The shares\<close>

text \<open>The accumulator of the loop, for a party whose powers are the blocks \<open>ps\<close>.\<close>

definition ghash_acc :: "block list \<Rightarrow> bytes \<Rightarrow> bytes \<Rightarrow> gf" where
  "ghash_acc ps aad ct =
     (let n = aad_blocks aad + aad_blocks ct + 1
      in \<Sum>j<n. Gf (nat_block (gcm_blocks aad ct ! j)) * Gf (ps ! (n - 1 - j)))"

lemma take_drop_blocks:
  "i < length ps \<Longrightarrow> take 16 (drop (i * 16) (blocks_to_bytes ps)) = block_to_arr (ps ! i)"
  by (induction ps arbitrary: i) (auto simp: blocks_to_bytes_def nth_Cons add.commute split: nat.splits)

lemma sum_list_from_1: "(\<Sum>j\<leftarrow>[1..<n + 1]. f j) = (\<Sum>j<n. f (Suc j) :: 'a :: comm_monoid_add)"
  by (induction n) simp_all

lemma ghash_share_acc:
  assumes "aad_blocks aad + aad_blocks ct + 1 \<le> kMaxPowers" and "length ps = num_powers"
  shows "\<exists>acc. ghash_share (blocks_to_bytes ps) aad ct = Some (bitrev (block_to_arr acc)) \<and>
     Gf acc = ghash_acc ps aad ct"
proof -
  let ?n = "aad_blocks aad + aad_blocks ct + 1"
  let ?f = "\<lambda>j. mul (arr_to_block (bitrev (block_at aad ct j)))
    (arr_to_block (take 16 (drop ((?n - j) * 16) (blocks_to_bytes ps))))"
  have n: "?n \<le> length ps" using assms by (simp add: kMaxPowers_def sizes)
  have "Gf (?f (Suc j)) = Gf (nat_block (gcm_blocks aad ct ! j)) * Gf (ps ! (?n - 1 - j))" if "j < ?n" for j
  proof -
    have "?n - Suc j < length ps" using n that by linarith
    then show ?thesis using block_at_eq [OF that] take_drop_blocks [of "?n - Suc j" ps]
      by (simp add: Gf_mul nat_block_def arr_to_block_to_arr)
  qed
  then have "(\<Sum>j<?n. Gf (?f (Suc j))) = ghash_acc ps aad ct"
    unfolding ghash_acc_def Let_def by (intro sum.cong) auto
  moreover have "(\<Sum>j\<leftarrow>[1..<?n + 1]. Gf (?f j)) = (\<Sum>j<?n. Gf (?f (Suc j)))"
    by (rule sum_list_from_1)
  ultimately have "Gf (foldl (\<lambda>acc j. acc XOR ?f j) 0 [1..<?n + 1]) = ghash_acc ps aad ct"
    unfolding Gf_foldl_xor by (simp only: Gf_0 add_0)
  moreover have "ghash_share (blocks_to_bytes ps) aad ct =
      Some (bitrev (block_to_arr (foldl (\<lambda>acc j. acc XOR ?f j) 0 [1..<?n + 1])))"
    using assms(1) by (simp add: ghash_share_def Let_def del: upt_Suc)
  ultimately show ?thesis by blast
qed

lemma be_block_nat: "length xs = 16 \<Longrightarrow> be_block xs = natw (nat_block xs)"
  by (metis natw_be_block natw_twice)

lemma nat_block_xor:
  assumes "length xs = 16" "length ys = 16"
  shows "nat_block (map2 (XOR) xs ys) = nat_block xs XOR nat_block ys"
  using assms
  by (intro bit_eqI) (auto simp: nat_block_def arr_to_block_def bit_le_block bitrev_def bit_bitrev_byte bit_xor_iff)

lemma ghash_shares:
  assumes "aad_blocks aad + aad_blocks ct + 1 \<le> kMaxPowers"
    and ok: "powers_ok (Gf (natw h)) {..<num_powers} (v, p)"
  shows "\<exists>sv sp. ghash_share (blocks_to_bytes v) aad ct = Some sv \<and> ghash_share (blocks_to_bytes p) aad ct = Some sp \<and>
     be_block (map2 (XOR) sv sp) = gcm_ghash h aad ct"
proof -
  let ?n = "aad_blocks aad + aad_blocks ct + 1" and ?B = "gcm_blocks aad ct"
  have len: "length v = num_powers" "length p = num_powers" using ok by (auto simp: powers_ok_def)
  obtain a where a: "ghash_share (blocks_to_bytes v) aad ct = Some (bitrev (block_to_arr a))" "Gf a = ghash_acc v aad ct"
    using ghash_share_acc [OF assms(1) len(1)] by blast
  obtain b where b: "ghash_share (blocks_to_bytes p) aad ct = Some (bitrev (block_to_arr b))" "Gf b = ghash_acc p aad ct"
    using ghash_share_acc [OF assms(1) len(2)] by blast
  have blk: "length (?B ! j) = 16" if "j < ?n" for j
    using block_at_eq [OF that] length_block_at by metis
  have "Gf (a XOR b) = (\<Sum>j<?n. Gf (nat_block (?B ! j)) * (Gf (v ! (?n - 1 - j)) + Gf (p ! (?n - 1 - j))))"
    unfolding Gf_xor a b ghash_acc_def Let_def by (simp add: sum.distrib [symmetric] distrib_left)
  also have "\<dots> = (\<Sum>j<?n. Gf (natw (be_block (?B ! j))) * Gf (natw h) ^ (?n - j))"
  proof (intro sum.cong refl)
    fix j
    assume "j \<in> {..<?n}"
    then have j: "j < ?n" by simp
    have "?n - 1 - j < num_powers" "?n - 1 - j + 1 = ?n - j"
      using assms(1) j by (simp_all add: kMaxPowers_def sizes)
    then show "Gf (nat_block (?B ! j)) * (Gf (v ! (?n - 1 - j)) + Gf (p ! (?n - 1 - j))) =
        Gf (natw (be_block (?B ! j))) * Gf (natw h) ^ (?n - j)"
      using ok blk [OF j] unfolding powers_ok_def by (metis fst_conv lessThan_iff natw_be_block snd_conv)
  qed
  also have "\<dots> = Gf (natw (gcm_ghash h aad ct))"
    using Gf_nist_ghash [of h 0 "map be_block ?B"]
    by (simp add: gcm_ghash_def nist_ghash_def length_gcm_blocks Gf_0)
  finally have acc: "a XOR b = natw (gcm_ghash h aad ct)" by simp
  have "be_block (map2 (XOR) (bitrev (block_to_arr a)) (bitrev (block_to_arr b))) = natw (a XOR b)"
    by (simp add: be_block_nat nat_block_xor) (simp add: nat_block_def arr_to_block_to_arr)
  then show ?thesis using a b acc by simp
qed

end
