(* ===== verification/Block_Map.thy ===== *)
theory Block_Map
  imports Surf_Prelude
begin

text \<open>
  \<^verbatim>\<open>SurfBlockMap\<close> of ssl/ThreePartyHandshake.hpp: the AES-CTR input of a keystream block, and the map
  from the global number of a block to the record and the counter it belongs to.
\<close>

record RecordDims =
  rd_seq :: "64 word"
  rd_ct_len :: "32 word"

definition ctr_block :: "bytes \<Rightarrow> 64 word \<Rightarrow> 32 word \<Rightarrow> bytes" where
  "ctr_block static_iv seq counter =
     (let out = foldl (\<lambda>out i. out[11 - i := ucast (drop_bit (8 * i) seq)]) (replicate 16 0) [0..<8];
          out = foldl (\<lambda>out i. out[i := out ! i XOR static_iv ! i]) out [0..<12]
      in out[12 := ucast (drop_bit 24 counter), 13 := ucast (drop_bit 16 counter),
             14 := ucast (drop_bit 8 counter), 15 := ucast counter])"

definition rec_blocks :: "RecordDims \<Rightarrow> nat" where
  "rec_blocks r = (unat (rd_ct_len r) + 15) div 16"

fun resolve_from :: "nat \<Rightarrow> RecordDims list \<Rightarrow> nat \<Rightarrow> (64 word \<times> 32 word) option" where
  "resolve_from acc [] index = None"
| "resolve_from acc (r # rs) index =
     (let n = rec_blocks r
      in if index < acc + n then Some (rd_seq r, word_of_nat (index - acc) + 2)
         else resolve_from (acc + n) rs index)"

definition resolve :: "RecordDims list \<Rightarrow> nat \<Rightarrow> (64 word \<times> 32 word) option" where
  "resolve recs index = resolve_from 0 recs index"

definition total_blocks :: "RecordDims list \<Rightarrow> nat" where
  "total_blocks recs = foldl (\<lambda>n r. n + rec_blocks r) 0 recs"

section \<open>The counter block\<close>

lemma upt_8_12: "[0..<8] = [0, 1, 2, 3, 4, 5, 6, 7 :: nat]"
  "[0..<12] = [0, 1, 2, 3, 4, 5, 6, 7, 8, 9, 10, 11 :: nat]"
  by (simp_all add: upt_rec)

lemma update_Cons_numeral: "(x # xs)[numeral k := v] = x # xs[pred_numeral k := v]"
  by (simp add: numeral_eq_Suc)

lemma replicate_16: "replicate 16 x = [x, x, x, x, x, x, x, x, x, x, x, x, x, x, x, x]"
  by (simp add: numeral_eq_Suc)

lemma ctr_block_eq:
  "ctr_block iv seq counter =
     [iv ! 0, iv ! 1, iv ! 2, iv ! 3,
      ucast (drop_bit 56 seq) XOR iv ! 4, ucast (drop_bit 48 seq) XOR iv ! 5,
      ucast (drop_bit 40 seq) XOR iv ! 6, ucast (drop_bit 32 seq) XOR iv ! 7,
      ucast (drop_bit 24 seq) XOR iv ! 8, ucast (drop_bit 16 seq) XOR iv ! 9,
      ucast (drop_bit 8 seq) XOR iv ! 10, ucast seq XOR iv ! 11,
      ucast (drop_bit 24 counter), ucast (drop_bit 16 counter), ucast (drop_bit 8 counter), ucast counter]"
  by (simp add: ctr_block_def upt_8_12 replicate_16 update_Cons_numeral Let_def)

lemma word_bytes_inject:
  assumes "\<And>i. 8 * i < LENGTH('a) \<Longrightarrow> (ucast (drop_bit (8 * i) a) :: byte) = ucast (drop_bit (8 * i) b)"
  shows "a = (b :: 'a :: len word)"
proof (rule bit_eqI)
  fix n
  assume "possible_bit TYPE('a word) n"
  then have n: "n < LENGTH('a)" by simp
  then have "8 * (n div 8) < LENGTH('a)" by simp
  from assms [OF this] have "bit (ucast (drop_bit (8 * (n div 8)) a) :: byte) (n mod 8) =
      bit (ucast (drop_bit (8 * (n div 8)) b) :: byte) (n mod 8)" by simp
  then show "bit a n = bit b n" by (simp add: bit_simps)
qed

lemma ctr_block_inject:
  "ctr_block iv s c = ctr_block iv s' c' \<longleftrightarrow> s = s' \<and> c = c'"
proof
  assume eq: "ctr_block iv s c = ctr_block iv s' c'"
  then have fs: "(ucast s :: byte) = ucast s'"
    "(ucast (drop_bit 8 s) :: byte) = ucast (drop_bit 8 s')"
    "(ucast (drop_bit 16 s) :: byte) = ucast (drop_bit 16 s')"
    "(ucast (drop_bit 24 s) :: byte) = ucast (drop_bit 24 s')"
    "(ucast (drop_bit 32 s) :: byte) = ucast (drop_bit 32 s')"
    "(ucast (drop_bit 40 s) :: byte) = ucast (drop_bit 40 s')"
    "(ucast (drop_bit 48 s) :: byte) = ucast (drop_bit 48 s')"
    "(ucast (drop_bit 56 s) :: byte) = ucast (drop_bit 56 s')"
    by (simp_all add: ctr_block_eq)
  have fc: "(ucast c :: byte) = ucast c'"
    "(ucast (drop_bit 8 c) :: byte) = ucast (drop_bit 8 c')"
    "(ucast (drop_bit 16 c) :: byte) = ucast (drop_bit 16 c')"
    "(ucast (drop_bit 24 c) :: byte) = ucast (drop_bit 24 c')"
    using eq by (simp_all add: ctr_block_eq)
  have "s = s'"
  proof (rule word_bytes_inject)
    fix i :: nat
    assume "8 * i < LENGTH(64)"
    then have "i = 0 \<or> i = 1 \<or> i = 2 \<or> i = 3 \<or> i = 4 \<or> i = 5 \<or> i = 6 \<or> i = 7" by auto
    then show "(ucast (drop_bit (8 * i) s) :: byte) = ucast (drop_bit (8 * i) s')"
      by (elim disjE) (simp_all add: fs)
  qed
  moreover have "c = c'"
  proof (rule word_bytes_inject)
    fix i :: nat
    assume "8 * i < LENGTH(32)"
    then have "i = 0 \<or> i = 1 \<or> i = 2 \<or> i = 3" by auto
    then show "(ucast (drop_bit (8 * i) c) :: byte) = ucast (drop_bit (8 * i) c')"
      by (elim disjE) (simp_all add: fc)
  qed
  ultimately show "s = s' \<and> c = c'" ..
qed simp

section \<open>Resolving a block number\<close>

lemma total_blocks_Cons: "total_blocks (r # rs) = rec_blocks r + total_blocks rs"
proof -
  have "foldl (\<lambda>n r. n + rec_blocks r) a rs = a + foldl (\<lambda>n r. n + rec_blocks r) 0 rs" for a
    by (induction rs arbitrary: a) (simp, metis (no_types, lifting) add.assoc add_0 foldl_Cons)
  from this [of "rec_blocks r"] show ?thesis by (simp add: total_blocks_def)
qed

lemma total_blocks_Nil [simp]: "total_blocks [] = 0"
  by (simp add: total_blocks_def)

lemma rec_blocks_bound: "rec_blocks r \<le> 2 ^ 28"
proof -
  have "unat (rd_ct_len r) < 2 ^ 32" using unsigned_less [where w = "rd_ct_len r" and 'a = nat] by simp
  then show ?thesis by (simp add: rec_blocks_def)
qed

lemma resolve_from_Some:
  "resolve_from acc recs index = Some (seq, ctr) \<Longrightarrow> acc \<le> index \<Longrightarrow>
     \<exists>pre r post. recs = pre @ r # post \<and> seq = rd_seq r \<and>
       acc + total_blocks pre \<le> index \<and> index < acc + total_blocks pre + rec_blocks r \<and>
       ctr = word_of_nat (index - acc - total_blocks pre) + 2"
proof (induction recs arbitrary: acc)
  case (Cons r rs)
  show ?case
  proof (cases "index < acc + rec_blocks r")
    case True
    with Cons.prems show ?thesis by (intro exI [of _ "[]"] exI [of _ r] exI [of _ rs]) auto
  next
    case False
    with Cons obtain pre r' post where "rs = pre @ r' # post" "seq = rd_seq r'"
      "acc + rec_blocks r + total_blocks pre \<le> index" "index < acc + rec_blocks r + total_blocks pre + rec_blocks r'"
      "ctr = word_of_nat (index - (acc + rec_blocks r) - total_blocks pre) + 2"
      by (force simp: Let_def)
    then show ?thesis
      by (intro exI [of _ "r # pre"] exI [of _ r'] exI [of _ post]) (auto simp: total_blocks_Cons)
  qed
qed simp

lemma resolve_defined: "acc \<le> index \<Longrightarrow>
    (\<exists>p. resolve_from acc recs index = Some p) \<longleftrightarrow> index < acc + total_blocks recs"
  by (induction recs arbitrary: acc) (auto simp: Let_def total_blocks_Cons add.assoc not_less)

lemma unat_small_plus_2: "d < 2 ^ 28 \<Longrightarrow> unat (word_of_nat d + 2 :: 32 word) = d + 2"
proof -
  assume "d < 2 ^ 28"
  moreover have "word_of_nat d + 2 = (word_of_nat (d + 2) :: 32 word)" by simp
  then have "unat (word_of_nat d + 2 :: 32 word) = (d + 2) mod 2 ^ 32"
    by (simp only: unsigned_of_nat take_bit_eq_mod) simp
  ultimately show ?thesis by simp
qed

lemma resolve_unat_counter:
  assumes "resolve recs index = Some (seq, ctr)"
  shows "2 \<le> unat ctr \<and> unat ctr < 2 ^ 28 + 2"
proof -
  obtain pre r post where "index < total_blocks pre + rec_blocks r" "total_blocks pre \<le> index"
    "ctr = word_of_nat (index - total_blocks pre) + 2"
    using resolve_from_Some [of 0 recs index] assms by (auto simp: resolve_def)
  moreover have "index - total_blocks pre < 2 ^ 28"
    using rec_blocks_bound [of r] calculation by linarith
  moreover from this have "unat (word_of_nat (index - total_blocks pre) + 2 :: 32 word) = index - total_blocks pre + 2"
    by (rule unat_small_plus_2)
  ultimately show ?thesis by simp
qed

lemma distinct_split_unique:
  assumes "distinct (map f xs)" "xs = pre @ r # post" "xs = pre' @ r' # post'" "f r = f r'"
  shows "pre = pre' \<and> r = r'"
proof -
  let ?n = "length pre" and ?m = "length pre'"
  have n: "?n < length xs" "map f xs ! ?n = f r" unfolding assms(2) by (simp_all add: nth_append)
  have "?m < length xs" "map f xs ! ?m = f r'" unfolding assms(3) by (simp_all add: nth_append)
  with n have "?n < length xs" "?m < length xs" "map f xs ! ?n = map f xs ! ?m"
    using assms(4) by simp_all
  then have "?n = ?m" using assms(1) by (metis length_map nth_eq_iff_index_eq)
  then show ?thesis using assms(2,3) by (metis append_eq_append_conv list.inject)
qed

lemma resolve_inject:
  assumes "distinct (map rd_seq recs)"
    and i: "resolve recs i = Some p" and j: "resolve recs j = Some p"
  shows "i = j"
proof -
  obtain seq ctr where p: "p = (seq, ctr)" by (cases p)
  obtain pre r post where 1: "recs = pre @ r # post" "seq = rd_seq r" "total_blocks pre \<le> i"
    "i < total_blocks pre + rec_blocks r" "ctr = word_of_nat (i - total_blocks pre) + 2"
    using resolve_from_Some [of 0 recs i] i by (auto simp: resolve_def p)
  obtain pre' r' post' where 2: "recs = pre' @ r' # post'" "seq = rd_seq r'" "total_blocks pre' \<le> j"
    "j < total_blocks pre' + rec_blocks r'" "ctr = word_of_nat (j - total_blocks pre') + 2"
    using resolve_from_Some [of 0 recs j] j by (auto simp: resolve_def p)
  have eq: "pre = pre'" "r = r'"
    using distinct_split_unique [OF assms(1) 1(1) 2(1)] 1(2) 2(2) by simp_all
  have "i - total_blocks pre < 2 ^ 28" "j - total_blocks pre' < 2 ^ 28"
    using rec_blocks_bound [of r] rec_blocks_bound [of r'] 1(3,4) 2(3,4) by linarith+
  then have "i - total_blocks pre + 2 = j - total_blocks pre' + 2"
    using 1(5) 2(5) unat_small_plus_2 by metis
  then show ?thesis using eq 1(3) 2(3) by simp
qed

lemma keystream_blocks_distinct:
  assumes "distinct (map rd_seq recs)" "resolve recs i = Some (s, c)" "resolve recs j = Some (s', c')"
    and "ctr_block iv s c = ctr_block iv s' c'"
  shows "i = j"
  using assms resolve_inject [of recs i "(s, c)" j] by (simp add: ctr_block_inject)

end
