(* ===== verification/Record_Protocol.thy ===== *)
theory Record_Protocol
  imports Circuits GHash Block_Map
begin

text \<open>
  The joint processing of a TLS record (ssl/ThreePartyHandshake.cpp on the prover's side,
  nodes/Server.cpp on the verifier's): encryption of a request, verification of the tag of a
  response, derivation of its keystream, and opening of captured records once the verifier's key
  share has been released.  A definition with both parties' data runs the two sides in lock-step; the
  circuits are those of Circuits, evaluated on the two inputs.  The network netlist of AES is \<open>bf\<close>.
\<close>

section \<open>Keys\<close>

text \<open>The traffic keys of the verifier, and what the prover keeps in its SSL object.  An IV of the
  prover starts at offset 4.\<close>

record TrafficCircuitOut =
  tk_client_key_share :: bytes
  tk_client_iv :: bytes
  tk_server_key_share :: bytes
  tk_server_iv :: bytes
  tk_CATS_share :: bytes
  tk_SATS_share :: bytes

record prover =
  pv_client_key_share :: bytes
  pv_server_key_share :: bytes
  pv_client_iv :: bytes
  pv_server_iv :: bytes
  pv_cgcm_share :: bytes
  pv_sgcm_share :: bytes
  pv_key_commit_rand :: bytes
  pv_mask_seed :: bytes
  pv_mask_seed_key :: bytes
  pv_surf_true_mode :: bool
  pv_surf_key_committed :: bool
  pv_surf_key_released :: bool

record SurfRecord =
  sr_ciphertext :: bytes
  sr_tag :: bytes
  sr_seq :: "64 word"

section \<open>Counter blocks\<close>

definition gcm_j0 :: "bytes \<Rightarrow> 64 word \<Rightarrow> bytes" where
  "gcm_j0 static_iv seq =
     (let iv = take 12 static_iv @ replicate 4 0;
          iv = foldl (\<lambda>iv i. iv[11 - i := iv ! (11 - i) XOR ucast (drop_bit (8 * i) seq)]) iv [0..<8]
      in iv[15 := 1])"

text \<open>The record header as the additional data of TLS 1.3.\<close>

definition record_aad :: "nat \<Rightarrow> bytes" where
  "record_aad ct_len =
     (let record_len = word_of_nat (ct_len + 16) :: 64 word
      in [23, 3, 3, ucast (drop_bit 8 record_len), ucast (record_len AND 0xff)])"

section \<open>Encryption of a request\<close>

definition enc_batch_verifier :: "TrafficCircuitOut \<Rightarrow> 64 word \<Rightarrow> nat \<Rightarrow> nat \<Rightarrow> AESEncBatchCircuitIn" where
  "enc_batch_verifier k seq nblocks batch =
     \<lparr>ae_key = tk_client_key_share k,
      ae_ctr = map (\<lambda>j. let idx = batch * AES_ENC_N + j;
                           src = if idx < nblocks then idx else nblocks - 1
                       in ctr_block (tk_client_iv k) seq (word_of_nat src + 2)) [0..<AES_ENC_N],
      ae_pt = replicate AES_ENC_N (replicate 16 0)\<rparr>"

definition enc_batch_prover :: "prover \<Rightarrow> 64 word \<Rightarrow> nat \<Rightarrow> bytes \<Rightarrow> nat \<Rightarrow> AESEncBatchCircuitIn" where
  "enc_batch_prover P seq nblocks inner batch =
     \<lparr>ae_key = pv_client_key_share P,
      ae_ctr = map (\<lambda>j. let idx = batch * AES_ENC_N + j;
                           src = if idx < nblocks then idx else nblocks - 1
                       in ctr_block (drop 4 (pv_client_iv P)) seq (word_of_nat src + 2)) [0..<AES_ENC_N],
      ae_pt = map (\<lambda>j. take 16 (drop ((batch * AES_ENC_N + j) * 16) inner)) [0..<AES_ENC_N]\<rparr>"

definition run_enc_batch ::
  "(bool list \<Rightarrow> bool list) \<Rightarrow> AESEncBatchCircuitIn \<Rightarrow> AESEncBatchCircuitIn \<Rightarrow> AESEncBatchCircuitOut option" where
  "run_enc_batch bf p v =
     aes_enc_batch_output (exec_small_internal (DeriveAESEncBatch bf AES_ENC_N) (16 * AES_ENC_N + 1)
       (aes_enc_batch_input p) (aes_enc_batch_input v))"

text \<open>The ciphertext blocks, which both parties receive.\<close>

definition encrypt_batches ::
  "(bool list \<Rightarrow> bool list) \<Rightarrow> prover \<Rightarrow> TrafficCircuitOut \<Rightarrow> 64 word \<Rightarrow> nat \<Rightarrow> bytes \<Rightarrow> nat \<Rightarrow> bytes list option" where
  "encrypt_batches bf P k seq nblocks inner nbatches =
     map_option concat (those (map (\<lambda>batch. do {
       out \<leftarrow> run_enc_batch bf (enc_batch_prover P seq nblocks inner batch) (enc_batch_verifier k seq nblocks batch);
       check (ae_ok out);
       Some (ae_ct out) }) [0..<nbatches]))"

definition tag_input_verifier ::
  "TrafficCircuitOut \<Rightarrow> bytes \<Rightarrow> 64 word \<Rightarrow> bytes \<Rightarrow> bytes \<Rightarrow> GCMTagCircuitIn option" where
  "tag_input_verifier k powers seq aad ct = do {
     share \<leftarrow> ghash_share powers aad ct;
     Some \<lparr>gt_key_share = tk_client_key_share k, gt_iv = ctr_block (tk_client_iv k) seq 1,
           gt_tag_share = share, gt_mask_or_unused = replicate 16 0\<rparr> }"

definition tag_input_prover :: "prover \<Rightarrow> bytes \<Rightarrow> 64 word \<Rightarrow> bytes \<Rightarrow> bytes \<Rightarrow> GCMTagCircuitIn option" where
  "tag_input_prover P mask_bytes seq aad ct = do {
     share \<leftarrow> ghash_share (pv_cgcm_share P) aad ct;
     Some \<lparr>gt_key_share = pv_client_key_share P, gt_iv = ctr_block (drop 4 (pv_client_iv P)) seq 1,
           gt_tag_share = share, gt_mask_or_unused = mask_bytes\<rparr> }"

text \<open>The ciphertext as the verifier cuts it out of the blocks it holds.\<close>

definition held_ciphertext :: "bytes list \<Rightarrow> nat \<Rightarrow> bytes" where
  "held_ciphertext blocks ct_len = map (\<lambda>i. blocks ! (i div 16) ! (i mod 16)) [0..<ct_len]"

text \<open>The whole exchange for one record: the record the prover sends to the origin, and the
  ciphertext blocks the verifier keeps.  \<open>mask_bytes\<close> is the prover's one-time mask; the verifier refuses a
  sequence number that is among its \<open>encrypted_seqs\<close>.\<close>

definition encrypt_request ::
  "(bool list \<Rightarrow> bool list) \<Rightarrow> prover \<Rightarrow> TrafficCircuitOut \<Rightarrow> bytes \<Rightarrow> 64 word list \<Rightarrow> bytes \<Rightarrow> 64 word \<Rightarrow>
     bytes \<Rightarrow> byte \<Rightarrow> (bytes \<times> bytes list) option" where
  "encrypt_request bf P k powers encrypted_seqs mask_bytes seq plaintext inner_type = do {
     let pt_len = length plaintext + 1;
     check (pt_len \<noteq> 0 \<and> pt_len \<le> SSL3_RT_MAX_PLAIN_LENGTH);
     let nblocks = (pt_len + 15) div 16;
     let nbatches = (nblocks + AES_ENC_N - 1) div AES_ENC_N;
     check (nbatches \<le> 4);
     check (seq \<notin> set encrypted_seqs);
     let inner = plaintext @ inner_type # replicate (nbatches * AES_ENC_N * 16 - pt_len) 0;
     blocks \<leftarrow> encrypt_batches bf P k seq nblocks inner nbatches;
     let ct = take pt_len (concat blocks);
     let aad = record_aad pt_len;
     tp \<leftarrow> tag_input_prover P mask_bytes seq aad ct;
     tv \<leftarrow> tag_input_verifier k powers seq aad (held_ciphertext blocks pt_len);
     out \<leftarrow> gcm_tag_output (exec_small_internal (DeriveGCMTag bf) 17 (gcm_tag_input tp) (gcm_tag_input tv));
     check (\<not> gt_cheated out);
     let tag = map (\<lambda>i. gt_tag out ! i XOR mask_bytes ! i) [0..<16];
     Some (aad @ ct @ tag, blocks) }"

section \<open>Verification of a response\<close>

text \<open>The verifier's bound on the length of a ciphertext.  A record it refuses ends the exchange, and with it
  the prover's run of the circuit.\<close>

definition ct_len_ok :: "nat \<Rightarrow> bool" where
  "ct_len_ok ct_len \<longleftrightarrow> ct_len \<noteq> 0 \<and> ct_len \<le> SSL3_RT_MAX_PLAIN_LENGTH + 1"

definition vfy_input_verifier ::
  "TrafficCircuitOut \<Rightarrow> bytes \<Rightarrow> 64 word \<Rightarrow> bytes \<Rightarrow> bytes \<Rightarrow> bytes \<Rightarrow> GCMVfyCircuitIn option" where
  "vfy_input_verifier k powers seq aad ct server_tag = do {
     share \<leftarrow> ghash_share powers aad ct;
     Some \<lparr>gv_key = tk_server_key_share k, gv_iv = gcm_j0 (tk_server_iv k) seq, gv_tag_share = share,
           gv_server_tag = server_tag\<rparr> }"

definition vfy_input_prover :: "prover \<Rightarrow> SurfRecord \<Rightarrow> GCMVfyCircuitIn option" where
  "vfy_input_prover P rec = do {
     share \<leftarrow> ghash_share (pv_sgcm_share P) (record_aad (length (sr_ciphertext rec))) (sr_ciphertext rec);
     Some \<lparr>gv_key = pv_server_key_share P, gv_iv = gcm_j0 (drop 4 (pv_server_iv P)) (sr_seq rec),
           gv_tag_share = share, gv_server_tag = sr_tag rec\<rparr> }"

text \<open>The variant with the opening of the key commitment: the prover adds its randomness, the
  verifier the digest; the other field is padding.\<close>

definition with_commitment :: "GCMVfyCircuitIn \<Rightarrow> bytes \<Rightarrow> bytes \<Rightarrow> GCMVfyCommitCircuitIn" where
  "with_commitment i r_k d_k =
     \<lparr>gv_key = gv_key i, gv_iv = gv_iv i, gv_tag_share = gv_tag_share i, gv_server_tag = gv_server_tag i,
      gv_r_k = r_k, gv_d_k = d_k\<rparr>"

definition verify_masked ::
  "(bool list \<Rightarrow> bool list) \<Rightarrow> prover \<Rightarrow> TrafficCircuitOut \<Rightarrow> bytes \<Rightarrow> SurfRecord \<Rightarrow> GCMVfyCircuitOut option" where
  "verify_masked bf P k powers rec = do {
     check (ct_len_ok (length (sr_ciphertext rec)));
     p \<leftarrow> vfy_input_prover P rec;
     v \<leftarrow> vfy_input_verifier k powers (sr_seq rec) (record_aad (length (sr_ciphertext rec))) (sr_ciphertext rec) (sr_tag rec);
     gcm_vfy_output (exec_small_internal (DeriveGCMVerify bf) 2 (gcm_vfy_input p) (gcm_vfy_input v)) }"

definition verify_committed ::
  "(bool list \<Rightarrow> bool list) \<Rightarrow> prover \<Rightarrow> TrafficCircuitOut \<Rightarrow> bytes \<Rightarrow> bytes \<Rightarrow> SurfRecord \<Rightarrow>
     GCMVfyCommitCircuitOut option" where
  "verify_committed bf P k powers d_k rec = do {
     check (ct_len_ok (length (sr_ciphertext rec)));
     p \<leftarrow> vfy_input_prover P rec;
     v \<leftarrow> vfy_input_verifier k powers (sr_seq rec) (record_aad (length (sr_ciphertext rec))) (sr_ciphertext rec) (sr_tag rec);
     gcm_vfy_commit_output (exec_small_internal (DeriveGCMVerifyCommit bf) 3
       (gcm_vfy_commit_input (with_commitment p (pv_key_commit_rand P) (replicate 32 0)))
       (gcm_vfy_commit_input (with_commitment v (replicate 16 0) d_k))) }"

definition surf_send_key_commitment :: "(bytes \<Rightarrow> bytes \<Rightarrow> bytes) \<Rightarrow> prover \<Rightarrow> bytes" where
  "surf_send_key_commitment aes P = hirose_commit_host aes (pv_key_commit_rand P) (pv_server_key_share P)"

text \<open>The prover's verdict on a record outside the rotating mode.  In TRUE mode the verifier holds the
  commitment before the first ciphertext.\<close>

definition verify_record_tag ::
  "(bytes \<Rightarrow> bytes \<Rightarrow> bytes) \<Rightarrow> (bool list \<Rightarrow> bool list) \<Rightarrow> prover \<Rightarrow> TrafficCircuitOut \<Rightarrow> bytes \<Rightarrow> SurfRecord \<Rightarrow> bool" where
  "verify_record_tag aes bf P k powers rec =
     (if pv_surf_true_mode P
      then (case verify_committed bf P k powers (surf_send_key_commitment aes P) rec of
              None \<Rightarrow> False
            | Some out \<Rightarrow> gv_tag_passed out \<and> \<not> gv_cheated out \<and> gv_key_opened out)
      else (case verify_masked bf P k powers rec of
              None \<Rightarrow> False
            | Some out \<Rightarrow> gv_tag_passed out \<and> \<not> gv_cheated out))"

section \<open>The keystream of a response\<close>

definition kNumMasks :: nat where
  "kNumMasks = 1088"

text \<open>The counter of a slot of a batch: that of its block, or for a slot behind the last block one
  with the top bit set.\<close>

definition ks_counter :: "RecordDims list \<Rightarrow> nat \<Rightarrow> nat \<Rightarrow> (64 word \<times> 32 word) option" where
  "ks_counter recs nblocks idx =
     (if idx < nblocks then resolve recs idx
      else do {
        (seq, counter) \<leftarrow> resolve recs (nblocks - 1);
        Some (seq, 0x80000000 OR word_of_nat idx) })"

definition ks_batch_ctrs :: "bytes \<Rightarrow> RecordDims list \<Rightarrow> nat \<Rightarrow> nat \<Rightarrow> bytes list option" where
  "ks_batch_ctrs iv recs nblocks batch =
     those (map (\<lambda>j. do {
       (seq, counter) \<leftarrow> ks_counter recs nblocks (batch * KS_BATCH_N + j);
       Some (ctr_block iv seq counter) }) [0..<KS_BATCH_N])"

definition ks_batch_verifier ::
  "TrafficCircuitOut \<Rightarrow> bytes \<Rightarrow> RecordDims list \<Rightarrow> nat \<Rightarrow> nat \<Rightarrow> KSBatchCircuitIn option" where
  "ks_batch_verifier k mask_commitment recs nblocks batch = do {
     ctrs \<leftarrow> ks_batch_ctrs (tk_server_iv k) recs nblocks batch;
     Some \<lparr>ks_key = tk_server_key_share k, ks_ctr = ctrs, ks_s = replicate 16 0, ks_r = replicate 16 0,
           ks_d = mask_commitment\<rparr> }"

definition ks_batch_prover :: "prover \<Rightarrow> RecordDims list \<Rightarrow> nat \<Rightarrow> nat \<Rightarrow> KSBatchCircuitIn option" where
  "ks_batch_prover P recs nblocks batch = do {
     ctrs \<leftarrow> ks_batch_ctrs (drop 4 (pv_server_iv P)) recs nblocks batch;
     Some \<lparr>ks_key = pv_server_key_share P, ks_ctr = ctrs, ks_s = pv_mask_seed P, ks_r = pv_mask_seed_key P,
           ks_d = replicate 32 0\<rparr> }"

text \<open>One batch: the prover strips its mask off the slots that are blocks of the record.  \<open>aes\<close> is
  the prover's own AES.\<close>

definition keystream_batch ::
  "(bytes \<Rightarrow> bytes \<Rightarrow> bytes) \<Rightarrow> (bool list \<Rightarrow> bool list) \<Rightarrow> prover \<Rightarrow> TrafficCircuitOut \<Rightarrow> bytes \<Rightarrow>
     RecordDims list \<Rightarrow> nat \<Rightarrow> nat \<Rightarrow> bytes list option" where
  "keystream_batch aes bf P k mask_commitment recs nblocks batch = do {
     p \<leftarrow> ks_batch_prover P recs nblocks batch;
     v \<leftarrow> ks_batch_verifier k mask_commitment recs nblocks batch;
     out \<leftarrow> ks_batch_output (exec_small_internal (DeriveKeystreamBatch bf KS_BATCH_N) (16 * KS_BATCH_N + 1)
       (ks_batch_input p) (ks_batch_input v));
     check (ks_ok out);
     Some (map (\<lambda>j. map (\<lambda>i. ks_masked out ! j ! i XOR aes (pv_mask_seed P) (ks_ctr p ! j) ! i) [0..<16])
       [0..<min KS_BATCH_N (nblocks - batch * KS_BATCH_N)]) }"

text \<open>The verifier evaluates only for sequence numbers whose tag it has verified, \<open>verified_seqs\<close>, and bounds
  the length it is told.\<close>

definition derive_keystream ::
  "(bytes \<Rightarrow> bytes \<Rightarrow> bytes) \<Rightarrow> (bool list \<Rightarrow> bool list) \<Rightarrow> prover \<Rightarrow> TrafficCircuitOut \<Rightarrow> 64 word list \<Rightarrow>
     bytes \<Rightarrow> SurfRecord \<Rightarrow> bytes list option" where
  "derive_keystream aes bf P k verified_seqs mask_commitment rec = do {
     let recs = [\<lparr>rd_seq = sr_seq rec, rd_ct_len = word_of_nat (length (sr_ciphertext rec))\<rparr>];
     let nblocks = total_blocks recs;
     check (nblocks \<noteq> 0 \<and> nblocks \<le> kNumMasks);
     check (\<forall>r \<in> set recs. ct_len_ok (unat (rd_ct_len r)));
     check (\<forall>r \<in> set recs. rd_seq r \<in> set verified_seqs);
     let nbatches = (nblocks + KS_BATCH_N - 1) div KS_BATCH_N;
     map_option concat (those (map (keystream_batch aes bf P k mask_commitment recs nblocks) [0..<nbatches])) }"

section \<open>Opening captured records\<close>

definition true_surf_open_record :: "(bytes \<Rightarrow> bytes \<Rightarrow> bytes) \<Rightarrow> bytes \<Rightarrow> bytes \<Rightarrow> SurfRecord \<Rightarrow> bytes option" where
  "true_surf_open_record aes full_key iv rec = do {
     let ct_len = length (sr_ciphertext rec);
     let recs = [\<lparr>rd_seq = sr_seq rec, rd_ct_len = word_of_nat ct_len\<rparr>];
     let nblocks = (ct_len + 15) div 16;
     pieces \<leftarrow> those (map (\<lambda>idx. do {
       (seq, counter) \<leftarrow> resolve recs idx;
       let ks = aes full_key (ctr_block (drop 4 iv) seq counter);
       let n = min 16 (ct_len - idx * 16);
       Some (map (\<lambda>j. sr_ciphertext rec ! (idx * 16 + j) XOR ks ! j) [0..<n]) }) [0..<nblocks]);
     Some (concat pieces) }"

definition strip_padding :: "bytes \<Rightarrow> bytes" where
  "strip_padding pt = rev (dropWhile (\<lambda>b. b = 0) (rev pt))"

definition surf_is_close_notify :: "bytes \<Rightarrow> bool" where
  "surf_is_close_notify pt \<longleftrightarrow>
     (let pt = strip_padding pt; n = length pt
      in n \<noteq> 0 \<and> pt ! (n - 1) = 21 \<and> n - 1 = 2 \<and> pt ! 0 = 1 \<and> pt ! 1 = 0)"

definition surf_is_key_update :: "bytes \<Rightarrow> bool" where
  "surf_is_key_update pt \<longleftrightarrow>
     (let pt = strip_padding pt; n = length pt
      in n \<noteq> 0 \<and> pt ! (n - 1) = 22 \<and> n - 1 = 5 \<and> pt ! 0 = 24 \<and> pt ! 1 = 0 \<and> pt ! 2 = 0 \<and> pt ! 3 = 1)"

text \<open>The application data of the opened records: those whose last byte is the content type 23.\<close>

definition is_app_record :: "bytes \<Rightarrow> bool" where
  "is_app_record pt \<longleftrightarrow> pt \<noteq> [] \<and> last pt = 23"

definition assemble :: "bytes list \<Rightarrow> bytes" where
  "assemble opened = concat (map butlast (filter is_app_record opened))"

text \<open>The part of the release behind the decryption: a close\_notify may only be the last record, and
  must be if \<open>require_close_notify\<close>; the handshake records go to the handshake layer, whose verdict on
  their payloads is \<open>replay\<close>.\<close>

definition is_handshake_record :: "bytes \<Rightarrow> bool" where
  "is_handshake_record pt \<longleftrightarrow> pt \<noteq> [] \<and> last pt = 22"

definition finish_release :: "(bytes list \<Rightarrow> bool) \<Rightarrow> bool \<Rightarrow> bytes list \<Rightarrow> bytes option" where
  "finish_release replay require_close_notify opened = do {
     check (\<forall>i \<in> set [0..<length opened - 1]. \<not> surf_is_close_notify (opened ! i));
     check (\<not> (require_close_notify \<and> (opened = [] \<or> \<not> surf_is_close_notify (last opened))));
     check (replay (map butlast (filter is_handshake_record opened)));
     Some (assemble opened) }"

text \<open>The verifier releases its share only when it holds a commitment: the prover has sent one earlier, or with
  the first record.\<close>

definition true_surf_release ::
  "(bytes \<Rightarrow> bytes \<Rightarrow> bytes) \<Rightarrow> (bool list \<Rightarrow> bool list) \<Rightarrow> (bytes list \<Rightarrow> bool) \<Rightarrow> prover \<Rightarrow> TrafficCircuitOut \<Rightarrow>
     bytes \<Rightarrow> bool \<Rightarrow> SurfRecord list \<Rightarrow> bytes option" where
  "true_surf_release aes bf replay P k powers require_close_notify recs = do {
     check (pv_surf_true_mode P \<and> \<not> pv_surf_key_released P);
     check (list_all (verify_record_tag aes bf P k powers) recs);
     check (pv_surf_key_committed P \<or> recs \<noteq> []);
     let kv = tk_server_key_share k;
     let full_key = map (\<lambda>i. pv_server_key_share P ! i XOR kv ! i) [0..<16];
     opened \<leftarrow> those (map (true_surf_open_record aes full_key (pv_server_iv P)) recs);
     finish_release replay require_close_notify opened }"

section \<open>The reference: AES-GCM with the nonces of TLS 1.3\<close>

definition tls_nonce :: "bytes \<Rightarrow> 64 word \<Rightarrow> bytes" where
  "tls_nonce iv seq = xor_bytes iv (replicate 4 0 @ nat_be 8 (unat seq))"

definition gctr :: "(bytes \<Rightarrow> bytes \<Rightarrow> bytes) \<Rightarrow> bytes \<Rightarrow> bytes \<Rightarrow> nat \<Rightarrow> bytes \<Rightarrow> bytes" where
  "gctr aes k nonce ctr x =
     map (\<lambda>j. x ! j XOR aes k (nonce @ nat_be 4 (ctr + j div 16)) ! (j mod 16)) [0..<length x]"

definition gcm_tag_valid :: "(bytes \<Rightarrow> bytes \<Rightarrow> bytes) \<Rightarrow> bytes \<Rightarrow> bytes \<Rightarrow> bytes \<Rightarrow> bytes \<Rightarrow> bytes \<Rightarrow> bool" where
  "gcm_tag_valid aes k nonce aad ct tag \<longleftrightarrow>
     be_block tag = be_block (aes k (nonce @ nat_be 4 1)) XOR
       gcm_ghash (be_block (aes k (replicate 16 0))) aad ct"

text \<open>Shares of the powers of \<open>H = AES\<^sub>k(0)\<close>, as the parties hold them.\<close>

definition gcm_power_shares :: "(bytes \<Rightarrow> bytes \<Rightarrow> bytes) \<Rightarrow> bytes \<Rightarrow> bytes \<Rightarrow> bytes \<Rightarrow> bool" where
  "gcm_power_shares aes k powers_v powers_p \<longleftrightarrow>
     (\<exists>v p. powers_v = blocks_to_bytes v \<and> powers_p = blocks_to_bytes p \<and>
        powers_ok (Gf (natw (be_block (aes k (replicate 16 0))))) {..<num_powers} (v, p))"

section \<open>Counter blocks and nonces\<close>

lemma ucast_drop_byte: "(ucast (drop_bit (8 * i) (w :: 'a :: len word)) :: byte) = word_of_nat (unat w div 256 ^ i)"
proof -
  have u: "unat (drop_bit (8 * i) w) = unat w div 256 ^ i"
    by (subst unat_drop_bit_eq) (simp add: drop_bit_eq_div power_mult)
  have "(ucast (drop_bit (8 * i) w) :: byte) = word_of_nat (unat (drop_bit (8 * i) w))" by simp
  then show ?thesis unfolding u .
qed

lemma ucast_drop_bytes:
  "(ucast (drop_bit 8 (w :: 'a :: len word)) :: byte) = word_of_nat (unat w div 256)"
  "(ucast (drop_bit 16 (w :: 'a :: len word)) :: byte) = word_of_nat (unat w div 256 ^ 2)"
  "(ucast (drop_bit 24 (w :: 'a :: len word)) :: byte) = word_of_nat (unat w div 256 ^ 3)"
  "(ucast (drop_bit 32 (w :: 'a :: len word)) :: byte) = word_of_nat (unat w div 256 ^ 4)"
  "(ucast (drop_bit 40 (w :: 'a :: len word)) :: byte) = word_of_nat (unat w div 256 ^ 5)"
  "(ucast (drop_bit 48 (w :: 'a :: len word)) :: byte) = word_of_nat (unat w div 256 ^ 6)"
  "(ucast (drop_bit 56 (w :: 'a :: len word)) :: byte) = word_of_nat (unat w div 256 ^ 7)"
  using ucast_drop_byte [of 1 w] ucast_drop_byte [of 2 w] ucast_drop_byte [of 3 w] ucast_drop_byte [of 4 w]
    ucast_drop_byte [of 5 w] ucast_drop_byte [of 6 w] ucast_drop_byte [of 7 w]
  by (simp_all only: mult_numeral_1_right power_one_right mult.right_neutral) simp_all

lemma nat_be_numeral:
  "nat_be (numeral k) x = word_of_nat (x div 256 ^ pred_numeral k) # nat_be (pred_numeral k) x"
  by (simp add: numeral_eq_Suc)

lemma nat_be_4_8:
  "nat_be 4 x = [word_of_nat (x div 256 ^ 3), word_of_nat (x div 256 ^ 2), word_of_nat (x div 256), word_of_nat x]"
  "nat_be 8 x = [word_of_nat (x div 256 ^ 7), word_of_nat (x div 256 ^ 6), word_of_nat (x div 256 ^ 5),
     word_of_nat (x div 256 ^ 4), word_of_nat (x div 256 ^ 3), word_of_nat (x div 256 ^ 2), word_of_nat (x div 256),
     word_of_nat x]"
  by (simp_all add: nat_be_numeral)

lemma length_12E:
  assumes "length iv = 12"
  obtains a b c d e f g h i j k l where "iv = [a, b, c, d, e, f, g, h, i, j, k, l]"
  using assms by (auto simp: numeral_eq_Suc length_Suc_conv)

lemma ctr_block_nonce:
  assumes "length iv = 12"
  shows "ctr_block iv seq c = tls_nonce iv seq @ nat_be 4 (unat c)"
proof -
  obtain x0 x1 x2 x3 x4 x5 x6 x7 x8 x9 x10 x11
    where iv: "iv = [x0, x1, x2, x3, x4, x5, x6, x7, x8, x9, x10, x11]"
    using assms by (rule length_12E)
  have r: "replicate 4 0 = [0, 0, 0, 0 :: byte]" by (simp add: eval_nat_numeral)
  have u: "(ucast w :: byte) = word_of_nat (unat w)" for w :: "'a :: len word" by simp
  show ?thesis
    unfolding ctr_block_eq tls_nonce_def nat_be_4_8 iv r ucast_drop_bytes u [of seq] u [of c]
    by (simp add: xor.commute)
qed

lemma length_tls_nonce [simp]: "length (tls_nonce iv seq) = min (length iv) 12"
  by (simp add: tls_nonce_def)

lemma length_ctr_block [simp]: "length (ctr_block iv seq c) = 16"
  by (simp add: ctr_block_eq)

lemma gcm_j0_eq:
  assumes "length iv = 12"
  shows "gcm_j0 iv seq = ctr_block iv seq 1"
proof -
  obtain x0 x1 x2 x3 x4 x5 x6 x7 x8 x9 x10 x11
    where iv: "iv = [x0, x1, x2, x3, x4, x5, x6, x7, x8, x9, x10, x11]"
    using assms by (rule length_12E)
  have r: "replicate 4 0 = [0, 0, 0, 0 :: byte]" by (simp add: eval_nat_numeral)
  have "drop_bit 8 (1 :: 32 word) = 0" "drop_bit 16 (1 :: 32 word) = 0" "drop_bit 24 (1 :: 32 word) = 0"
    by simp_all
  then show ?thesis
    unfolding ctr_block_eq iv gcm_j0_def upt_8_12 r by (simp add: update_Cons_numeral Let_def xor.commute)
qed

section \<open>Fields of a circuit input\<close>

lemma field16_concat: "\<forall>x \<in> set xs. length x = 16 \<Longrightarrow> i < length xs \<Longrightarrow> field16 i (concat xs) = xs ! i"
  using take_drop_concat [of xs 16 i] by (simp add: field16_def mult.commute)

lemma blocks16_concat:
  assumes a: "\<forall>x \<in> set xs. length x = 16" and n: "length xs = n"
  shows "blocks16 n (concat xs @ rest) = xs"
proof (rule nth_equalityI)
  fix i
  assume "i < length (blocks16 n (concat xs @ rest))"
  then have i: "i < length xs" using n by (simp add: blocks16_def)
  have "16 * length xs = length (concat xs)" using length_concat_const [OF a] by simp
  then have "i * 16 + 16 \<le> length (concat xs)" using i by simp
  then have "take 16 (drop (i * 16) (concat xs @ rest)) = take 16 (drop (i * 16) (concat xs))" by simp
  then show "blocks16 n (concat xs @ rest) ! i = xs ! i"
    using take_drop_concat [OF a i] i n by (simp add: blocks16_def)
qed (simp add: blocks16_def n)

lemma nth_concat_16:
  assumes "\<forall>x \<in> set xs. length x = 16" and "i < 16 * length xs"
  shows "concat xs ! i = xs ! (i div 16) ! (i mod 16)"
proof -
  have j: "i div 16 < length xs" using assms(2) by (simp add: less_mult_imp_div_less mult.commute)
  have "xs ! (i div 16) ! (i mod 16) = take 16 (drop (i div 16 * 16) (concat xs)) ! (i mod 16)"
    by (simp add: take_drop_concat [OF assms(1) j])
  also have "\<dots> = concat xs ! (i div 16 * 16 + i mod 16)"
    using assms length_concat_const [OF assms(1)] by (subst nth_take) auto
  finally show ?thesis by simp
qed

section \<open>Encryption\<close>

lemma aes_enc_batch_fields:
  assumes "length (ae_key x) = 16" "length (ae_ctr x) = n" "\<forall>c \<in> set (ae_ctr x). length c = 16"
    "length (ae_pt x) = n" "\<forall>c \<in> set (ae_pt x). length c = 16"
  shows "field16 0 (aes_enc_batch_input x) = ae_key x"
    and "i < n \<Longrightarrow> field16 (Suc i) (aes_enc_batch_input x) = ae_ctr x ! i"
    and "i < n \<Longrightarrow> field16 (Suc (n + i)) (aes_enc_batch_input x) = ae_pt x ! i"
    and "length (aes_enc_batch_input x) = 16 + 32 * n"
proof -
  let ?xs = "ae_key x # ae_ctr x @ ae_pt x"
  have c: "aes_enc_batch_input x = concat ?xs" by (simp add: aes_enc_batch_input_def)
  have l: "\<forall>c \<in> set ?xs. length c = 16" using assms by auto
  have n: "length ?xs = 2 * n + 1" using assms by simp
  note f = field16_concat [OF l, folded c]
  show "field16 0 (aes_enc_batch_input x) = ae_key x" using f [of 0] by simp
  show "field16 (Suc i) (aes_enc_batch_input x) = ae_ctr x ! i" if "i < n"
    using f [of "Suc i"] that assms(2,4) by (simp add: nth_append)
  show "field16 (Suc (n + i)) (aes_enc_batch_input x) = ae_pt x ! i" if "i < n"
    using f [of "Suc (n + i)"] that assms(2,4) by (simp add: nth_append)
  show "length (aes_enc_batch_input x) = 16 + 32 * n" using length_concat_const [OF l] n c by simp
qed

definition well_sized_batch :: "AESEncBatchCircuitIn \<Rightarrow> bool" where
  "well_sized_batch x \<longleftrightarrow> length (ae_key x) = 16 \<and> length (ae_ctr x) = AES_ENC_N \<and>
     (\<forall>c \<in> set (ae_ctr x). length c = 16) \<and> length (ae_pt x) = AES_ENC_N \<and> (\<forall>c \<in> set (ae_pt x). length c = 16)"

lemma aes_enc_batch_output_eq:
  assumes "\<forall>x \<in> set ct. length x = 16" "length ct = AES_ENC_N"
  shows "aes_enc_batch_output (concat ct @ [bit_byte ok]) = Some \<lparr>ae_ct = ct, ae_ok = ok\<rparr>"
proof -
  have "length (concat ct) = 16 * AES_ENC_N" using length_concat_const [OF assms(1)] assms(2) by simp
  then have "(concat ct @ [bit_byte ok]) ! (16 * AES_ENC_N) = bit_byte ok" by (metis nth_append_length)
  then show ?thesis using blocks16_concat [OF assms] by (simp add: aes_enc_batch_output_def)
qed

lemma run_enc_batch_eq:
  assumes bf: "aes_netlist bf aes" and p: "well_sized_batch p" and v: "well_sized_batch v"
    and same: "ae_ctr v = ae_ctr p"
  defines "k \<equiv> xor_bytes (ae_key p) (ae_key v)"
  shows "run_enc_batch bf p v =
     Some \<lparr>ae_ct = map (\<lambda>j. xor_bytes (aes k (ae_ctr p ! j)) (ae_pt p ! j)) [0..<AES_ENC_N], ae_ok = True\<rparr>"
proof -
  let ?n = AES_ENC_N
  note fp = aes_enc_batch_fields [of p ?n] and fv = aes_enc_batch_fields [of v ?n]
  let ?y = "\<lambda>j. xor_bytes (aes k (ae_ctr p ! j)) (ae_pt p ! j)"
  let ?ct = "map ?y [0..<?n]"
  have "length k = 16" using p v by (simp add: k_def well_sized_batch_def)
  then have "length (?y j) = 16" if "j < ?n" for j
    using aes_netlistD(1) [OF bf, of k "ae_ctr p ! j"] p that by (simp add: well_sized_batch_def)
  then have l: "\<forall>x \<in> set ?ct. length x = 16" by simp
  have m: "map (\<lambda>i. xor_bytes (aes (xor_bytes (field16 0 (aes_enc_batch_input p)) (field16 0 (aes_enc_batch_input v)))
        (field16 (Suc i) (aes_enc_batch_input p))) (field16 (Suc (?n + i)) (aes_enc_batch_input p))) [0..<?n] = ?ct"
    using fp fv p v by (intro map_cong refl) (simp add: k_def well_sized_batch_def)
  have len: "length (aes_enc_batch_input p) = 16 + 32 * ?n" "length (aes_enc_batch_input v) = 16 + 32 * ?n"
    and ok: "\<forall>i < ?n. field16 (Suc i) (aes_enc_batch_input p) = field16 (Suc i) (aes_enc_batch_input v)"
    using fp fv p v same by (simp_all add: well_sized_batch_def)
  have e: "exec_small_internal (DeriveAESEncBatch bf ?n) (16 * ?n + 1) (aes_enc_batch_input p) (aes_enc_batch_input v) =
      concat ?ct @ [bit_byte True]"
    using exec_aes_enc_batch [OF bf len] ok unfolding m by simp
  show ?thesis
    unfolding run_enc_batch_def e by (rule aes_enc_batch_output_eq [OF l]) simp
qed

lemma those_map_Some: "(\<And>x. x \<in> set xs \<Longrightarrow> f x = Some (g x)) \<Longrightarrow> those (map f xs) = Some (map g xs)"
  by (induction xs) simp_all

lemma concat_map_upt: "concat (map (\<lambda>b. map (\<lambda>j. f (b * n + j)) [0..<n]) [0..<m]) = map f [0..<m * n]"
proof (induction m)
  case (Suc m)
  have "[0..<Suc m * n] = [0..<m * n] @ map (\<lambda>j. m * n + j) [0..<n]"
    using upt_add_eq_append [of 0 "m * n" n] map_add_upt [of "m * n" n] by (simp add: add.commute)
  with Suc show ?case by simp
qed simp

text \<open>The two parties hold XOR shares of a client key and agree on the IV.\<close>

definition client_keys_agree :: "prover \<Rightarrow> TrafficCircuitOut \<Rightarrow> bool" where
  "client_keys_agree P k \<longleftrightarrow> length (pv_client_key_share P) = 16 \<and> length (tk_client_key_share k) = 16 \<and>
     length (tk_client_iv k) = 12 \<and> drop 4 (pv_client_iv P) = tk_client_iv k"

definition client_key :: "prover \<Rightarrow> TrafficCircuitOut \<Rightarrow> bytes" where
  "client_key P k = xor_bytes (pv_client_key_share P) (tk_client_key_share k)"

definition enc_block :: "(bytes \<Rightarrow> bytes \<Rightarrow> bytes) \<Rightarrow> bytes \<Rightarrow> bytes \<Rightarrow> 64 word \<Rightarrow> nat \<Rightarrow> bytes \<Rightarrow> nat \<Rightarrow> bytes" where
  "enc_block aes key iv seq nblocks inner idx =
     xor_bytes (aes key (ctr_block iv seq (word_of_nat (if idx < nblocks then idx else nblocks - 1) + 2)))
       (take 16 (drop (idx * 16) inner))"

lemma AES_ENC_N_pos [simp]: "0 < AES_ENC_N"
  by (simp add: AES_ENC_N_def)

lemma length_client_key: "client_keys_agree P k \<Longrightarrow> length (client_key P k) = 16"
  by (simp add: client_keys_agree_def client_key_def)

lemma enc_batches_sized:
  assumes "client_keys_agree P k" and "length inner = nbatches * AES_ENC_N * 16" and "batch < nbatches"
  shows "well_sized_batch (enc_batch_prover P seq nblocks inner batch)"
    and "well_sized_batch (enc_batch_verifier k seq nblocks batch)"
    and "ae_ctr (enc_batch_verifier k seq nblocks batch) = ae_ctr (enc_batch_prover P seq nblocks inner batch)"
proof -
  have "length (take 16 (drop ((batch * AES_ENC_N + j) * 16) inner)) = 16" if "j < AES_ENC_N" for j
  proof -
    have "batch * AES_ENC_N + AES_ENC_N \<le> nbatches * AES_ENC_N"
      using mult_le_mono1 [of "Suc batch" nbatches AES_ENC_N] assms(3) by (simp add: add.commute)
    then have "(batch * AES_ENC_N + j) * 16 + 16 \<le> length inner" using that assms(2) by simp
    then show ?thesis by simp
  qed
  then show "well_sized_batch (enc_batch_prover P seq nblocks inner batch)"
    using assms(1) by (auto simp: well_sized_batch_def enc_batch_prover_def client_keys_agree_def Let_def)
  show "well_sized_batch (enc_batch_verifier k seq nblocks batch)"
    using assms(1) by (auto simp: well_sized_batch_def enc_batch_verifier_def client_keys_agree_def Let_def)
  show "ae_ctr (enc_batch_verifier k seq nblocks batch) = ae_ctr (enc_batch_prover P seq nblocks inner batch)"
    using assms(1) by (simp add: enc_batch_prover_def enc_batch_verifier_def client_keys_agree_def)
qed

lemma encrypt_batches_eq:
  assumes bf: "aes_netlist bf aes" and keys: "client_keys_agree P k"
    and len: "length inner = nbatches * AES_ENC_N * 16"
  shows "encrypt_batches bf P k seq nblocks inner nbatches =
     Some (map (enc_block aes (client_key P k) (tk_client_iv k) seq nblocks inner) [0..<nbatches * AES_ENC_N])"
proof -
  let ?f = "enc_block aes (client_key P k) (tk_client_iv k) seq nblocks inner"
  have "run_enc_batch bf (enc_batch_prover P seq nblocks inner batch) (enc_batch_verifier k seq nblocks batch) =
      Some \<lparr>ae_ct = map (\<lambda>j. ?f (batch * AES_ENC_N + j)) [0..<AES_ENC_N], ae_ok = True\<rparr>" if b: "batch < nbatches" for batch
    unfolding run_enc_batch_eq [OF bf enc_batches_sized [OF keys len b]]
    using keys by (auto simp: enc_block_def enc_batch_prover_def enc_batch_verifier_def client_key_def
        client_keys_agree_def Let_def)
  then have "those (map (\<lambda>batch. do {
       out \<leftarrow> run_enc_batch bf (enc_batch_prover P seq nblocks inner batch) (enc_batch_verifier k seq nblocks batch);
       check (ae_ok out);
       Some (ae_ct out) }) [0..<nbatches]) = Some (map (\<lambda>b. map (\<lambda>j. ?f (b * AES_ENC_N + j)) [0..<AES_ENC_N]) [0..<nbatches])"
    by (intro those_map_Some) simp
  then show ?thesis by (simp add: encrypt_batches_def concat_map_upt)
qed

lemma held_ciphertext_eq:
  assumes "\<forall>x \<in> set blocks. length x = 16" and "n \<le> 16 * length blocks"
  shows "held_ciphertext blocks n = take n (concat blocks)"
  using assms length_concat_const [OF assms(1)]
  by (intro nth_equalityI) (simp_all add: held_ciphertext_def nth_concat_16)

lemma nblocks_bounds:
  assumes "0 < n"
  defines "nblocks \<equiv> (n + 15) div 16"
  defines "nbatches \<equiv> (nblocks + AES_ENC_N - 1) div AES_ENC_N"
  shows "0 < nblocks" "16 * (nblocks - 1) < n" "n \<le> 16 * nblocks" "nblocks \<le> nbatches * AES_ENC_N"
    and "n \<le> nbatches * AES_ENC_N * 16"
proof -
  show 1: "0 < nblocks" "16 * (nblocks - 1) < n" "n \<le> 16 * nblocks" using assms(1) by (simp_all add: nblocks_def)
  show 2: "nblocks \<le> nbatches * AES_ENC_N" by (simp add: nbatches_def AES_ENC_N_def)
  have "16 * nblocks \<le> 16 * (nbatches * AES_ENC_N)" by (rule mult_le_mono2 [OF 2])
  with 1(3) show "n \<le> nbatches * AES_ENC_N * 16" by simp
qed

text \<open>The ciphertext is CTR encryption with the counters of GCM.\<close>

lemma enc_blocks_gctr:
  fixes seq :: "64 word"
  assumes bf: "aes_netlist bf aes" and key: "length key = 16" and iv: "length iv = 12"
    and nb: "nblocks = (length pt + 15) div 16" and tot: "nblocks \<le> m" and lt: "length pt \<le> 2 ^ 16"
    and inner: "inner = pt @ replicate (m * 16 - length pt) 0"
  defines "blocks \<equiv> map (enc_block aes key iv seq nblocks inner) [0..<m]"
  shows "\<forall>b \<in> set blocks. length b = 16"
    and "take (length pt) (concat blocks) = gctr aes key (tls_nonce iv seq) 2 pt"
proof -
  have le: "length pt \<le> m * 16" using nb tot by linarith
  then have li: "length inner = m * 16" by (simp add: inner)
  have e: "length (aes key (ctr_block iv seq c)) = 16" for c
    using aes_netlistD(1) [OF bf key] by simp
  have "length (enc_block aes key iv seq nblocks inner idx) = 16" if "idx < m" for idx
  proof -
    have "idx * 16 + 16 \<le> length inner" using that li by simp
    then show ?thesis using e by (simp add: enc_block_def)
  qed
  then show l: "\<forall>b \<in> set blocks. length b = 16" by (auto simp: blocks_def)
  have lb: "length blocks = m" by (simp add: blocks_def)
  have lc: "length (concat blocks) = 16 * m" using length_concat_const [OF l] lb by simp
  show "take (length pt) (concat blocks) = gctr aes key (tls_nonce iv seq) 2 pt"
  proof (rule nth_equalityI)
    fix i
    assume "i < length (take (length pt) (concat blocks))"
    then have i: "i < length pt" "i < 16 * m" using lc by simp_all
    have q: "i div 16 < nblocks" "i div 16 < m" using i nb tot by simp_all
    have mi: "i mod 16 < length inner - i div 16 * 16" using i li by (simp add: less_diff_conv)
    have c: "unat (word_of_nat (i div 16) + 2 :: 32 word) = i div 16 + 2"
      using unat_small_plus_2 [of "i div 16"] i lt by simp
    have "concat blocks ! i = blocks ! (i div 16) ! (i mod 16)"
      using nth_concat_16 [OF l] i lb by simp
    also have "\<dots> = enc_block aes key iv seq nblocks inner (i div 16) ! (i mod 16)"
      using q by (simp add: blocks_def)
    also have "\<dots> = aes key (ctr_block iv seq (word_of_nat (i div 16) + 2)) ! (i mod 16) XOR inner ! i"
      using q mi e by (simp add: enc_block_def)
    also have "inner ! i = pt ! i" using i by (simp add: inner nth_append)
    finally show "take (length pt) (concat blocks) ! i = gctr aes key (tls_nonce iv seq) 2 pt ! i"
      using i c by (simp add: gctr_def ctr_block_nonce [OF iv] xor.commute)
  qed (simp add: gctr_def lc le mult.commute)
qed

lemma be_block_xor:
  assumes "length a = 16" "length b = 16"
  shows "be_block (xor_bytes a b) = be_block a XOR be_block b"
  using assms by (simp add: be_block_nat nat_block_xor natw_xor)

lemma be_block_inject:
  assumes "length a = 16" "length b = 16"
  shows "be_block a = be_block b \<longleftrightarrow> a = b"
proof
  assume "be_block a = be_block b"
  then have "nat_block a = nat_block b" using assms by (metis be_block_nat natw_twice)
  then show "a = b" using assms
    by (metis nat_block_def bitrev_twice length_bitrev block_to_arr_to_block)
qed simp

text \<open>The lengths of the header's block and of the ciphertext stay within the powers the parties hold.\<close>

lemma length_record_aad [simp]: "length (record_aad n) = 5"
  by (simp add: record_aad_def Let_def)

lemma record_aad_blocks: "n \<le> SSL3_RT_MAX_PLAIN_LENGTH \<Longrightarrow> length ct = n \<Longrightarrow>
    aad_blocks (record_aad n) + aad_blocks ct + 1 \<le> kMaxPowers"
  by (simp add: aad_blocks_def kMaxPowers_def SSL3_RT_MAX_PLAIN_LENGTH_def)

lemma length_ghash_share: "ghash_share powers aad ct = Some s \<Longrightarrow> length s = 16"
  by (auto simp: ghash_share_def Let_def split: if_splits)

text \<open>What the tag circuits compute on the shares is the tag of GCM.\<close>

lemma tag_value_gcm:
  assumes bf: "aes_netlist bf aes" and k: "length key = 16" and iv: "length iv = 12"
    and g: "gcm_power_shares aes key powers_v powers_p"
    and n: "aad_blocks aad + aad_blocks ct + 1 \<le> kMaxPowers"
  obtains sv sp where "ghash_share powers_v aad ct = Some sv" "ghash_share powers_p aad ct = Some sp"
    and "length sv = 16" "length sp = 16"
    and "\<And>tag. length tag = 16 \<Longrightarrow>
      xor_bytes (aes key (ctr_block iv seq 1)) (xor_bytes sp sv) = tag \<longleftrightarrow>
      gcm_tag_valid aes key (tls_nonce iv seq) aad ct tag"
proof -
  let ?h = "be_block (aes key (replicate 16 0))"
  obtain v p where vp: "powers_v = blocks_to_bytes v" "powers_p = blocks_to_bytes p"
    "powers_ok (Gf (natw ?h)) {..<num_powers} (v, p)"
    using g by (auto simp: gcm_power_shares_def)
  obtain sv sp where s: "ghash_share powers_v aad ct = Some sv" "ghash_share powers_p aad ct = Some sp"
    "be_block (xor_bytes sv sp) = gcm_ghash ?h aad ct"
    using ghash_shares [OF n vp(3)] vp(1,2) by auto
  note l = length_ghash_share [OF s(1)] length_ghash_share [OF s(2)]
  have e: "length (aes key (ctr_block iv seq 1)) = 16" using aes_netlistD(1) [OF bf k] by simp
  have c: "ctr_block iv seq 1 = tls_nonce iv seq @ nat_be 4 1" using ctr_block_nonce [OF iv, of seq 1] by simp
  have "xor_bytes (aes key (ctr_block iv seq 1)) (xor_bytes sp sv) = tag \<longleftrightarrow>
      gcm_tag_valid aes key (tls_nonce iv seq) aad ct tag" if "length tag = 16" for tag
  proof -
    have "xor_bytes (aes key (ctr_block iv seq 1)) (xor_bytes sp sv) = tag \<longleftrightarrow>
        be_block (xor_bytes (aes key (ctr_block iv seq 1)) (xor_bytes sp sv)) = be_block tag"
      using be_block_inject that e l by simp
    also have "be_block (xor_bytes (aes key (ctr_block iv seq 1)) (xor_bytes sp sv)) =
        be_block (aes key (ctr_block iv seq 1)) XOR gcm_ghash ?h aad ct"
      using e l s(3) by (simp add: be_block_xor xor.commute)
    finally show ?thesis by (auto simp: gcm_tag_valid_def c)
  qed
  then show thesis using that s l by blast
qed

text \<open>The fields of a 64-byte input.\<close>

lemma field16_four:
  assumes "length a = 16" "length b = 16" "length c = 16" "length d = 16"
  shows "field16 0 (a @ b @ c @ d) = a" "field16 1 (a @ b @ c @ d) = b" "field16 2 (a @ b @ c @ d) = c"
    "field16 3 (a @ b @ c @ d) = d" "field16 4 (a @ b @ c @ d @ e @ f) = take 16 (e @ f)"
    "field16 0 (a @ b @ c @ d @ g) = a" "field16 1 (a @ b @ c @ d @ g) = b" "field16 2 (a @ b @ c @ d @ g) = c"
    "field16 3 (a @ b @ c @ d @ g) = d"
    "field16 (Suc 0) (a @ b @ c @ d) = b" "field16 (Suc 0) (a @ b @ c @ d @ g) = b"
  using assms by (simp_all add: field16_def)

lemma bit_byte_verdict [simp]: "repeated_bit (bit_byte b)" "bit_byte b = 0 \<longleftrightarrow> \<not> b"
  by (simp_all add: repeated_bit_def bit_byte_def)

lemma nth_xor_16: "length x = 16 \<Longrightarrow> length y = 16 \<Longrightarrow> map (\<lambda>i. x ! i XOR y ! i) [0..<16] = xor_bytes x y"
  by (intro nth_equalityI) simp_all

lemma xor_bytes_cancel: "length x = length y \<Longrightarrow> xor_bytes (xor_bytes x y) y = x"
  by (intro nth_equalityI) (simp_all add: xor.assoc)

lemma run_gcm_tag:
  assumes bf: "aes_netlist bf aes"
    and p: "length (gt_key_share p) = 16" "length (gt_iv p) = 16" "length (gt_tag_share p) = 16" "length (gt_mask_or_unused p) = 16"
    and v: "length (gt_key_share v) = 16" "gt_iv v = gt_iv p" "length (gt_tag_share v) = 16" "length (gt_mask_or_unused v) = 16"
  shows "gcm_tag_output (exec_small_internal (DeriveGCMTag bf) 17 (gcm_tag_input p) (gcm_tag_input v)) =
     Some \<lparr>gt_cheated = False, gt_tag = xor_bytes
       (xor_bytes (aes (xor_bytes (gt_key_share p) (gt_key_share v)) (gt_iv p)) (xor_bytes (gt_tag_share p) (gt_tag_share v)))
       (gt_mask_or_unused p)\<rparr>"
proof -
  have l: "length (gcm_tag_input p) = 64" "length (gcm_tag_input v) = 64"
    using p v by (simp_all add: gcm_tag_input_def)
  have f: "field16 0 (gcm_tag_input p) = gt_key_share p" "field16 1 (gcm_tag_input p) = gt_iv p"
    "field16 2 (gcm_tag_input p) = gt_tag_share p" "field16 3 (gcm_tag_input p) = gt_mask_or_unused p"
    "field16 0 (gcm_tag_input v) = gt_key_share v" "field16 1 (gcm_tag_input v) = gt_iv p"
    "field16 2 (gcm_tag_input v) = gt_tag_share v"
    unfolding gcm_tag_input_def using p v by (simp_all only: field16_four)
  show ?thesis
    unfolding exec_gcm_tag [OF bf l] tag_value_def f by (simp add: gcm_tag_output_def)
qed

text \<open>The sizes that the loops of a request use.\<close>

definition enc_nblocks :: "nat \<Rightarrow> nat" where
  "enc_nblocks n = (n + 15) div 16"

definition enc_total :: "nat \<Rightarrow> nat" where
  "enc_total n = (enc_nblocks n + AES_ENC_N - 1) div AES_ENC_N * AES_ENC_N"

text \<open>The ciphertext blocks of a request.\<close>

definition request_blocks ::
  "(bytes \<Rightarrow> bytes \<Rightarrow> bytes) \<Rightarrow> bytes \<Rightarrow> bytes \<Rightarrow> 64 word \<Rightarrow> bytes \<Rightarrow> bytes list" where
  "request_blocks aes key iv seq pt =
     map (enc_block aes key iv seq (enc_nblocks (length pt)) (pt @ replicate (enc_total (length pt) * 16 - length pt) 0))
       [0..<enc_total (length pt)]"

lemma encrypt_request_gcm:
  fixes seq :: "64 word" and inner_type :: byte
  assumes bf: "aes_netlist bf aes" and keys: "client_keys_agree P k"
    and g: "gcm_power_shares aes (client_key P k) powers (pv_cgcm_share P)"
    and mask: "length mask_bytes = 16" and short: "length plaintext < 1024" and fresh: "seq \<notin> set encrypted_seqs"
  defines "pt \<equiv> plaintext @ [inner_type]" and "nonce \<equiv> tls_nonce (tk_client_iv k) seq"
  defines "aad \<equiv> record_aad (length pt)" and "ct \<equiv> gctr aes (client_key P k) nonce 2 pt"
  shows "\<exists>tag. length tag = 16 \<and> gcm_tag_valid aes (client_key P k) nonce aad ct tag \<and>
     encrypt_request bf P k powers encrypted_seqs mask_bytes seq plaintext inner_type =
       Some (aad @ ct @ tag, request_blocks aes (client_key P k) (tk_client_iv k) seq pt)"
proof -
  let ?n = "length pt" and ?key = "client_key P k"
  let ?nb = "(enc_nblocks ?n + AES_ENC_N - 1) div AES_ENC_N"
  let ?inner = "pt @ replicate (enc_total ?n * 16 - ?n) 0"
  let ?blocks = "request_blocks aes ?key (tk_client_iv k) seq pt"
  have n: "0 < ?n" "?n \<le> 1024" using short by (simp_all add: pt_def)
  then have nb: "?nb \<le> 4" by (simp add: enc_nblocks_def AES_ENC_N_def)
  have tot: "enc_nblocks ?n \<le> enc_total ?n" "?n \<le> enc_total ?n * 16"
    using nblocks_bounds [OF n(1)] by (simp_all add: enc_nblocks_def enc_total_def)
  have key: "length ?key = 16" and iv: "length (tk_client_iv k) = 12"
    using keys by (simp_all add: client_keys_agree_def length_client_key)
  have li: "length ?inner = ?nb * AES_ENC_N * 16" using tot(2) by (simp add: enc_total_def)
  have b: "encrypt_batches bf P k seq (enc_nblocks ?n) ?inner ?nb = Some ?blocks"
    using encrypt_batches_eq [OF bf keys li] by (simp add: request_blocks_def enc_total_def)
  have ct: "\<forall>x \<in> set ?blocks. length x = 16" "take ?n (concat ?blocks) = ct"
    using enc_blocks_gctr [OF bf key iv enc_nblocks_def tot(1) _ refl, of seq] n(2)
    by (simp_all add: request_blocks_def ct_def nonce_def)
  have held: "held_ciphertext ?blocks ?n = ct"
    using held_ciphertext_eq [OF ct(1)] ct(2) tot(2) by (simp add: request_blocks_def mult.commute)
  have "aad_blocks aad + aad_blocks ct + 1 \<le> kMaxPowers"
    unfolding aad_def using n(2) by (intro record_aad_blocks) (simp_all add: ct_def gctr_def SSL3_RT_MAX_PLAIN_LENGTH_def)
  from tag_value_gcm [OF bf key iv g this, of seq] obtain sv sp where
    s: "ghash_share powers aad ct = Some sv" "ghash_share (pv_cgcm_share P) aad ct = Some sp" "length sv = 16" "length sp = 16"
      and val: "\<And>tag. length tag = 16 \<Longrightarrow>
        xor_bytes (aes ?key (ctr_block (tk_client_iv k) seq 1)) (xor_bytes sp sv) = tag \<longleftrightarrow> gcm_tag_valid aes ?key nonce aad ct tag"
    by (metis nonce_def)
  define tag where "tag = xor_bytes (aes ?key (ctr_block (tk_client_iv k) seq 1)) (xor_bytes sp sv)"
  have lt: "length tag = 16" using aes_netlistD(1) [OF bf key] s by (simp add: tag_def)
  let ?tp = "\<lparr>gt_key_share = pv_client_key_share P, gt_iv = ctr_block (drop 4 (pv_client_iv P)) seq 1,
      gt_tag_share = sp, gt_mask_or_unused = mask_bytes\<rparr>"
  let ?tv = "\<lparr>gt_key_share = tk_client_key_share k, gt_iv = ctr_block (tk_client_iv k) seq 1,
      gt_tag_share = sv, gt_mask_or_unused = replicate 16 0\<rparr>"
  have inputs: "tag_input_prover P mask_bytes seq aad ct = Some ?tp" "tag_input_verifier k powers seq aad ct = Some ?tv"
    using s by (simp_all add: tag_input_prover_def tag_input_verifier_def)
  have run: "gcm_tag_output (exec_small_internal (DeriveGCMTag bf) 17 (gcm_tag_input ?tp) (gcm_tag_input ?tv)) =
      Some \<lparr>gt_cheated = False, gt_tag = xor_bytes tag mask_bytes\<rparr>"
    using run_gcm_tag [OF bf, of ?tp ?tv] keys mask s by (simp add: client_keys_agree_def client_key_def tag_def)
  have "map (\<lambda>i. xor_bytes tag mask_bytes ! i XOR mask_bytes ! i) [0..<16] = tag"
    using nth_xor_16 [of "xor_bytes tag mask_bytes" mask_bytes] lt mask by (simp add: xor_bytes_cancel)
  moreover have len: "length plaintext + 1 = ?n" and app: "plaintext @ inner_type # r = pt @ r" for r
    by (simp_all add: pt_def)
  moreover have "check (?n \<noteq> 0 \<and> ?n \<le> SSL3_RT_MAX_PLAIN_LENGTH) = Some ()" "check (?nb \<le> 4) = Some ()"
      "check (seq \<notin> set encrypted_seqs) = Some ()"
    using n nb fresh by (simp_all add: SSL3_RT_MAX_PLAIN_LENGTH_def)
  ultimately have "encrypt_request bf P k powers encrypted_seqs mask_bytes seq plaintext inner_type = Some (aad @ ct @ tag, ?blocks)"
    unfolding encrypt_request_def Let_def len app enc_nblocks_def [symmetric] enc_total_def [symmetric]
      b by (simp add: held ct(2) inputs run aad_def [symmetric])
  with lt val [OF lt] show ?thesis by (auto simp: tag_def)
qed

section \<open>Verification\<close>

definition server_keys_agree :: "prover \<Rightarrow> TrafficCircuitOut \<Rightarrow> bool" where
  "server_keys_agree P k \<longleftrightarrow> length (pv_server_key_share P) = 16 \<and> length (tk_server_key_share k) = 16 \<and>
     length (tk_server_iv k) = 12 \<and> drop 4 (pv_server_iv P) = tk_server_iv k"

definition server_key :: "prover \<Rightarrow> TrafficCircuitOut \<Rightarrow> bytes" where
  "server_key P k = xor_bytes (pv_server_key_share P) (tk_server_key_share k)"

lemma length_server_key: "server_keys_agree P k \<Longrightarrow> length (server_key P k) = 16"
  by (simp add: server_keys_agree_def server_key_def)

text \<open>A record whose GHASH the parties have enough powers for.\<close>

definition record_fits :: "SurfRecord \<Rightarrow> bool" where
  "record_fits rec \<longleftrightarrow> length (sr_ciphertext rec) \<le> 16 * 1086 \<and> length (sr_tag rec) = 16"

definition record_valid :: "(bytes \<Rightarrow> bytes \<Rightarrow> bytes) \<Rightarrow> bytes \<Rightarrow> bytes \<Rightarrow> SurfRecord \<Rightarrow> bool" where
  "record_valid aes key iv rec \<longleftrightarrow>
     gcm_tag_valid aes key (tls_nonce iv (sr_seq rec)) (record_aad (length (sr_ciphertext rec))) (sr_ciphertext rec) (sr_tag rec)"

lemma ct_len_ok_iff: "ct_len_ok n \<longleftrightarrow> 0 < n \<and> n \<le> 16385"
  by (auto simp: ct_len_ok_def SSL3_RT_MAX_PLAIN_LENGTH_def)

lemma ct_len_ok_fits: "ct_len_ok (length (sr_ciphertext rec)) \<Longrightarrow> length (sr_tag rec) = 16 \<Longrightarrow> record_fits rec"
  by (simp add: ct_len_ok_def record_fits_def SSL3_RT_MAX_PLAIN_LENGTH_def)

lemma vfy_inputs:
  assumes bf: "aes_netlist bf aes" and keys: "server_keys_agree P k"
    and g: "gcm_power_shares aes (server_key P k) powers (pv_sgcm_share P)" and fits: "record_fits rec"
  obtains p v where "vfy_input_prover P rec = Some p"
    and "vfy_input_verifier k powers (sr_seq rec) (record_aad (length (sr_ciphertext rec))) (sr_ciphertext rec) (sr_tag rec) = Some v"
    and "gv_key p = pv_server_key_share P" "gv_key v = tk_server_key_share k"
    and "gv_iv p = gv_iv v" "length (gv_iv v) = 16" "gv_server_tag p = sr_tag rec" "gv_server_tag v = sr_tag rec"
    and "length (gv_tag_share p) = 16" "length (gv_tag_share v) = 16"
    and "xor_bytes (aes (server_key P k) (gv_iv v)) (xor_bytes (gv_tag_share p) (gv_tag_share v)) = sr_tag rec \<longleftrightarrow>
      record_valid aes (server_key P k) (tk_server_iv k) rec"
proof -
  let ?ct = "sr_ciphertext rec" and ?key = "server_key P k"
  have iv: "length (tk_server_iv k) = 12" using keys by (simp add: server_keys_agree_def)
  note key = length_server_key [OF keys]
  have n: "aad_blocks (record_aad (length ?ct)) + aad_blocks ?ct + 1 \<le> kMaxPowers"
    using fits div_le_mono [of "length ?ct + 15" "17376 + 15" 16]
    by (simp add: record_fits_def aad_blocks_def kMaxPowers_def)
  obtain sv sp where s: "ghash_share powers (record_aad (length ?ct)) ?ct = Some sv"
    "ghash_share (pv_sgcm_share P) (record_aad (length ?ct)) ?ct = Some sp" "length sv = 16" "length sp = 16"
    and val: "\<And>tag. length tag = 16 \<Longrightarrow>
      xor_bytes (aes ?key (ctr_block (tk_server_iv k) (sr_seq rec) 1)) (xor_bytes sp sv) = tag \<longleftrightarrow>
      gcm_tag_valid aes ?key (tls_nonce (tk_server_iv k) (sr_seq rec)) (record_aad (length ?ct)) ?ct tag"
    using tag_value_gcm [OF bf key iv g n] by metis
  show thesis
    by (rule that [of "\<lparr>gv_key = pv_server_key_share P, gv_iv = gcm_j0 (drop 4 (pv_server_iv P)) (sr_seq rec),
           gv_tag_share = sp, gv_server_tag = sr_tag rec\<rparr>"
        "\<lparr>gv_key = tk_server_key_share k, gv_iv = gcm_j0 (tk_server_iv k) (sr_seq rec), gv_tag_share = sv,
           gv_server_tag = sr_tag rec\<rparr>"])
       (use s val [of "sr_tag rec"] keys fits in \<open>simp_all add: vfy_input_prover_def vfy_input_verifier_def
          server_keys_agree_def gcm_j0_eq [OF iv] record_fits_def record_valid_def\<close>)
qed

lemma verify_masked_iff:
  assumes bf: "aes_netlist bf aes" and keys: "server_keys_agree P k"
    and g: "gcm_power_shares aes (server_key P k) powers (pv_sgcm_share P)" and fits: "record_fits rec"
    and ok: "ct_len_ok (length (sr_ciphertext rec))"
  shows "verify_masked bf P k powers rec =
     Some \<lparr>gv_tag_passed = record_valid aes (server_key P k) (tk_server_iv k) rec, gv_cheated = False\<rparr>"
proof -
  obtain p v where *: "vfy_input_prover P rec = Some p"
    "vfy_input_verifier k powers (sr_seq rec) (record_aad (length (sr_ciphertext rec))) (sr_ciphertext rec) (sr_tag rec) = Some v"
    "gv_key p = pv_server_key_share P" "gv_key v = tk_server_key_share k"
    "gv_iv p = gv_iv v" "length (gv_iv v) = 16" "gv_server_tag p = sr_tag rec" "gv_server_tag v = sr_tag rec"
    "length (gv_tag_share p) = 16" "length (gv_tag_share v) = 16"
    "xor_bytes (aes (server_key P k) (gv_iv v)) (xor_bytes (gv_tag_share p) (gv_tag_share v)) = sr_tag rec \<longleftrightarrow>
      record_valid aes (server_key P k) (tk_server_iv k) rec"
    by (rule vfy_inputs [OF bf keys g fits])
  have l: "length (pv_server_key_share P) = 16" "length (tk_server_key_share k) = 16" "length (sr_tag rec) = 16"
    using keys fits by (simp_all add: server_keys_agree_def record_fits_def)
  have len: "length (gcm_vfy_input p) = 64" "length (gcm_vfy_input v) = 64"
    using * l by (simp_all add: gcm_vfy_input_def)
  have "exec_small_internal (DeriveGCMVerify bf) 2 (gcm_vfy_input p) (gcm_vfy_input v) =
      [bit_byte (record_valid aes (server_key P k) (tk_server_iv k) rec), bit_byte True]"
    unfolding exec_gcm_verify [OF bf len] tag_value_def
    using * l by (simp add: gcm_vfy_input_def field16_four server_key_def [symmetric])
  then show ?thesis
    using * ok by (simp add: verify_masked_def gcm_vfy_output_def)
qed

text \<open>With the commitment, the verdict is the conjunction of the tag and the opening.\<close>

lemma verify_committed_iff:
  assumes bf: "aes_netlist bf aes" and keys: "server_keys_agree P k"
    and g: "gcm_power_shares aes (server_key P k) powers (pv_sgcm_share P)" and fits: "record_fits rec"
    and ok: "ct_len_ok (length (sr_ciphertext rec))" and c: "length (pv_key_commit_rand P) = 16" "length d_k = 32"
  defines "opened \<equiv> hirose_commit_host aes (pv_key_commit_rand P) (pv_server_key_share P) = d_k"
  shows "verify_committed bf P k powers d_k rec =
     Some \<lparr>gv_tag_passed = (record_valid aes (server_key P k) (tk_server_iv k) rec \<and> opened), gv_cheated = False,
           gv_key_opened = opened\<rparr>"
proof -
  obtain p v where *: "vfy_input_prover P rec = Some p"
    "vfy_input_verifier k powers (sr_seq rec) (record_aad (length (sr_ciphertext rec))) (sr_ciphertext rec) (sr_tag rec) = Some v"
    "gv_key p = pv_server_key_share P" "gv_key v = tk_server_key_share k"
    "gv_iv p = gv_iv v" "length (gv_iv v) = 16" "gv_server_tag p = sr_tag rec" "gv_server_tag v = sr_tag rec"
    "length (gv_tag_share p) = 16" "length (gv_tag_share v) = 16"
    "xor_bytes (aes (server_key P k) (gv_iv v)) (xor_bytes (gv_tag_share p) (gv_tag_share v)) = sr_tag rec \<longleftrightarrow>
      record_valid aes (server_key P k) (tk_server_iv k) rec"
    by (rule vfy_inputs [OF bf keys g fits])
  have l: "length (pv_server_key_share P) = 16" "length (tk_server_key_share k) = 16" "length (sr_tag rec) = 16"
    using keys fits by (simp_all add: server_keys_agree_def record_fits_def)
  let ?p = "with_commitment p (pv_key_commit_rand P) (replicate 32 0)" and ?v = "with_commitment v (replicate 16 0) d_k"
  have len: "length (gcm_vfy_commit_input ?p) = 112" "length (gcm_vfy_commit_input ?v) = 112"
    using * l c by (simp_all add: gcm_vfy_commit_input_def with_commitment_def)
  have u: "[0..<3] = [0, 1, 2 :: nat]" by (simp add: upt_rec)
  have "exec_small_internal (DeriveGCMVerifyCommit bf) 3 (gcm_vfy_commit_input ?p) (gcm_vfy_commit_input ?v) =
      [bit_byte (record_valid aes (server_key P k) (tk_server_iv k) rec \<and> opened), bit_byte True, bit_byte opened]"
    unfolding exec_gcm_verify_commit [OF bf len] tag_value_def
    using * l c by (simp add: gcm_vfy_commit_input_def with_commitment_def field16_four server_key_def [symmetric] opened_def)
  then show ?thesis
    using * ok by (simp add: verify_committed_def gcm_vfy_commit_output_def u)
qed

section \<open>Tail padding\<close>

text \<open>The slots behind the last block of a request repeat its counter on a zero plaintext, so a
  party that sees the blocks learns the last block.\<close>

lemma tail_padding:
  fixes iv :: bytes and seq :: "64 word"
  assumes bf: "aes_netlist bf aes" and key: "length key = 16" and pt: "pt \<noteq> []"
    and part: "enc_nblocks (length pt) mod AES_ENC_N \<noteq> 0"
  defines "n \<equiv> enc_nblocks (length pt)" and "blocks \<equiv> request_blocks aes key iv seq pt"
  shows "n < length blocks"
    and "xor_bytes (blocks ! (n - 1)) (blocks ! n) = take 16 (drop (16 * (n - 1)) pt @ replicate 16 0)"
proof -
  let ?m = "enc_total (length pt)" and ?inner = "pt @ replicate (enc_total (length pt) * 16 - length pt) 0"
  have b: "0 < n" "16 * (n - 1) < length pt" "length pt \<le> 16 * n" "n \<le> ?m"
    using nblocks_bounds [of "length pt"] pt by (simp_all add: n_def enc_nblocks_def enc_total_def)
  have "?m mod AES_ENC_N = 0" by (simp add: enc_total_def)
  then have lt: "n < ?m" using b(4) part by (metis n_def order_le_less)
  then show l: "n < length blocks" by (simp add: blocks_def request_blocks_def)
  have "16 * Suc n \<le> 16 * ?m" using lt by (intro mult_le_mono2) simp
  then have R: "16 \<le> ?m * 16 - 16 * n" "16 \<le> ?m * 16 - length pt" using b(3) by simp_all
  let ?ks = "aes key (ctr_block iv seq (word_of_nat (n - 1) + 2))"
  have ks: "length ?ks = 16" using aes_netlistD(1) [OF bf key] by simp
  have last: "take 16 (drop ((n - 1) * 16) ?inner) = take 16 (drop (16 * (n - 1)) pt @ replicate 16 0)"
    using b R by (simp add: mult.commute min_def)
  have pad: "take 16 (drop (n * 16) ?inner) = replicate 16 0"
    using b R lt by (simp add: mult.commute)
  have e: "blocks ! (n - 1) = xor_bytes ?ks (take 16 (drop ((n - 1) * 16) ?inner))"
    "blocks ! n = xor_bytes ?ks (take 16 (drop (n * 16) ?inner))"
    using lt b(1) by (simp_all add: blocks_def request_blocks_def enc_block_def n_def)
  show "xor_bytes (blocks ! (n - 1)) (blocks ! n) = take 16 (drop (16 * (n - 1)) pt @ replicate 16 0)"
    unfolding e last pad using ks
    by (intro nth_equalityI) (simp_all add: xor.assoc xor.left_commute)
qed

section \<open>Keystream\<close>

lemma KS_BATCH_N_pos [simp]: "0 < KS_BATCH_N"
  by (simp add: KS_BATCH_N_def)

lemma ks_counter_defined:
  assumes "0 < nblocks" "nblocks \<le> total_blocks recs"
  obtains s c where "ks_counter recs nblocks idx = Some (s, c)"
proof -
  have "\<exists>p. resolve recs i = Some p" if "i < nblocks" for i
    using resolve_defined [of 0 i recs] assms that by (simp add: resolve_def)
  from this [of idx] this [of "nblocks - 1"] show thesis
    using assms(1) that by (cases "idx < nblocks") (auto simp: ks_counter_def)
qed

lemma padding_counter:
  assumes "idx < 2 ^ 31"
  shows "unat (0x80000000 OR word_of_nat idx :: 32 word) = 2 ^ 31 + idx"
proof -
  have b: "bit (word_of_nat idx :: 32 word) n \<longleftrightarrow> n < 31 \<and> bit idx n" for n
  proof -
    have "\<not> bit idx n" if "31 \<le> n"
    proof -
      have "idx < 2 ^ n" using assms power_increasing [OF that, of "2 :: nat"] by simp
      then show ?thesis by (simp add: bit_iff_odd)
    qed
    then show ?thesis by (cases "31 \<le> n") (auto simp: bit_of_nat_iff)
  qed
  have t: "bit (2 ^ 31 :: 32 word) n \<longleftrightarrow> n = 31" for n unfolding bit_exp_iff by auto
  have "(2 ^ 31 :: 32 word) AND word_of_nat idx = 0"
    by (rule bit_eqI) (simp only: bit_and_iff t b, auto)
  then have "(2 ^ 31 :: 32 word) OR word_of_nat idx = 2 ^ 31 + word_of_nat idx"
    by (simp only: disjunctive_add_eq_or)
  also have "\<dots> = word_of_nat (2 ^ 31 + idx)" by (simp only: of_nat_add of_nat_power of_nat_numeral)
  finally have "unat (2 ^ 31 OR word_of_nat idx :: 32 word) = (2 ^ 31 + idx) mod 2 ^ 32"
    by (simp only: unsigned_of_nat take_bit_eq_mod) simp
  then show ?thesis using assms by simp
qed

text \<open>No slot, padding included, repeats the counter block of another.\<close>

lemma ks_counter_inject:
  assumes d: "distinct (map rd_seq recs)" and "i < 2 ^ 31" "j < 2 ^ 31"
    and i: "ks_counter recs nblocks i = Some (s, c)" and j: "ks_counter recs nblocks j = Some (s', c')"
    and eq: "ctr_block iv s c = ctr_block iv s' c'"
  shows "i = j"
proof -
  have sc: "s' = s" "c' = c" using eq by (simp_all add: ctr_block_inject)
  have real: "unat c < 2 ^ 28 + 2" if "resolve recs i = Some (s, c)" for i
    using resolve_unat_counter [OF that] by simp
  have pad: "unat c = 2 ^ 31 + i" if "\<not> i < nblocks" "i < 2 ^ 31" "ks_counter recs nblocks i = Some (s, c)" for i
    using that padding_counter [OF that(2)] by (auto simp: ks_counter_def split: Option.bind_splits)
  show ?thesis
  proof (cases "i < nblocks"; cases "j < nblocks")
    assume "i < nblocks" "j < nblocks"
    with i j sc show ?thesis using resolve_inject [OF d] by (simp add: ks_counter_def)
  next
    assume "i < nblocks" "\<not> j < nblocks"
    with i j sc assms show ?thesis using real [of i] pad [of j] by (simp add: ks_counter_def)
  next
    assume "\<not> i < nblocks" "j < nblocks"
    with i j sc assms show ?thesis using real [of j] pad [of i] by (simp add: ks_counter_def)
  next
    assume "\<not> i < nblocks" "\<not> j < nblocks"
    with i j sc assms show ?thesis using pad [of i] pad [of j] by simp
  qed
qed

definition ks_slot :: "bytes \<Rightarrow> RecordDims list \<Rightarrow> nat \<Rightarrow> nat \<Rightarrow> bytes" where
  "ks_slot iv recs nblocks idx =
     (case ks_counter recs nblocks idx of Some (s, c) \<Rightarrow> ctr_block iv s c | None \<Rightarrow> [])"

lemma ks_batch_ctrs_eq:
  assumes "0 < nblocks" "nblocks \<le> total_blocks recs"
  shows "ks_batch_ctrs iv recs nblocks batch =
     Some (map (\<lambda>j. ks_slot iv recs nblocks (batch * KS_BATCH_N + j)) [0..<KS_BATCH_N])"
    and "length (ks_slot iv recs nblocks idx) = 16"
proof -
  have *: "\<exists>s c. ks_counter recs nblocks idx = Some (s, c)" for idx
    using ks_counter_defined [OF assms] by metis
  show "ks_batch_ctrs iv recs nblocks batch =
     Some (map (\<lambda>j. ks_slot iv recs nblocks (batch * KS_BATCH_N + j)) [0..<KS_BATCH_N])"
    unfolding ks_batch_ctrs_def
  proof (rule those_map_Some)
    fix j
    show "do { (seq, counter) \<leftarrow> ks_counter recs nblocks (batch * KS_BATCH_N + j); Some (ctr_block iv seq counter) } =
        Some (ks_slot iv recs nblocks (batch * KS_BATCH_N + j))"
      using * [of "batch * KS_BATCH_N + j"] by (auto simp: ks_slot_def)
  qed
  show "length (ks_slot iv recs nblocks idx) = 16" using * [of idx] by (auto simp: ks_slot_def)
qed

lemma ks_batch_fields:
  assumes "length (ks_key x) = 16" "length (ks_ctr x) = n" "\<forall>c \<in> set (ks_ctr x). length c = 16"
    "length (ks_s x) = 16" "length (ks_r x) = 16" "length (ks_d x) = 32"
  shows "field16 0 (ks_batch_input x) = ks_key x"
    and "i < n \<Longrightarrow> field16 (Suc i) (ks_batch_input x) = ks_ctr x ! i"
    and "field16 (Suc n) (ks_batch_input x) = ks_s x"
    and "field16 (n + 2) (ks_batch_input x) = ks_r x"
    and "take 32 (drop (16 * n + 48) (ks_batch_input x)) = ks_d x"
    and "length (ks_batch_input x) = 16 * n + 80"
proof -
  let ?xs = "ks_key x # ks_ctr x @ [ks_s x, ks_r x]"
  have c: "ks_batch_input x = concat ?xs @ ks_d x" by (simp add: ks_batch_input_def)
  have l: "\<forall>c \<in> set ?xs. length c = 16" using assms by auto
  have len: "length (concat ?xs) = 16 * n + 48" using length_concat_const [OF l] assms by simp
  have f: "field16 i (ks_batch_input x) = ?xs ! i" if "i < n + 3" for i
  proof -
    have "i * 16 + 16 \<le> length (concat ?xs)" using that len by simp
    then have "field16 i (concat ?xs @ ks_d x) = field16 i (concat ?xs)" by (simp add: field16_def)
    then show ?thesis using field16_concat [OF l, of i] that assms(2) c by simp
  qed
  show "field16 0 (ks_batch_input x) = ks_key x" using f [of 0] by simp
  show "field16 (Suc i) (ks_batch_input x) = ks_ctr x ! i" if "i < n"
    using f [of "Suc i"] that assms(2) by (simp add: nth_append)
  show "field16 (Suc n) (ks_batch_input x) = ks_s x" "field16 (n + 2) (ks_batch_input x) = ks_r x"
    using f [of "Suc n"] f [of "n + 2"] assms(2) by (simp_all add: nth_append)
  show "take 32 (drop (16 * n + 48) (ks_batch_input x)) = ks_d x" "length (ks_batch_input x) = 16 * n + 80"
    unfolding c using len assms(6) by simp_all
qed

lemma min_add_min: "x \<le> (t :: nat) \<Longrightarrow> min t (x + n) = x + min n (t - x)"
  by (cases "n \<le> t - x") auto

lemma concat_map_upt_min:
  "concat (map (\<lambda>b. map (\<lambda>j. f (b * n + j)) [0..<min n (t - b * n)]) [0..<m]) = map f [0..<min t (m * n)]"
proof (induction m)
  case (Suc m)
  let ?d = "min n (t - m * n)"
  have *: "[0..<min t (m * n)] @ map (\<lambda>j. m * n + j) [0..<?d] = [0..<min t (m * n + n)]"
  proof (cases "m * n \<le> t")
    case True
    have "[0..<m * n + ?d] = [0..<m * n] @ map (\<lambda>j. m * n + j) [0..<?d]"
      using upt_add_eq_append [of 0 "m * n" ?d] map_add_upt [of "m * n" ?d] by (simp add: add.commute)
    then show ?thesis using True by (simp only: min_add_min min.absorb2)
  qed simp
  have s: "Suc m * n = m * n + n" by simp
  show ?case
    unfolding s * [symmetric] map_append Suc [symmetric] by simp
qed simp

definition masks_agree :: "(bytes \<Rightarrow> bytes \<Rightarrow> bytes) \<Rightarrow> prover \<Rightarrow> bytes \<Rightarrow> bool" where
  "masks_agree aes P mask_commitment \<longleftrightarrow> length (pv_mask_seed P) = 16 \<and> length (pv_mask_seed_key P) = 16 \<and>
     length mask_commitment = 32 \<and> hirose_commit_host aes (pv_mask_seed_key P) (pv_mask_seed P) = mask_commitment"

lemma ks_batch_output_eq:
  assumes "\<forall>x \<in> set ys. length x = 16" "length ys = KS_BATCH_N"
  shows "ks_batch_output (concat ys @ [bit_byte ok]) = Some \<lparr>ks_masked = ys, ks_ok = ok\<rparr>"
proof -
  have "length (concat ys) = 16 * KS_BATCH_N" using length_concat_const [OF assms(1)] assms(2) by simp
  then have "(concat ys @ [bit_byte ok]) ! (16 * KS_BATCH_N) = bit_byte ok" by (metis nth_append_length)
  then show ?thesis using blocks16_concat [OF assms] by (simp add: ks_batch_output_def)
qed

lemma keystream_batch_eq:
  assumes bf: "aes_netlist bf aes" and keys: "server_keys_agree P k" and m: "masks_agree aes P mc"
    and nb: "0 < nblocks" "nblocks \<le> total_blocks recs"
  defines "slot \<equiv> ks_slot (tk_server_iv k) recs nblocks"
  shows "keystream_batch aes bf P k mc recs nblocks batch =
     Some (map (\<lambda>j. aes (server_key P k) (slot (batch * KS_BATCH_N + j)))
       [0..<min KS_BATCH_N (nblocks - batch * KS_BATCH_N)])"
proof -
  let ?n = KS_BATCH_N and ?key = "server_key P k" and ?s = "pv_mask_seed P"
  let ?c = "\<lambda>j. slot (batch * KS_BATCH_N + j)"
  let ?y = "\<lambda>j. xor_bytes (aes ?key (?c j)) (aes ?s (?c j))"
  let ?ctrs = "map ?c [0..<?n]" and ?ys = "map ?y [0..<?n]"
  define p where "p = \<lparr>ks_key = pv_server_key_share P, ks_ctr = ?ctrs, ks_s = ?s, ks_r = pv_mask_seed_key P, ks_d = replicate 32 0\<rparr>"
  define v where "v = \<lparr>ks_key = tk_server_key_share k, ks_ctr = ?ctrs, ks_s = replicate 16 0, ks_r = replicate 16 0, ks_d = mc\<rparr>"
  note ctrs = ks_batch_ctrs_eq [OF nb, of "tk_server_iv k", folded slot_def]
  have inputs: "ks_batch_prover P recs nblocks batch = Some p" "ks_batch_verifier k mc recs nblocks batch = Some v"
    using keys ctrs(1) by (simp_all add: ks_batch_prover_def ks_batch_verifier_def server_keys_agree_def p_def v_def)
  have pc: "ks_ctr p = ?ctrs" by (simp add: p_def)
  have len: "length (?c j) = 16" for j using ctrs(2) by simp
  have e: "length (aes ?key (?c j)) = 16" "length (aes ?s (?c j)) = 16" for j
    using aes_netlistD(1) [OF bf] length_server_key [OF keys] m len by (simp_all add: masks_agree_def)
  have fp: "field16 0 (ks_batch_input p) = pv_server_key_share P" "field16 (Suc ?n) (ks_batch_input p) = ?s"
    "field16 (?n + 2) (ks_batch_input p) = pv_mask_seed_key P" "length (ks_batch_input p) = 16 * ?n + 80"
    "\<And>i. i < ?n \<Longrightarrow> field16 (Suc i) (ks_batch_input p) = ?c i"
    using ks_batch_fields [of p ?n] keys m len by (simp_all add: server_keys_agree_def masks_agree_def p_def)
  have fv: "field16 0 (ks_batch_input v) = tk_server_key_share k" "take 32 (drop (16 * ?n + 48) (ks_batch_input v)) = mc"
    "length (ks_batch_input v) = 16 * ?n + 80" "\<And>i. i < ?n \<Longrightarrow> field16 (Suc i) (ks_batch_input v) = ?c i"
    using ks_batch_fields [of v ?n] keys m len by (simp_all add: server_keys_agree_def masks_agree_def v_def)
  have ys: "map (\<lambda>i. xor_bytes (aes ?key (field16 (Suc i) (ks_batch_input p))) (aes ?s (field16 (Suc i) (ks_batch_input p)))) [0..<?n] = ?ys"
    using fp(5) by (intro map_cong refl) simp
  have ok: "hirose_commit_host aes (pv_mask_seed_key P) ?s = mc \<and>
      (\<forall>i < ?n. field16 (Suc i) (ks_batch_input p) = field16 (Suc i) (ks_batch_input v))"
    using m fp(5) fv(4) by (simp add: masks_agree_def)
  have x: "exec_small_internal (DeriveKeystreamBatch bf ?n) (16 * ?n + 1) (ks_batch_input p) (ks_batch_input v) =
      concat ?ys @ [bit_byte True]"
    using exec_ks_batch [OF bf fp(4) fv(3)]
    unfolding fp(1-3) fv(1,2) server_key_def [symmetric] ys if_P [OF ok] by (simp add: ok)
  have out: "ks_batch_output (exec_small_internal (DeriveKeystreamBatch bf ?n) (16 * ?n + 1) (ks_batch_input p) (ks_batch_input v)) =
      Some \<lparr>ks_masked = ?ys, ks_ok = True\<rparr>"
    unfolding x by (rule ks_batch_output_eq) (simp_all add: e)
  have "map (\<lambda>i. ?y j ! i XOR aes ?s (?c j) ! i) [0..<16] = aes ?key (?c j)" for j
    using nth_xor_16 [of "?y j" "aes ?s (?c j)"] e [of j] by (simp add: xor_bytes_cancel)
  then show ?thesis
    unfolding keystream_batch_def inputs bind.bind_lunit out pc by simp
qed

text \<open>The whole keystream of a record.\<close>

lemma derive_keystream_eq:
  assumes bf: "aes_netlist bf aes" and keys: "server_keys_agree P k" and m: "masks_agree aes P mc"
    and len: "length (sr_ciphertext rec) < 2 ^ 32"
    and ok: "ct_len_ok (length (sr_ciphertext rec))" "sr_seq rec \<in> set verified_seqs"
  shows "derive_keystream aes bf P k verified_seqs mc rec =
     Some (map (\<lambda>i. aes (server_key P k) (tls_nonce (tk_server_iv k) (sr_seq rec) @ nat_be 4 (2 + i)))
       [0..<(length (sr_ciphertext rec) + 15) div 16])"
proof -
  let ?n = "length (sr_ciphertext rec)"
  let ?recs = "[\<lparr>rd_seq = sr_seq rec, rd_ct_len = word_of_nat ?n\<rparr>]"
  let ?nb = "(?n + 15) div 16" and ?iv = "tk_server_iv k"
  let ?nbat = "(?nb + KS_BATCH_N - 1) div KS_BATCH_N"
  have small: "?n \<le> 17408" using ok(1) by (simp add: ct_len_ok_def SSL3_RT_MAX_PLAIN_LENGTH_def)
  have ct: "sr_ciphertext rec \<noteq> []" using ok(1) by (auto simp: ct_len_ok_def)
  have tb: "total_blocks ?recs = ?nb"
    using small by (simp add: total_blocks_Cons rec_blocks_def unat_of_nat take_bit_eq_mod)
  have nb: "0 < ?nb" "?nb \<le> total_blocks ?recs" using nblocks_bounds(1) [of ?n] ct tb by simp_all
  have slot: "ks_slot ?iv ?recs ?nb i = tls_nonce ?iv (sr_seq rec) @ nat_be 4 (2 + i)" if "i < ?nb" for i
  proof -
    have "?nb \<le> 1088" using div_le_mono [of "?n + 15" "17408 + 15" 16] small by simp
    then have u: "unat (word_of_nat i + 2 :: 32 word) = 2 + i" using unat_small_plus_2 [of i] that by simp
    have "ks_counter ?recs ?nb i = Some (sr_seq rec, word_of_nat i + 2)"
      using that small by (simp add: ks_counter_def resolve_def rec_blocks_def unat_of_nat take_bit_eq_mod)
    then show ?thesis using keys u by (simp add: ks_slot_def ctr_block_nonce server_keys_agree_def)
  qed
  let ?f = "\<lambda>i. aes (server_key P k) (ks_slot ?iv ?recs ?nb i)"
  have "those (map (keystream_batch aes bf P k mc ?recs ?nb) [0..<?nbat]) =
      Some (map (\<lambda>b. map (\<lambda>j. ?f (b * KS_BATCH_N + j)) [0..<min KS_BATCH_N (?nb - b * KS_BATCH_N)]) [0..<?nbat])"
    by (intro those_map_Some keystream_batch_eq [OF bf keys m nb])
  moreover have "min ?nb (?nbat * KS_BATCH_N) = ?nb"
    using nblocks_bounds(4) [of ?n] ct by (simp add: AES_ENC_N_def KS_BATCH_N_def)
  ultimately have "map_option concat (those (map (keystream_batch aes bf P k mc ?recs ?nb) [0..<?nbat])) = Some (map ?f [0..<?nb])"
    using concat_map_upt_min [of ?f KS_BATCH_N ?nb ?nbat] by (simp only: option.map)
  moreover have "check (?nb \<noteq> 0 \<and> ?nb \<le> kNumMasks) = Some ()"
    using nb div_le_mono [of "?n + 15" "17408 + 15" 16] small by (simp add: kNumMasks_def)
  moreover have "unat (word_of_nat ?n :: 32 word) = ?n" using len by (simp add: unat_of_nat take_bit_eq_mod)
  ultimately have "derive_keystream aes bf P k verified_seqs mc rec = Some (map ?f [0..<?nb])"
    unfolding derive_keystream_def Let_def tb using ok by simp
  then show ?thesis by (simp add: slot)
qed

lemma derive_keystream_refused:
  assumes "length (sr_ciphertext rec) < 2 ^ 32"
    and "\<not> (ct_len_ok (length (sr_ciphertext rec)) \<and> sr_seq rec \<in> set verified_seqs)"
  shows "derive_keystream aes bf P k verified_seqs mc rec = None"
proof -
  have "unat (word_of_nat (length (sr_ciphertext rec)) :: 32 word) = length (sr_ciphertext rec)"
    using assms(1) by (simp add: unat_of_nat take_bit_eq_mod)
  then show ?thesis
    using assms(2) unfolding derive_keystream_def Let_def by (auto simp: check_def)
qed

section \<open>Opening records\<close>

lemma length_gctr [simp]: "length (gctr aes key nonce c x) = length x"
  by (simp add: gctr_def)

lemma gctr_gctr: "gctr aes key nonce c (gctr aes key nonce c x) = x"
  by (intro nth_equalityI) (simp_all add: gctr_def xor.assoc)

lemma true_surf_open_record_eq:
  assumes iv: "length (drop 4 iv) = 12" and small: "length (sr_ciphertext rec) < 2 ^ 31"
  shows "true_surf_open_record aes key iv rec = Some (gctr aes key (tls_nonce (drop 4 iv) (sr_seq rec)) 2 (sr_ciphertext rec))"
proof -
  let ?ct = "sr_ciphertext rec" and ?n = "length (sr_ciphertext rec)"
  let ?recs = "[\<lparr>rd_seq = sr_seq rec, rd_ct_len = word_of_nat ?n\<rparr>]" and ?nb = "(?n + 15) div 16"
  let ?g = "\<lambda>i. ?ct ! i XOR aes key (tls_nonce (drop 4 iv) (sr_seq rec) @ nat_be 4 (2 + i div 16)) ! (i mod 16)"
  have "those (map (\<lambda>idx. do {
       (seq, counter) \<leftarrow> resolve ?recs idx;
       let ks = aes key (ctr_block (drop 4 iv) seq counter);
       let n = min 16 (?n - idx * 16);
       Some (map (\<lambda>j. ?ct ! (idx * 16 + j) XOR ks ! j) [0..<n]) }) [0..<?nb]) =
    Some (map (\<lambda>idx. map (\<lambda>j. ?g (idx * 16 + j)) [0..<min 16 (?n - idx * 16)]) [0..<?nb])"
  proof (rule those_map_Some)
    fix idx
    assume "idx \<in> set [0..<?nb]"
    then have i: "idx < ?nb" by simp
    then have u: "unat (word_of_nat idx + 2 :: 32 word) = 2 + idx"
      using unat_small_plus_2 [of idx] small by simp
    have r: "resolve ?recs idx = Some (sr_seq rec, word_of_nat idx + 2)"
      using i small by (simp add: resolve_def rec_blocks_def unat_of_nat take_bit_eq_mod)
    have c: "ctr_block (drop 4 iv) (sr_seq rec) (word_of_nat idx + 2) = tls_nonce (drop 4 iv) (sr_seq rec) @ nat_be 4 (2 + idx)"
      using ctr_block_nonce [OF iv] u by simp
    have "map (\<lambda>j. ?ct ! (idx * 16 + j) XOR aes key (tls_nonce (drop 4 iv) (sr_seq rec) @ nat_be 4 (2 + idx)) ! j)
        [0..<min 16 (?n - idx * 16)] = map (\<lambda>j. ?g (idx * 16 + j)) [0..<min 16 (?n - idx * 16)]"
      by (intro map_cong refl) (simp add: add.commute)
    then show "do { (seq, counter) \<leftarrow> resolve ?recs idx;
       let ks = aes key (ctr_block (drop 4 iv) seq counter);
       let n = min 16 (?n - idx * 16);
       Some (map (\<lambda>j. ?ct ! (idx * 16 + j) XOR ks ! j) [0..<n]) } =
      Some (map (\<lambda>j. ?g (idx * 16 + j)) [0..<min 16 (?n - idx * 16)])"
      unfolding r by (simp only: bind.bind_lunit Let_def prod.case c)
  qed
  moreover have "min ?n (?nb * 16) = ?n" by simp
  ultimately show ?thesis
    unfolding true_surf_open_record_def Let_def
    using concat_map_upt_min [of ?g 16 ?n ?nb] by (simp only: bind.bind_lunit gctr_def)
qed

lemma verify_record_tag_iff:
  assumes bf: "aes_netlist bf aes" and keys: "server_keys_agree P k"
    and g: "gcm_power_shares aes (server_key P k) powers (pv_sgcm_share P)" and tag: "length (sr_tag rec) = 16"
    and r: "length (pv_key_commit_rand P) = 16"
  shows "verify_record_tag aes bf P k powers rec \<longleftrightarrow>
    ct_len_ok (length (sr_ciphertext rec)) \<and> record_valid aes (server_key P k) (tk_server_iv k) rec"
proof (cases "ct_len_ok (length (sr_ciphertext rec))")
  case True
  note fits = ct_len_ok_fits [OF True tag]
  have "length (surf_send_key_commitment aes P) = 32"
    using hirose_commit_bits(2) [OF bf r] keys by (simp add: surf_send_key_commitment_def server_keys_agree_def)
  then show ?thesis
    using verify_masked_iff [OF bf keys g fits True] verify_committed_iff [OF bf keys g fits True r] True
    by (simp add: verify_record_tag_def surf_send_key_commitment_def)
next
  case False
  then show ?thesis by (simp add: verify_record_tag_def verify_masked_def verify_committed_def)
qed

definition open_gcm :: "(bytes \<Rightarrow> bytes \<Rightarrow> bytes) \<Rightarrow> bytes \<Rightarrow> bytes \<Rightarrow> SurfRecord \<Rightarrow> bytes" where
  "open_gcm aes key iv rec = gctr aes key (tls_nonce iv (sr_seq rec)) 2 (sr_ciphertext rec)"

lemma true_surf_release_eq:
  assumes bf: "aes_netlist bf aes" and keys: "server_keys_agree P k"
    and g: "gcm_power_shares aes (server_key P k) powers (pv_sgcm_share P)"
    and tags: "\<forall>rec \<in> set recs. length (sr_tag rec) = 16"
    and r: "length (pv_key_commit_rand P) = 16" and mode: "pv_surf_true_mode P" "\<not> pv_surf_key_released P"
  shows "true_surf_release aes bf replay P k powers cn recs =
     (if (pv_surf_key_committed P \<or> recs \<noteq> []) \<and>
         (\<forall>rec \<in> set recs. ct_len_ok (length (sr_ciphertext rec)) \<and>
           record_valid aes (server_key P k) (tk_server_iv k) rec)
      then finish_release replay cn (map (open_gcm aes (server_key P k) (tk_server_iv k)) recs) else None)"
proof (cases "list_all (verify_record_tag aes bf P k powers) recs")
  have k: "map (\<lambda>i. pv_server_key_share P ! i XOR tk_server_key_share k ! i) [0..<16] = server_key P k"
    using keys by (simp add: nth_xor_16 server_key_def server_keys_agree_def)
  have all: "list_all (verify_record_tag aes bf P k powers) recs \<longleftrightarrow>
      (\<forall>rec \<in> set recs. ct_len_ok (length (sr_ciphertext rec)) \<and> record_valid aes (server_key P k) (tk_server_iv k) rec)"
    using verify_record_tag_iff [OF bf keys g _ r] tags by (simp add: list_all_iff)
  {
    case True
    have "those (map (true_surf_open_record aes (server_key P k) (pv_server_iv P)) recs) =
        Some (map (open_gcm aes (server_key P k) (tk_server_iv k)) recs)"
    proof (rule those_map_Some)
      fix rec
      assume "rec \<in> set recs"
      then have "length (sr_ciphertext rec) < 2 ^ 31"
        using True all by (auto simp: ct_len_ok_def SSL3_RT_MAX_PLAIN_LENGTH_def)
      moreover have "drop 4 (pv_server_iv P) = tk_server_iv k" "length (tk_server_iv k) = 12"
        using keys by (simp_all add: server_keys_agree_def)
      ultimately show "true_surf_open_record aes (server_key P k) (pv_server_iv P) rec =
          Some (open_gcm aes (server_key P k) (tk_server_iv k) rec)"
        using true_surf_open_record_eq [of "pv_server_iv P" rec] by (simp add: open_gcm_def del: length_drop)
    qed
    then show ?thesis using mode True all [symmetric]
      by (cases "pv_surf_key_committed P \<or> recs \<noteq> []") (simp_all add: true_surf_release_def Let_def k)
  next
    case False
    then show ?thesis using mode unfolding all [symmetric] by (simp add: true_surf_release_def)
  }
qed

text \<open>A record of application data with padding contributes nothing.\<close>

lemma padded_dropped: "assemble (xs @ (data @ 23 # replicate (Suc n) 0) # ys) = assemble (xs @ ys)"
  by (simp add: assemble_def is_app_record_def replicate_append_same [symmetric] del: replicate_append_same)

lemma unpadded_kept: "assemble (xs @ (data @ [23]) # ys) = assemble xs @ data @ assemble ys"
  by (simp add: assemble_def is_app_record_def)

lemma assemble_append: "assemble (xs @ ys) = assemble xs @ assemble ys"
  by (simp add: assemble_def)

text \<open>A request of 1024 bytes or more needs more batches than the circuits are prepared for, and a sequence
  number is used once.\<close>

lemma encrypt_request_refused:
  assumes "1024 \<le> length plaintext \<or> seq \<in> set encrypted_seqs"
  shows "encrypt_request bf P k powers encrypted_seqs mask_bytes seq plaintext inner_type = None"
proof -
  have "64 < (length plaintext + 1 + 15) div 16" if "1024 \<le> length plaintext" using that by simp
  then have "\<not> ((length plaintext + 1 + 15) div 16 + AES_ENC_N - 1) div AES_ENC_N \<le> 4" if "1024 \<le> length plaintext"
    using that by (simp add: AES_ENC_N_def)
  then have "check (((length plaintext + 1 + 15) div 16 + AES_ENC_N - 1) div AES_ENC_N \<le> 4) = None \<or>
      check (seq \<notin> set encrypted_seqs) = None"
    using assms by (auto simp only: check_def if_False if_True not_True_eq_False)
  then show ?thesis
    unfolding encrypt_request_def Let_def
    by (cases "check (length plaintext + 1 \<noteq> 0 \<and> length plaintext + 1 \<le> SSL3_RT_MAX_PLAIN_LENGTH)";
        cases "check (((length plaintext + 1 + 15) div 16 + AES_ENC_N - 1) div AES_ENC_N \<le> 4)") simp_all
qed

section \<open>A cipher of which the hypotheses hold\<close>

text \<open>Exclusive or with the key stands for AES where an example has to be computed.\<close>

definition xor_netlist :: "bool list \<Rightarrow> bool list" where
  "xor_netlist w = rev (xor_wires 128 (take 128 w) (drop 128 w))"

lemma xor_netlist_ok: "aes_netlist xor_netlist (map2 (XOR))"
proof -
  have "xor_netlist (convert_uint8_to_bool (rev k) @ convert_uint8_to_bool (rev p)) =
      concat (map (\<lambda>b. rev (map (bit b) [0..<8])) (xor_bytes k p))" if "length k = 16" "length p = 16" for k p
  proof -
    have "xor_wires 128 (convert_uint8_to_bool (rev k)) (convert_uint8_to_bool (rev p)) =
        convert_uint8_to_bool (xor_bytes (rev k) (rev p))"
      using xor_wires_bits [of "rev k" 16 "rev p"] that by simp
    also have "xor_bytes (rev k) (rev p) = rev (xor_bytes k p)"
      using that by (simp add: zip_rev rev_map)
    finally have "xor_netlist (convert_uint8_to_bool (rev k) @ convert_uint8_to_bool (rev p)) =
        rev (convert_uint8_to_bool (rev (xor_bytes k p)))"
      using that by (simp add: xor_netlist_def)
    also have "\<dots> = concat (map (\<lambda>b. rev (map (bit b) [0..<8])) (xor_bytes k p))"
      by (simp add: convert_uint8_to_bool_eq rev_concat rev_map [symmetric] o_def)
    finally show ?thesis .
  qed
  then show ?thesis by (simp add: aes_netlist_def)
qed

lemma zero_power_shares:
  assumes "length key = 16" and "\<forall>b \<in> set key. b = 0"
  shows "gcm_power_shares (map2 (XOR)) key (blocks_to_bytes (replicate num_powers 0)) (blocks_to_bytes (replicate num_powers 0))"
proof -
  have "xor_bytes key (replicate 16 0) = replicate 16 0"
    using assms by (intro nth_equalityI) simp_all
  moreover have "be_block (replicate 16 0) = 0"
    by (rule bit_eqI) (simp add: be_block_def bit_le_block)
  moreover have "powers_ok (Gf (natw 0)) {..<num_powers} (replicate num_powers 0, replicate num_powers 0)"
    by (simp add: powers_ok_def zero_gf_def [symmetric])
  ultimately show ?thesis unfolding gcm_power_shares_def by metis
qed

lemma nist_ghash_0: "nist_ghash 0 xs = 0"
proof -
  have "nist_mult x 0 = 0" for x
    using Gf_nist_mult [of x 0] by (metis natw_0 natw_twice zero_gf_def mult_zero_right gf.inject)
  then have "foldl (\<lambda>y x. nist_mult (y XOR x) 0) 0 xs = 0" by (induction xs) simp_all
  then show ?thesis by (simp add: nist_ghash_def)
qed

lemma zero_key_tag:
  assumes "length nonce = 12" and "tag = nonce @ nat_be 4 1"
  shows "gcm_tag_valid (map2 (XOR)) (replicate 16 0) nonce aad ct tag"
proof -
  have x: "xor_bytes (replicate 16 0) xs = xs" if "length xs = 16" for xs
    using that by (intro nth_equalityI) simp_all
  have z: "be_block (replicate 16 0) = 0" by (rule bit_eqI) (simp add: be_block_def bit_le_block)
  show ?thesis
    using assms x [of "nonce @ nat_be 4 1"] x [of "replicate 16 0"]
    by (simp add: gcm_tag_valid_def gcm_ghash_def nist_ghash_0 z)
qed

end
