(* ===== verification/Emp_Wrapper.thy ===== *)
theory Emp_Wrapper
  imports Channel
begin

text \<open>
  EmpWrapper: the I/O object emp's protocols run over.  Sends are collected in a write buffer and
  put on the wire by flush as one frame with an 8-byte big-endian length; receives are served from
  the payload of the current frame.  The template arguments are arguments here: \<open>prepend\<close> for
  prepend\_header, \<open>hold\<close> and \<open>flush_size\<close> for the buffer policy.  \<open>evs c\<close> are the outcomes of the
  \<open>c\<close>-th I/O loop of a call.  A result of None is a loop that never returns or the failed
  size assertion of read\_bytes; in a build with NDEBUG that assertion is absent and the copy it
  guards runs past the bytes of the frame, which the language leaves undefined, so None stands for
  both.  When a read fails the buffer is zero here and what had arrived is dropped: the connection
  is marked failed and later receives give zeros in the code, too.
\<close>

section \<open>Counters (CounterType.inl)\<close>

record RWCounter =
  read_counter :: "64 word"
  write_counter :: "64 word"
  round_counter :: "64 word"

definition track_write :: "nat \<Rightarrow> RWCounter \<Rightarrow> RWCounter" where
  "track_write n c = c\<lparr>write_counter := write_counter c + of_nat n\<rparr>"

definition track_read :: "nat \<Rightarrow> RWCounter \<Rightarrow> RWCounter" where
  "track_read n c = c\<lparr>read_counter := read_counter c + of_nat n\<rparr>"

definition track_round :: "RWCounter \<Rightarrow> RWCounter" where
  "track_round c = c\<lparr>round_counter := round_counter c + 1\<rparr>"

definition get_bandwidth :: "RWCounter \<Rightarrow> 64 word" where
  "get_bandwidth c = read_counter c + write_counter c"

definition reset_bandwidth :: "RWCounter \<Rightarrow> RWCounter" where
  "reset_bandwidth c = c\<lparr>read_counter := 0, write_counter := 0\<rparr>"

section \<open>SSLBufferPolicy (SSLBuffer.inl)\<close>

record SSLBuffer =
  buffer :: bytes
  lower_head :: nat
  upper_head :: nat

definition SSLBuffer_empty :: SSLBuffer where
  "SSLBuffer_empty = \<lparr>buffer = [], lower_head = 0, upper_head = 0\<rparr>"

definition buffer_data :: "bytes \<Rightarrow> SSLBuffer \<Rightarrow> SSLBuffer" where
  "buffer_data data b = b\<lparr>buffer := buffer b @ data\<rparr>"

definition buffer_clear :: "SSLBuffer \<Rightarrow> SSLBuffer" where
  "buffer_clear b = \<lparr>buffer = [], lower_head = 0, upper_head = 0\<rparr>"

definition should_send :: "nat \<Rightarrow> bool \<Rightarrow> SSLBuffer \<Rightarrow> bool" where
  "should_send flush_size hold b \<longleftrightarrow> \<not> hold \<and> flush_size \<le> length (buffer b)"

definition buffer_resize :: "nat \<Rightarrow> SSLBuffer \<Rightarrow> SSLBuffer" where
  "buffer_resize n b =
     (let b' = (if n \<le> length (buffer b) then buffer_clear b else b)
      in b'\<lparr>buffer := buffer b' @ replicate (n - length (buffer b')) 0\<rparr>)"

definition add_read :: "nat \<Rightarrow> SSLBuffer \<Rightarrow> SSLBuffer" where
  "add_read n b = b\<lparr>upper_head := upper_head b + n\<rparr>"

definition read_bytes_size :: "SSLBuffer \<Rightarrow> nat" where
  "read_bytes_size b = upper_head b - lower_head b"

definition read_bytes :: "nat \<Rightarrow> SSLBuffer \<Rightarrow> (bytes \<times> SSLBuffer) option" where
  "read_bytes n b = do {
     check (n \<le> read_bytes_size b);
     let data = take n (drop (lower_head b) (buffer b));
     let lower = lower_head b + n;
     Some (data, if lower = upper_head b then b\<lparr>lower_head := 0, upper_head := 0\<rparr>
                 else b\<lparr>lower_head := lower\<rparr>) }"

section \<open>The wrapper (EmpWrapper.inl)\<close>

record EmpWrapper =
  ew_write_buffer :: SSLBuffer
  ew_read_buffer :: SSLBuffer
  ew_counter :: RWCounter
  ew_io_failed :: bool

definition EmpWrapper_new :: "bool \<Rightarrow> EmpWrapper" where
  "EmpWrapper_new prepend =
     \<lparr>ew_write_buffer = buffer_resize (if prepend then 8 else 0) SSLBuffer_empty,
      ew_read_buffer = buffer_resize (if prepend then 8 else 0) SSLBuffer_empty,
      ew_counter = \<lparr>read_counter = 0, write_counter = 0, round_counter = 0\<rparr>,
      ew_io_failed = False\<rparr>"

definition flush ::
  "(nat \<Rightarrow> nat \<Rightarrow> io_event) \<Rightarrow> bool \<Rightarrow> EmpWrapper \<Rightarrow> ssl \<Rightarrow> (EmpWrapper \<times> ssl) option" where
  "flush evs prepend w s =
     (let size = length (buffer (ew_write_buffer w)) in
      if size = 0 \<or> (prepend \<and> size = 8) then Some (w, s)
      else
        let buf = (if prepend then nat_be 8 size @ drop 8 (buffer (ew_write_buffer w))
                   else buffer (ew_write_buffer w));
            c1 = (if prepend then track_write 8 (ew_counter w) else ew_counter w);
            wb = (if prepend then buffer_resize 8 ((ew_write_buffer w)\<lparr>buffer := buf\<rparr>)
                  else buffer_clear (ew_write_buffer w));
            w1 = w\<lparr>ew_write_buffer := wb, ew_counter := track_round c1\<rparr>
        in if ew_io_failed w then Some (w1, s)
           else (case process_data_write (evs 0) 0 buf s of
                   None \<Rightarrow> None
                 | Some None \<Rightarrow> Some (w1\<lparr>ew_io_failed := True\<rparr>, s)
                 | Some (Some s') \<Rightarrow> Some (w1, s')))"

definition send_data_internal ::
  "(nat \<Rightarrow> nat \<Rightarrow> io_event) \<Rightarrow> bool \<Rightarrow> nat \<Rightarrow> bool \<Rightarrow> bytes \<Rightarrow> EmpWrapper \<Rightarrow> ssl \<Rightarrow>
     (EmpWrapper \<times> ssl) option" where
  "send_data_internal evs prepend flush_size hold data w s = do {
     let w1 = w\<lparr>ew_write_buffer := buffer_data data (ew_write_buffer w)\<rparr>;
     (w2, s') \<leftarrow> (if should_send flush_size hold (ew_write_buffer w1) then flush evs prepend w1 s
                  else Some (w1, s));
     Some (w2\<lparr>ew_counter := track_write (length data) (ew_counter w2)\<rparr>, s') }"

text \<open>The size of the frame to read: the payload length of the next frame, or what is missing.\<close>

definition frame_size ::
  "(nat \<Rightarrow> nat \<Rightarrow> io_event) \<Rightarrow> bool \<Rightarrow> nat \<Rightarrow> EmpWrapper \<Rightarrow> ssl \<Rightarrow>
     (nat \<times> EmpWrapper \<times> ssl) option" where
  "frame_size evs prepend to_read w s =
     (if prepend then
        (case process_data_read (evs 0) 0 8 s [] of
           None \<Rightarrow> None
         | Some None \<Rightarrow> Some (0, w\<lparr>ew_io_failed := True\<rparr>, s)
         | Some (Some (h, s')) \<Rightarrow>
             (let total = be_nat h
              in Some (if total < 8 then 0 else total - 8,
                       w\<lparr>ew_counter := track_read 8 (ew_counter w)\<rparr>, s')))
      else Some (to_read, w, s))"

definition fill_read_buffer ::
  "(nat \<Rightarrow> io_event) \<Rightarrow> nat \<Rightarrow> nat \<Rightarrow> EmpWrapper \<Rightarrow> ssl \<Rightarrow> (EmpWrapper \<times> ssl) option" where
  "fill_read_buffer ev offset n w s =
     (let rb = buffer_resize (offset + n) (ew_read_buffer w);
          finish = (\<lambda>rb failed. w\<lparr>ew_read_buffer := add_read n rb,
                      ew_counter := track_read n (ew_counter w), ew_io_failed := failed\<rparr>)
      in case process_data_read ev 0 n s [] of
           None \<Rightarrow> None
         | Some None \<Rightarrow> Some (finish rb True, s)
         | Some (Some (bs, s')) \<Rightarrow>
             Some (finish (rb\<lparr>buffer := take offset (buffer rb) @ bs\<rparr>) (ew_io_failed w), s'))"

definition recv_data_internal ::
  "(nat \<Rightarrow> nat \<Rightarrow> io_event) \<Rightarrow> bool \<Rightarrow> nat \<Rightarrow> EmpWrapper \<Rightarrow> ssl \<Rightarrow>
     (bytes \<times> EmpWrapper \<times> ssl) option" where
  "recv_data_internal evs prepend nbyte w s =
     (if ew_io_failed w then Some (replicate nbyte 0, w, s)
      else let nr = read_bytes_size (ew_read_buffer w) in
      if nbyte \<le> nr then do {
        (d, rb) \<leftarrow> read_bytes nbyte (ew_read_buffer w);
        Some (d, w\<lparr>ew_read_buffer := rb\<rparr>, s) }
      else do {
        let to_read = nbyte - nr;
        (d, rb) \<leftarrow> read_bytes nr (ew_read_buffer w);
        (header_size, w1, s1) \<leftarrow> frame_size evs prepend to_read (w\<lparr>ew_read_buffer := rb\<rparr>) s;
        if ew_io_failed w1 then Some (d @ replicate to_read 0, w1, s1)
        else if 2 ^ 30 < header_size
        then Some (d @ replicate to_read 0, w1\<lparr>ew_io_failed := True\<rparr>, s1)
        else do {
          (w2, s2) \<leftarrow> fill_read_buffer (evs 1) 0 header_size w1 s1;
          (w3, s3) \<leftarrow> (let pending = length (pending_app_data s2) in
                       if \<not> prepend \<and> \<not> ew_io_failed w2 \<and> 0 < pending
                       then fill_read_buffer (evs 2) header_size pending w2 s2
                       else Some (w2, s2));
          (d', rb') \<leftarrow> read_bytes to_read (ew_read_buffer w3);
          Some (d @ d', w3\<lparr>ew_read_buffer := rb'\<rparr>, s3) } })"

lemmas wrapper_defs = flush_def send_data_internal_def recv_data_internal_def frame_size_def
  fill_read_buffer_def buffer_data_def buffer_clear_def should_send_def buffer_resize_def
  add_read_def read_bytes_size_def read_bytes_def

lemmas counter_defs = track_write_def track_read_def track_round_def

section \<open>Conversations\<close>

text \<open>A round of one direction: a number of sends and a flush on one side, the receives of the same
  sizes on the other, with the default template arguments.\<close>

fun send_round ::
  "(nat \<Rightarrow> nat \<Rightarrow> io_event) \<Rightarrow> bytes list \<Rightarrow> EmpWrapper \<Rightarrow> ssl \<Rightarrow> (EmpWrapper \<times> ssl) option" where
  "send_round evs [] w s = flush evs True w s"
| "send_round evs (m # ms) w s = do {
     (w', s') \<leftarrow> send_data_internal evs True SSL3_RT_MAX_PLAIN_LENGTH True m w s;
     send_round evs ms w' s' }"

fun recv_round ::
  "(nat \<Rightarrow> nat \<Rightarrow> io_event) \<Rightarrow> nat list \<Rightarrow> EmpWrapper \<Rightarrow> ssl \<Rightarrow> (bytes list \<times> EmpWrapper \<times> ssl) option" where
  "recv_round evs [] w s = Some ([], w, s)"
| "recv_round evs (n # ns) w s = do {
     (m, w', s') \<leftarrow> recv_data_internal evs True n w s;
     (ms, w'', s'') \<leftarrow> recv_round evs ns w' s';
     Some (m # ms, w'', s'') }"

fun send_rounds ::
  "(nat \<Rightarrow> nat \<Rightarrow> io_event) \<Rightarrow> bytes list list \<Rightarrow> EmpWrapper \<Rightarrow> ssl \<Rightarrow> (EmpWrapper \<times> ssl) option" where
  "send_rounds evs [] w s = Some (w, s)"
| "send_rounds evs (ms # mss) w s = do {
     (w', s') \<leftarrow> send_round evs ms w s; send_rounds evs mss w' s' }"

fun recv_rounds ::
  "(nat \<Rightarrow> nat \<Rightarrow> io_event) \<Rightarrow> nat list list \<Rightarrow> EmpWrapper \<Rightarrow> ssl \<Rightarrow>
     (bytes list list \<times> EmpWrapper \<times> ssl) option" where
  "recv_rounds evs [] w s = Some ([], w, s)"
| "recv_rounds evs (ns # nss) w s = do {
     (ms, w', s') \<leftarrow> recv_round evs ns w s;
     (mss, w'', s'') \<leftarrow> recv_rounds evs nss w' s';
     Some (ms # mss, w'', s'') }"

definition frame :: "bytes \<Rightarrow> bytes" where
  "frame p = (if p = [] then [] else nat_be 8 (8 + length p) @ p)"

lemma word_length_frame:
  "(of_nat (length (frame p)) :: 64 word) = of_nat (length p) + (if p = [] then 0 else 8)"
  by (simp add: frame_def add.commute)

subsection \<open>The sending side\<close>

definition idle_writer :: "EmpWrapper \<Rightarrow> bool" where
  "idle_writer w \<longleftrightarrow> length (buffer (ew_write_buffer w)) = 8 \<and> \<not> ew_io_failed w"

lemma flush_empty:
  "length (buffer (ew_write_buffer w)) = 8 \<Longrightarrow> flush evs True w s = Some (w, s)"
  by (simp add: flush_def)

lemma flush_frame:
  assumes "fair (evs 0)" "\<not> ew_io_failed w" "buffer (ew_write_buffer w) = h @ p" "length h = 8" "p \<noteq> []"
  shows "\<exists>s'. flush evs True w s =
       Some (w\<lparr>ew_write_buffer := \<lparr>buffer = replicate 8 0, lower_head = 0, upper_head = 0\<rparr>,
               ew_counter := track_round (track_write 8 (ew_counter w))\<rparr>, s') \<and>
     ssl_content s' = ssl_content s @ frame p"
proof -
  let ?f = "nat_be 8 (8 + length p) @ p"
  obtain s' where s': "process_data_write (evs 0) 0 ?f s = Some (Some s')"
      "pending_app_data s' = pending_app_data s" "incoming s' = incoming s @ tls_fragments ?f"
    using process_data_write_complete [OF assms(1)] by blast
  have "ssl_content s' = ssl_content s @ frame p"
    using s'(2,3) assms(5) by (simp add: ssl_content_def frame_def)
  moreover have "length (buffer (ew_write_buffer w)) = 8 + length p" "drop 8 (buffer (ew_write_buffer w)) = p"
    using assms(3,4) by simp_all
  ultimately show ?thesis
    using s'(1) assms(2,5) unfolding flush_def Let_def
    by (simp add: buffer_resize_def buffer_clear_def)
qed

lemma send_hold:
  "send_data_internal evs prepend fs True m w s =
     Some (w\<lparr>ew_write_buffer := buffer_data m (ew_write_buffer w),
             ew_counter := track_write (length m) (ew_counter w)\<rparr>, s)"
  by (simp add: send_data_internal_def should_send_def)

lemma send_round_frame:
  assumes "\<And>c. fair (evs c)"
  shows "buffer (ew_write_buffer w) = h @ q \<Longrightarrow> length h = 8 \<Longrightarrow> \<not> ew_io_failed w \<Longrightarrow>
    p = q @ concat ms \<Longrightarrow>
    \<exists>w' s'. send_round evs ms w s = Some (w', s') \<and> idle_writer w' \<and>
      ssl_content s' = ssl_content s @ frame p \<and>
      write_counter (ew_counter w') =
        write_counter (ew_counter w) + of_nat (length (concat ms)) + (if p = [] then 0 else 8) \<and>
      round_counter (ew_counter w') = round_counter (ew_counter w) + (if p = [] then 0 else 1)"
proof (induction ms arbitrary: w q)
  case Nil
  show ?case
  proof (cases "p = []")
    case True
    with Nil have "length (buffer (ew_write_buffer w)) = 8" by simp
    then show ?thesis using True Nil(3) by (simp add: flush_empty idle_writer_def frame_def)
  next
    case False
    with flush_frame [where evs = evs and s = s, OF assms Nil(3,1,2)] Nil(3,4) show ?thesis
      by (auto simp: idle_writer_def counter_defs)
  qed
next
  case (Cons m ms)
  let ?w = "w\<lparr>ew_write_buffer := buffer_data m (ew_write_buffer w),
              ew_counter := track_write (length m) (ew_counter w)\<rparr>"
  have "\<exists>w' s'. send_round evs ms ?w s = Some (w', s') \<and> idle_writer w' \<and>
      ssl_content s' = ssl_content s @ frame p \<and>
      write_counter (ew_counter w') =
        write_counter (ew_counter ?w) + of_nat (length (concat ms)) + (if p = [] then 0 else 8) \<and>
      round_counter (ew_counter w') = round_counter (ew_counter ?w) + (if p = [] then 0 else 1)"
    using Cons.prems by (intro Cons.IH [of ?w "q @ m"]) (simp_all add: buffer_data_def)
  then show ?case by (simp add: send_hold track_write_def add.assoc)
qed

subsection \<open>The receiving side\<close>

definition unread :: "SSLBuffer \<Rightarrow> bytes" where
  "unread b = take (read_bytes_size b) (drop (lower_head b) (buffer b))"

definition buffer_ok :: "SSLBuffer \<Rightarrow> bool" where
  "buffer_ok b \<longleftrightarrow> lower_head b \<le> upper_head b \<and> upper_head b \<le> length (buffer b) \<and>
     (lower_head b = upper_head b \<longrightarrow> lower_head b = 0)"

lemma length_unread: "buffer_ok b \<Longrightarrow> length (unread b) = read_bytes_size b"
  by (auto simp: unread_def buffer_ok_def read_bytes_size_def)

lemma read_bytes_unread:
  assumes "buffer_ok b" "n \<le> length (unread b)"
  shows "\<exists>b'. read_bytes n b = Some (take n (unread b), b') \<and> buffer_ok b' \<and> unread b' = drop n (unread b)"
proof -
  have n: "n \<le> upper_head b - lower_head b"
    using assms length_unread by (simp add: read_bytes_size_def)
  show ?thesis
  proof (cases "lower_head b + n = upper_head b")
    case True
    with assms(1) n show ?thesis
      by (auto simp: read_bytes_def read_bytes_size_def buffer_ok_def unread_def min_def)
  next
    case False
    with assms(1) n show ?thesis
      by (auto simp: read_bytes_def read_bytes_size_def buffer_ok_def unread_def min_def
          drop_take add.commute)
  qed
qed

lemma read_bytes_short: "length (unread b) < n \<Longrightarrow> buffer_ok b \<Longrightarrow> read_bytes n b = None"
  by (simp add: read_bytes_def length_unread)

definition reader_ok :: "EmpWrapper \<Rightarrow> bool" where
  "reader_ok w \<longleftrightarrow> buffer_ok (ew_read_buffer w) \<and> \<not> ew_io_failed w"

lemma recv_buffered:
  assumes "reader_ok w" "n \<le> length (unread (ew_read_buffer w))"
  shows "\<exists>w'. recv_data_internal evs prepend n w s =
      Some (take n (unread (ew_read_buffer w)), w', s) \<and> reader_ok w' \<and>
      unread (ew_read_buffer w') = drop n (unread (ew_read_buffer w)) \<and> ew_counter w' = ew_counter w"
proof -
  obtain b' where "read_bytes n (ew_read_buffer w) = Some (take n (unread (ew_read_buffer w)), b')"
    "buffer_ok b'" "unread b' = drop n (unread (ew_read_buffer w))"
    using read_bytes_unread assms by (auto simp: reader_ok_def)
  moreover have "n \<le> read_bytes_size (ew_read_buffer w)"
    using assms by (simp add: reader_ok_def length_unread)
  ultimately show ?thesis using assms by (simp add: recv_data_internal_def reader_ok_def)
qed

text \<open>Filling an empty read buffer with the payload of a frame.\<close>

lemma fill_payload:
  assumes "fair ev" "reader_ok w" "unread (ew_read_buffer w) = []" "ssl_content s = p @ rest"
  shows "\<exists>w' s'. fill_read_buffer ev 0 (length p) w s = Some (w', s') \<and> \<not> ew_io_failed w' \<and>
     unread (ew_read_buffer w') = p \<and> (p \<noteq> [] \<longrightarrow> buffer_ok (ew_read_buffer w')) \<and>
     ssl_content s' = rest \<and> ew_counter w' = track_read (length p) (ew_counter w)"
proof -
  have z: "lower_head (ew_read_buffer w) = 0" "upper_head (ew_read_buffer w) = 0"
    using assms(2,3) length_unread [of "ew_read_buffer w"]
    by (auto simp: reader_ok_def buffer_ok_def read_bytes_size_def)
  obtain s' where "process_data_read ev 0 (length p) s [] = Some (Some (p, s'))" "ssl_content s' = rest"
    using process_data_read_complete [OF assms(1), of "length p" s 0 "[]"] assms(4) by auto
  with z assms(2) show ?thesis
    by (auto simp: fill_read_buffer_def Let_def buffer_resize_def buffer_clear_def add_read_def
        reader_ok_def unread_def read_bytes_size_def buffer_ok_def)
qed

lemma be_nat_frame_header: "n < 2 ^ 64 \<Longrightarrow> be_nat (nat_be 8 n) = n"
  by (rule be_nat_nat_be) simp

text \<open>A receive of more than is buffered: the rest comes from the next frame, and from that frame only.\<close>

lemma recv_next_frame:
  assumes "\<And>c. fair (evs c)" "reader_ok w" "unread (ew_read_buffer w) = u" "length u < n"
    and "ssl_content s = frame p @ rest" "p \<noteq> []" "length p \<le> 2 ^ 30"
  shows "if length u + length p < n then recv_data_internal evs True n w s = None
    else \<exists>w' s'. recv_data_internal evs True n w s = Some (take n (u @ p), w', s') \<and> reader_ok w' \<and>
      unread (ew_read_buffer w') = drop n (u @ p) \<and> ssl_content s' = rest \<and>
      ew_counter w' = track_read (length p) (track_read 8 (ew_counter w))"
proof -
  let ?h = "nat_be 8 (8 + length p)" and ?rb = "ew_read_buffer w" and ?k = "n - length u"
  have ok: "buffer_ok ?rb" "\<not> ew_io_failed w" "read_bytes_size ?rb = length u"
    using assms(2,3) length_unread [of ?rb] by (auto simp: reader_ok_def)
  obtain rb where rb: "read_bytes (length u) ?rb = Some (u, rb)" "buffer_ok rb" "unread rb = []"
    using read_bytes_unread [OF ok(1), of "length u"] assms(3) by auto
  let ?w0 = "w\<lparr>ew_read_buffer := rb\<rparr>"
  let ?w1 = "?w0\<lparr>ew_counter := track_read 8 (ew_counter w)\<rparr>"
  obtain s1 where s1: "process_data_read (evs 0) 0 8 s [] = Some (Some (?h, s1))" "ssl_content s1 = p @ rest"
    using process_data_read_complete [where ev = "evs 0" and n = 8 and s = s and i = 0 and acc = "[]", OF assms(1)]
      assms(5,6) by (auto simp: frame_def)
  have fs: "frame_size evs True ?k ?w0 s = Some (length p, ?w1, s1)"
    using s1(1) assms(7) by (simp add: frame_size_def be_nat_frame_header)
  have "reader_ok ?w1" "unread (ew_read_buffer ?w1) = []" using rb ok(2) by (simp_all add: reader_ok_def)
  from fill_payload [where ev = "evs 1", OF assms(1) this s1(2)]
  obtain w2 s2 where f: "fill_read_buffer (evs 1) 0 (length p) ?w1 s1 = Some (w2, s2)" "\<not> ew_io_failed w2"
    "unread (ew_read_buffer w2) = p" "buffer_ok (ew_read_buffer w2)" "ssl_content s2 = rest"
    "ew_counter w2 = track_read (length p) (track_read 8 (ew_counter w))"
    using assms(6) by auto
  have run: "recv_data_internal evs True n w s =
      do { (d, b) \<leftarrow> read_bytes ?k (ew_read_buffer w2); Some (u @ d, w2\<lparr>ew_read_buffer := b\<rparr>, s2) }"
    using ok(2,3) assms(4,7) rb(1) fs f(1) by (simp add: recv_data_internal_def)
  show ?thesis
  proof (cases "length u + length p < n")
    case True
    then show ?thesis using run read_bytes_short [of "ew_read_buffer w2" ?k] f(3,4) by simp
  next
    case False
    then have "?k \<le> length (unread (ew_read_buffer w2))" using f(3) by simp
    then obtain b where "read_bytes ?k (ew_read_buffer w2) = Some (take ?k p, b)" "buffer_ok b" "unread b = drop ?k p"
      using read_bytes_unread [OF f(4), of ?k] f(3) by blast
    with False run f(2,5,6) assms(4) show ?thesis by (simp add: reader_ok_def)
  qed
qed

lemma recv_frame:
  assumes "\<And>c. fair (evs c)" "reader_ok w" "unread (ew_read_buffer w) = []"
    and "ssl_content s = frame p @ rest" "0 < n" "n \<le> length p" "length p \<le> 2 ^ 30"
  shows "\<exists>w' s'. recv_data_internal evs True n w s = Some (take n p, w', s') \<and> reader_ok w' \<and>
     unread (ew_read_buffer w') = drop n p \<and> ssl_content s' = rest \<and>
     ew_counter w' = track_read (length p) (track_read 8 (ew_counter w))"
  using recv_next_frame [where evs = evs and n = n and p = p, OF assms(1-3) _ assms(4) _ assms(7)] assms(5,6) by fastforce

lemma recv_round_buffered:
  "reader_ok w \<Longrightarrow> unread (ew_read_buffer w) = concat ms \<Longrightarrow>
     \<exists>w'. recv_round evs (map length ms) w s = Some (ms, w', s) \<and> reader_ok w' \<and>
       unread (ew_read_buffer w') = [] \<and> ew_counter w' = ew_counter w"
proof (induction ms arbitrary: w)
  case (Cons m ms)
  obtain w' where "recv_data_internal evs True (length m) w s = Some (m, w', s)" "reader_ok w'"
      "unread (ew_read_buffer w') = concat ms" "ew_counter w' = ew_counter w"
    using recv_buffered [OF Cons.prems(1), of "length m" evs True s] Cons.prems(2) by auto
  with Cons.IH [of w'] show ?case by auto
qed simp

lemma recv_round_frame:
  assumes "\<And>c. fair (evs c)"
  shows "reader_ok w \<Longrightarrow> unread (ew_read_buffer w) = [] \<Longrightarrow> ssl_content s = frame (concat ms) @ rest \<Longrightarrow>
     length (concat ms) \<le> 2 ^ 30 \<Longrightarrow>
     \<exists>w' s'. recv_round evs (map length ms) w s = Some (ms, w', s') \<and> reader_ok w' \<and>
       unread (ew_read_buffer w') = [] \<and> ssl_content s' = rest \<and>
       read_counter (ew_counter w') = read_counter (ew_counter w) + of_nat (length (frame (concat ms)))"
proof (induction ms arbitrary: w)
  case Nil
  then show ?case by (simp add: frame_def)
next
  case (Cons m ms)
  show ?case
  proof (cases "m = []")
    case True
    then obtain w' where "recv_data_internal evs True 0 w s = Some ([], w', s)" "reader_ok w'"
        "unread (ew_read_buffer w') = []" "ew_counter w' = ew_counter w"
      using recv_buffered [OF Cons.prems(1), of 0 evs True s] Cons.prems(2) by auto
    with Cons.IH [of w'] Cons.prems True show ?thesis by auto
  next
    case False
    let ?p = "concat (m # ms)"
    obtain w' s' where 1: "recv_data_internal evs True (length m) w s = Some (m, w', s')" "reader_ok w'"
        "unread (ew_read_buffer w') = concat ms" "ssl_content s' = rest"
        "ew_counter w' = track_read (length ?p) (track_read 8 (ew_counter w))"
      using recv_frame [where evs = evs and n = "length m", OF assms Cons.prems(1-3)] Cons.prems(4) False by auto
    from recv_round_buffered [OF 1(2,3), of evs s'] 1(1,4,5) False show ?thesis
      by (auto simp: track_read_def frame_def)
  qed
qed

lemma send_rounds_frames:
  assumes "\<And>c. fair (evs c)"
  shows "idle_writer w \<Longrightarrow>
    \<exists>w' s'. send_rounds evs mss w s = Some (w', s') \<and> idle_writer w' \<and>
      ssl_content s' = ssl_content s @ concat (map (\<lambda>ms. frame (concat ms)) mss) \<and>
      write_counter (ew_counter w') =
        write_counter (ew_counter w) + of_nat (length (concat (map (\<lambda>ms. frame (concat ms)) mss)))"
proof (induction mss arbitrary: w s)
  case (Cons ms mss)
  from Cons.prems have "buffer (ew_write_buffer w) = buffer (ew_write_buffer w) @ []"
    "length (buffer (ew_write_buffer w)) = 8" "\<not> ew_io_failed w" "concat ms = [] @ concat ms"
    by (simp_all add: idle_writer_def)
  from send_round_frame [where evs = evs and s = s, OF assms this]
  obtain w' s' where 1: "send_round evs ms w s = Some (w', s')" "idle_writer w'"
    "ssl_content s' = ssl_content s @ frame (concat ms)"
    "write_counter (ew_counter w') = write_counter (ew_counter w) + of_nat (length (frame (concat ms)))"
    unfolding word_length_frame by (auto simp only: add.assoc)
  with Cons.IH [OF 1(2), of s'] show ?case by (auto simp: add.assoc)
qed simp

lemma recv_rounds_frames:
  assumes "\<And>c. fair (evs c)"
  shows "reader_ok w \<Longrightarrow> unread (ew_read_buffer w) = [] \<Longrightarrow>
     ssl_content s = concat (map (\<lambda>ms. frame (concat ms)) mss) @ rest \<Longrightarrow>
     \<forall>ms \<in> set mss. length (concat ms) \<le> 2 ^ 30 \<Longrightarrow>
     \<exists>w' s'. recv_rounds evs (map (map length) mss) w s = Some (mss, w', s') \<and> reader_ok w' \<and>
       unread (ew_read_buffer w') = [] \<and> ssl_content s' = rest \<and>
       read_counter (ew_counter w') =
         read_counter (ew_counter w) + of_nat (length (concat (map (\<lambda>ms. frame (concat ms)) mss)))"
proof (induction mss arbitrary: w s)
  case (Cons ms mss)
  obtain w' s' where 1: "recv_round evs (map length ms) w s = Some (ms, w', s')" "reader_ok w'"
      "unread (ew_read_buffer w') = []" "ssl_content s' = concat (map (\<lambda>ms. frame (concat ms)) mss) @ rest"
      "read_counter (ew_counter w') = read_counter (ew_counter w) + of_nat (length (frame (concat ms)))"
    using recv_round_frame [where evs = evs and s = s and ms = ms, OF assms Cons.prems(1,2)] Cons.prems(3,4) by auto
  with Cons.IH [OF 1(2-4)] Cons.prems(4) show ?case by (auto simp: add.assoc)
qed simp

lemma EmpWrapper_new_idle:
  "idle_writer (EmpWrapper_new True)" "reader_ok (EmpWrapper_new True)"
  "unread (ew_read_buffer (EmpWrapper_new True)) = []"
  by (simp_all add: EmpWrapper_new_def idle_writer_def reader_ok_def buffer_ok_def unread_def
      read_bytes_size_def buffer_resize_def SSLBuffer_empty_def)

lemma EmpWrapper_new_counter:
  "read_counter (ew_counter (EmpWrapper_new b)) = 0" "write_counter (ew_counter (EmpWrapper_new b)) = 0"
  by (simp_all add: EmpWrapper_new_def)

lemma ssl_content_empty: "ssl_content \<lparr>pending_app_data = [], incoming = []\<rparr> = []"
  by (simp add: ssl_content_def)

end
