(* ===== verification/Bignum.thy ===== *)
theory Bignum
  imports Surf_Prelude
begin

text \<open>
  The bignum operations of BoringSSL the protocols call.  A non-negative BIGNUM is a natural
  number; sizes, byte codecs, modular arithmetic and the binary inversion algorithm follow
  crypto/fipsmodule/bn.  Allocation failures are not modelled; a modulus of zero is an error, as
  BN_div makes it.  A draw from the generator is an argument, folded into the requested range.
\<close>

section \<open>Sizes and byte codecs\<close>

fun BN_num_bits :: "nat \<Rightarrow> nat" where
  "BN_num_bits x = (if x = 0 then 0 else Suc (BN_num_bits (x div 2)))"

declare BN_num_bits.simps [simp del]

definition BN_num_bytes :: "nat \<Rightarrow> nat" where
  "BN_num_bytes x = (BN_num_bits x + 7) div 8"

definition BN_bin2bn :: "bytes \<Rightarrow> nat" where
  "BN_bin2bn bs = be_nat bs"

definition BN_bn2bin_padded :: "nat \<Rightarrow> nat \<Rightarrow> bytes option" where
  "BN_bn2bin_padded len x = (if x < 256 ^ len then Some (nat_be len x) else None)"

lemma BN_num_bits_bounds: "x < 2 ^ BN_num_bits x \<and> (x \<noteq> 0 \<longrightarrow> 2 ^ (BN_num_bits x - 1) \<le> x)"
proof (induction x rule: BN_num_bits.induct)
  case (1 x)
  show ?case
  proof (cases "x = 0")
    case True
    then show ?thesis by (simp add: BN_num_bits.simps)
  next
    case False
    let ?k = "BN_num_bits (x div 2)"
    from 1 [OF False] have IH: "x div 2 < 2 ^ ?k" "x div 2 \<noteq> 0 \<longrightarrow> 2 ^ (?k - 1) \<le> x div 2" by auto
    have k: "BN_num_bits x = Suc ?k" using False BN_num_bits.simps [of x] by simp
    have up: "x < 2 ^ Suc ?k" using IH(1) by simp
    have "2 ^ ?k \<le> x"
    proof (cases "x div 2 = 0")
      case True
      then show ?thesis using False by (simp add: BN_num_bits.simps)
    next
      case nz: False
      then have "?k = Suc (?k - 1)" by (simp add: BN_num_bits.simps)
      then have "(2::nat) ^ ?k = 2 * 2 ^ (?k - 1)" by (metis power_Suc)
      also have "\<dots> \<le> 2 * (x div 2)" using IH(2) nz by simp
      also have "\<dots> \<le> x" by simp
      finally show ?thesis .
    qed
    with up show ?thesis by (simp add: k)
  qed
qed

lemma less_BN_num_bits: "x < 2 ^ BN_num_bits x"
  using BN_num_bits_bounds by simp

lemma BN_num_bits_le: "x < 2 ^ n \<Longrightarrow> BN_num_bits x \<le> n"
proof (induction n arbitrary: x)
  case 0
  then show ?case by (simp add: BN_num_bits.simps)
next
  case (Suc n)
  then have "BN_num_bits (x div 2) \<le> n" by (simp add: less_mult_imp_div_less mult.commute)
  then show ?case by (simp add: BN_num_bits.simps [of x])
qed

lemma BN_num_bits_mono: "x \<le> y \<Longrightarrow> BN_num_bits x \<le> BN_num_bits y"
  by (rule BN_num_bits_le) (meson le_less_trans less_BN_num_bits)

lemma less_BN_num_bytes: "x < 256 ^ BN_num_bytes x"
proof -
  have "x < 2 ^ BN_num_bits x" by (rule less_BN_num_bits)
  also have "(2::nat) ^ BN_num_bits x \<le> 2 ^ (8 * BN_num_bytes x)"
    by (rule power_increasing) (auto simp: BN_num_bytes_def)
  also have "(2::nat) ^ (8 * BN_num_bytes x) = 256 ^ BN_num_bytes x"
    by (simp add: power_mult)
  finally show ?thesis .
qed

lemma BN_bn2bin_padded_fits:
  "x < q \<Longrightarrow> BN_num_bytes q \<le> len \<Longrightarrow> BN_bn2bin_padded len x = Some (nat_be len x)"
proof -
  assume "x < q" "BN_num_bytes q \<le> len"
  then have "x < 256 ^ BN_num_bytes q" using less_BN_num_bytes [of q] by linarith
  also have "\<dots> \<le> 256 ^ len" by (rule power_increasing) (use \<open>BN_num_bytes q \<le> len\<close> in auto)
  finally show ?thesis by (simp add: BN_bn2bin_padded_def)
qed

lemma BN_bin2bn_nat_be: "x < q \<Longrightarrow> BN_num_bytes q \<le> len \<Longrightarrow> BN_bin2bn (nat_be len x) = x"
  using BN_bn2bin_padded_fits [of x q len]
  by (auto simp: BN_bn2bin_padded_def BN_bin2bn_def be_nat_nat_be split: if_splits)

section \<open>Modular arithmetic\<close>

definition BN_mod_add :: "nat \<Rightarrow> nat \<Rightarrow> nat \<Rightarrow> nat option" where
  "BN_mod_add a b m = (if m = 0 then None else Some ((a + b) mod m))"

definition BN_mod_sub :: "nat \<Rightarrow> nat \<Rightarrow> nat \<Rightarrow> nat option" where
  "BN_mod_sub a b m = (if m = 0 then None else Some (nat ((int a - int b) mod int m)))"

definition BN_mod_mul :: "nat \<Rightarrow> nat \<Rightarrow> nat \<Rightarrow> nat option" where
  "BN_mod_mul a b m = (if m = 0 then None else Some ((a * b) mod m))"

definition BN_mod_sqr :: "nat \<Rightarrow> nat \<Rightarrow> nat option" where
  "BN_mod_sqr a m = (if m = 0 then None else Some ((a * a) mod m))"

text \<open>A draw that succeeds, from the random number \<open>r\<close>; that the code gives up after a hundred draws outside
  the range is left out.\<close>

definition BN_rand_range_ex :: "nat \<Rightarrow> nat \<Rightarrow> nat \<Rightarrow> nat option" where
  "BN_rand_range_ex r min_inclusive max_exclusive =
     (if min_inclusive < max_exclusive
      then Some (min_inclusive + r mod (max_exclusive - min_inclusive)) else None)"

lemma BN_rand_range_ex_range:
  assumes "BN_rand_range_ex r lo hi = Some x"
  shows "lo \<le> x" "x < hi"
proof -
  from assms have "lo < hi" "x = lo + r mod (hi - lo)"
    by (auto simp: BN_rand_range_ex_def split: if_splits)
  moreover from \<open>lo < hi\<close> have "r mod (hi - lo) < hi - lo" by simp
  ultimately show "lo \<le> x" "x < hi" by linarith+
qed

section \<open>Inversion modulo an odd number\<close>

text \<open>The inner loops divide \<open>B\<close> by its largest power of two and \<open>X\<close> by the same power modulo
  \<open>n\<close>; here \<open>B\<close> is shifted one bit per round, where the code shifts once at the end.\<close>

function strip_twos :: "nat \<Rightarrow> nat \<Rightarrow> nat \<Rightarrow> nat \<times> nat" where
  "strip_twos n B X =
     (if B = 0 \<or> odd B then (B, X)
      else strip_twos n (B div 2) ((if odd X then X + n else X) div 2))"
  by pat_completeness auto
termination by (relation "measure (\<lambda>(n, B, X). B)") auto

declare strip_twos.simps [simp del]

lemma strip_twos_halve:
  "B \<noteq> 0 \<Longrightarrow> even B \<Longrightarrow>
     strip_twos n B X = strip_twos n (B div 2) ((if odd X then X + n else X) div 2)"
  by (subst strip_twos.simps) simp

lemma strip_twos_odd [simp]: "odd B \<Longrightarrow> strip_twos n B X = (B, X)"
  by (subst strip_twos.simps) simp

lemma strip_twos_zero [simp]: "strip_twos n 0 X = (0, X)"
  by (subst strip_twos.simps) simp

lemma strip_twos_fst:
  "B \<noteq> 0 \<Longrightarrow> 0 < fst (strip_twos n B X) \<and> fst (strip_twos n B X) \<le> B"
proof (induction n B X rule: strip_twos.induct)
  case (1 n B X)
  show ?case
  proof (cases "odd B")
    case True
    then show ?thesis using 1 by simp
  next
    case False
    then have "B div 2 \<noteq> 0" using 1(2) by auto
    with 1 False have "0 < fst (strip_twos n (B div 2) ((if odd X then X + n else X) div 2)) \<and>
        fst (strip_twos n (B div 2) ((if odd X then X + n else X) div 2)) \<le> B div 2"
      by blast
    moreover have "B div 2 \<le> B" by simp
    ultimately show ?thesis using strip_twos_halve [OF 1(2), of n X] False by auto
  qed
qed

function inv_odd_loop :: "nat \<Rightarrow> nat \<Rightarrow> nat \<Rightarrow> nat \<Rightarrow> nat \<Rightarrow> nat \<times> nat" where
  "inv_odd_loop n A B X Y =
     (if B = 0 \<or> A = 0 then (A, Y)
      else let B1 = fst (strip_twos n B X); X1 = snd (strip_twos n B X);
               A1 = fst (strip_twos n A Y); Y1 = snd (strip_twos n A Y)
           in if A1 \<le> B1 then inv_odd_loop n A1 (B1 - A1) (X1 + Y1) Y1
              else inv_odd_loop n (A1 - B1) B1 X1 (Y1 + X1))"
  by pat_completeness auto
termination
proof (relation "measure (\<lambda>(n, A, B, X, Y). A + B)", goal_cases)
  case (2 n A B X Y B1 X1 A1 Y1)
  then show ?case
    using strip_twos_fst [of B n X] strip_twos_fst [of A n Y] by simp
next
  case (3 n A B X Y B1 X1 A1 Y1)
  then show ?case
    using strip_twos_fst [of B n X] strip_twos_fst [of A n Y] by simp
qed simp

declare inv_odd_loop.simps [simp del]

definition BN_mod_inverse_odd :: "nat \<Rightarrow> nat \<Rightarrow> nat option" where
  "BN_mod_inverse_odd a n = do {
     check (odd n);
     check (a < n);
     let (A, Y) = inv_odd_loop n n a 1 0;
     check (A = 1);
     Some (nat ((int n - int Y) mod int n)) }"

definition BN_mod_inverse :: "(nat \<Rightarrow> nat \<Rightarrow> nat option) \<Rightarrow> nat \<Rightarrow> nat \<Rightarrow> nat option" where
  "BN_mod_inverse consttime a n = do {
     check (n \<noteq> 0);
     let r = (if n \<le> a then a mod n else a);
     if even n then consttime r n else BN_mod_inverse_odd r n }"

lemma strip_twos_gcd:
  "odd k \<Longrightarrow> gcd (fst (strip_twos n B X)) k = gcd B k"
proof (induction n B X rule: strip_twos.induct)
  case (1 n B X)
  show ?case
  proof (cases "B = 0 \<or> odd B")
    case True
    then show ?thesis by auto
  next
    case False
    then have "gcd B k = gcd (B div 2 * 2) k" by simp
    also have "\<dots> = gcd (B div 2) k"
      using \<open>odd k\<close> gcd_mult_right_right_cancel [of k 2 "B div 2"]
      by (simp add: gcd.commute mult.commute coprime_right_2_iff_odd)
    finally show ?thesis using 1 False by (simp add: strip_twos_halve)
  qed
qed

lemma strip_twos_is_odd: "B \<noteq> 0 \<Longrightarrow> odd (fst (strip_twos n B X))"
proof (induction n B X rule: strip_twos.induct)
  case (1 n B X)
  then show ?case
    by (cases "odd B") (auto simp: strip_twos_halve)
qed

text \<open>Halving \<open>X\<close> modulo \<open>n\<close> keeps \<open>X * a = B\<close> modulo \<open>n\<close>, in both signs.\<close>

lemma halve_step:
  fixes c :: int
  assumes "odd n" "(c * int X - int B) mod int n = 0" "even B"
  shows "(c * int ((if odd X then X + n else X) div 2) - int (B div 2)) mod int n = 0"
proof -
  let ?Z = "if odd X then X + n else X"
  have "even ?Z" using assms(1) by simp
  then have Z: "int ?Z = 2 * int (?Z div 2)" and B: "int B = 2 * int (B div 2)"
    using assms(3) by (metis dvd_mult_div_cancel of_nat_mult of_nat_numeral)+
  have "int n dvd c * int X - int B" using assms(2) by (simp add: mod_eq_0_iff_dvd)
  moreover have "int n dvd c * int ?Z - c * int X" by (simp add: algebra_simps)
  ultimately have "int n dvd c * int ?Z - int B"
    by (metis (no_types, opaque_lifting) add_diff_eq diff_add_cancel dvd_add)
  also have "c * int ?Z - int B = 2 * (c * int (?Z div 2) - int (B div 2))"
    by (subst Z, subst B) (simp add: algebra_simps)
  finally have "int n dvd 2 * (c * int (?Z div 2) - int (B div 2))" .
  moreover have "coprime (int n) 2" using assms(1) by simp
  ultimately have "int n dvd c * int (?Z div 2) - int (B div 2)"
    using coprime_dvd_mult_right_iff by blast
  then show ?thesis by (rule dvd_imp_mod_0)
qed

lemma strip_twos_inv:
  fixes c :: int
  assumes "odd n" "(c * int X - int B) mod int n = 0"
  shows "(c * int (snd (strip_twos n B X)) - int (fst (strip_twos n B X))) mod int n = 0"
  using assms
proof (induction n B X rule: strip_twos.induct)
  case (1 n B X)
  show ?case
  proof (cases "B = 0 \<or> odd B")
    case True
    then show ?thesis using 1 by auto
  next
    case False
    with 1 halve_step [OF 1(2,3)] show ?thesis by (simp add: strip_twos_halve)
  qed
qed

lemma mod0_add: "(x :: int) mod n = 0 \<Longrightarrow> y mod n = 0 \<Longrightarrow> z = x + y \<Longrightarrow> z mod n = 0"
  by (simp add: mod_eq_0_iff_dvd)

lemma mod0_diff: "(x :: int) mod n = 0 \<Longrightarrow> y mod n = 0 \<Longrightarrow> z = x - y \<Longrightarrow> z mod n = 0"
  by (simp add: mod_eq_0_iff_dvd)

lemma inv_odd_loop_correct:
  assumes "odd n" "0 < A" "odd A \<or> odd B"
    and "(int a * int X - int B) mod int n = 0" "(- int a * int Y - int A) mod int n = 0"
    and "inv_odd_loop n A B X Y = (A', Y')"
  shows "A' = gcd A B \<and> (- int a * int Y' - int A') mod int n = 0"
  using assms
proof (induction n A B X Y rule: inv_odd_loop.induct)
  case (1 n A B X Y)
  show ?case
  proof (cases "B = 0")
    case True
    then show ?thesis using 1(4,7,8) by (simp add: inv_odd_loop.simps)
  next
    case False
    define B1 X1 A1 Y1 where "B1 = fst (strip_twos n B X)" "X1 = snd (strip_twos n B X)"
      "A1 = fst (strip_twos n A Y)" "Y1 = snd (strip_twos n A Y)"
    note defs = B1_X1_A1_Y1_def
    have odds: "odd A1" "odd B1" using strip_twos_is_odd False 1(4) by (simp_all add: defs)
    have g: "gcd A1 B1 = gcd A B"
      using 1(5) strip_twos_gcd [of A n B X] strip_twos_gcd [of B n A Y]
        strip_twos_gcd [of B1 n A Y] strip_twos_gcd [of A1 n B X] odds
      by (auto simp: defs gcd.commute)
    have i: "(int a * int X1 - int B1) mod int n = 0" "(- int a * int Y1 - int A1) mod int n = 0"
      using strip_twos_inv [OF 1(3), where c = "int a"] strip_twos_inv [OF 1(3), where c = "- int a"] 1(6,7)
      by (simp_all add: defs)
    have pos: "0 < A1" "0 < B1" using odds by (auto simp: odd_pos)
    have run: "inv_odd_loop n A B X Y = (if A1 \<le> B1 then inv_odd_loop n A1 (B1 - A1) (X1 + Y1) Y1
              else inv_odd_loop n (A1 - B1) B1 X1 (Y1 + X1))"
      using False 1(4) by (subst inv_odd_loop.simps) (simp add: defs Let_def)
    show ?thesis
    proof (cases "A1 \<le> B1")
      case True
      have "(int a * int (X1 + Y1) - int (B1 - A1)) mod int n = 0"
        by (rule mod0_diff [OF i]) (use True in \<open>simp add: algebra_simps of_nat_diff\<close>)
      moreover have "gcd A1 (B1 - A1) = gcd A1 B1"
        using gcd_diff1_nat [OF True] by (simp add: gcd.commute)
      ultimately show ?thesis
        using 1(1) [OF _ defs True] 1(3,8) pos odds i g True run False 1(4)
        by auto
    next
      case F: False
      have "(- int a * int (Y1 + X1) - int (A1 - B1)) mod int n = 0"
        by (rule mod0_diff [OF i(2,1)]) (use F in \<open>simp add: algebra_simps of_nat_diff\<close>)
      then show ?thesis
        using 1(2) [OF _ defs F] 1(3,8) pos odds i g F run False 1(4)
        by (auto simp: gcd_diff1_nat)
    qed
  qed
qed

lemma BN_mod_inverse_odd_cases:
  assumes "odd n" "a < n"
  shows "if coprime a n
         then \<exists>r. BN_mod_inverse_odd a n = Some r \<and> r < n \<and> (a * r) mod n = 1 mod n
         else BN_mod_inverse_odd a n = None"
proof -
  obtain A Y where run: "inv_odd_loop n n a 1 0 = (A, Y)" by fastforce
  have res: "A = gcd n a" "(- int a * int Y - int A) mod int n = 0"
    using inv_odd_loop_correct [of n n a a 1 0 A Y] assms run by auto
  show ?thesis
  proof (cases "coprime a n")
    case True
    then have A: "A = 1" using res by (simp add: gcd.commute)
    define r where "r = nat ((int n - int Y) mod int n)"
    have n: "0 < n" using assms by simp
    then have ri: "int r = (int n - int Y) mod int n" by (simp add: r_def)
    have "int n dvd (- int a * int Y - 1)" using res(2) A by (simp add: mod_eq_0_iff_dvd)
    moreover have "int a * (int n - int Y) - 1 = int a * int n + (- int a * int Y - 1)"
      by (simp add: algebra_simps)
    ultimately have "int n dvd int a * (int n - int Y) - 1" by (metis dvd_add dvd_triv_right)
    then have "int a * (int n - int Y) mod int n = 1 mod int n" by (simp add: mod_eq_dvd_iff)
    then have "int a * int r mod int n = 1 mod int n"
      by (simp only: ri mod_mult_right_eq)
    then have "(a * r) mod n = 1 mod n"
      by (metis of_nat_1 of_nat_eq_iff of_nat_mod of_nat_mult)
    moreover have "r < n"
      using n pos_mod_bound [of "int n" "int n - int Y"] ri by linarith
    moreover have "BN_mod_inverse_odd a n = Some r"
      unfolding BN_mod_inverse_odd_def run r_def using assms A by simp
    ultimately show ?thesis using True by auto
  next
    case False
    then have "A \<noteq> 1" using res by (simp add: gcd.commute coprime_iff_gcd_eq_1)
    then have "BN_mod_inverse_odd a n = None"
      unfolding BN_mod_inverse_odd_def run by (simp add: result_simps)
    with False show ?thesis by simp
  qed
qed

lemma BN_mod_inverse_Some:
  assumes "odd n" "coprime a n"
  obtains r where "BN_mod_inverse ev a n = Some r" "r < n" "(a * r) mod n = 1 mod n"
proof -
  have "0 < n" using assms(1) by (simp add: odd_pos)
  then have "a mod n < n" "coprime (a mod n) n" using assms(2) by (simp_all add: coprime_mod_left_iff)
  with BN_mod_inverse_odd_cases [OF assms(1), of "a mod n"]
  obtain r where "BN_mod_inverse_odd (a mod n) n = Some r" "r < n" "(a mod n * r) mod n = 1 mod n"
    by auto
  moreover have "(if n \<le> a then a mod n else a) = a mod n" by simp
  ultimately show ?thesis
    using that [of r] assms(1) \<open>0 < n\<close> by (simp add: BN_mod_inverse_def Let_def mod_simps)
qed

lemma BN_mod_inverse_None:
  assumes "odd n" "\<not> coprime a n"
  shows "BN_mod_inverse ev a n = None"
proof -
  have "0 < n" using assms(1) by (simp add: odd_pos)
  then have "a mod n < n" "\<not> coprime (a mod n) n"
    using assms(2) by (simp_all add: coprime_mod_left_iff)
  moreover have "(if n \<le> a then a mod n else a) = a mod n" by simp
  ultimately show ?thesis
    using BN_mod_inverse_odd_cases [OF assms(1), of "a mod n"] assms(1) \<open>0 < n\<close>
    by (simp add: BN_mod_inverse_def Let_def)
qed

end
