(* ===== verification/MtA_Mod.thy ===== *)
theory MtA_Mod
  imports OT_Extension Bignum Channel "HOL-Library.Multiset"
begin

text \<open>
  The multiplication protocol over the integers modulo \<open>q\<close> (mta/MtA.cpp): two parties holding \<open>a\<close>
  and \<open>b\<close> obtain shares that add up to \<open>a * b\<close>.  Pointers are never null and allocations succeed;
  a false return or a failed assertion is None.  Uninitialised memory is the argument \<open>junk\<close>.  The
  two sides of a run are one definition: what one side sends is handed to the other, the transfers
  through the argument \<open>ot\<close>, the byte messages through a TLS direction of Channel.
\<close>

section \<open>Arrays\<close>

definition mta_k :: nat where
  "mta_k = 512"

definition sizeof_block :: nat where
  "sizeof_block = 16"

definition round_up_to_block :: "32 word \<Rightarrow> 32 word" where
  "round_up_to_block sz = (sz + 16 - 1) AND - 16"

text \<open>The number of OTs and the padded width of a bignum below \<open>q\<close>.\<close>

definition mta_n :: "nat \<Rightarrow> nat" where
  "mta_n q = BN_num_bits q + mta_k"

definition mta_size :: "nat \<Rightarrow> nat" where
  "mta_size q = unat (round_up_to_block (of_nat (BN_num_bytes q)))"

definition nr_bytes_to_allocate :: "64 word \<Rightarrow> 64 word" where
  "nr_bytes_to_allocate sz = (if sz = 0 then 0 else (sz + 16 - 1) AND - 16)"

definition PackArray_init :: "(nat \<Rightarrow> byte) \<Rightarrow> nat \<Rightarrow> bytes \<Rightarrow> bytes" where
  "PackArray_init junk new_size arr =
     (if new_size = length arr then arr else map junk [0..<new_size])"

definition EmpBlockSpan_init :: "nat \<Rightarrow> block list \<Rightarrow> block list" where
  "EmpBlockSpan_init new_size bs = (if new_size = length bs then bs else replicate new_size 0)"

text \<open>The view of a byte array as blocks, and back.\<close>

function as_blocks :: "bytes \<Rightarrow> block list" where
  "as_blocks bs =
     (if length bs < sizeof_block then []
      else arr_to_block (take sizeof_block bs) # as_blocks (drop sizeof_block bs))"
  by pat_completeness auto
termination by (relation "measure length") (auto simp: sizeof_block_def)

declare as_blocks.simps [simp del]

definition as_bytes :: "block list \<Rightarrow> bytes" where
  "as_bytes bs = concat (map block_to_arr bs)"

definition convert_arr_to_block_inplace :: "bytes \<Rightarrow> block list \<Rightarrow> block list option" where
  "convert_arr_to_block_inplace arr blocks = do {
     check (arr \<noteq> [] \<and> blocks \<noteq> []);
     check (length arr mod sizeof_block = 0);
     check (length blocks = length arr div sizeof_block);
     Some (as_blocks arr) }"

definition convert_arr_to_block :: "bytes \<Rightarrow> block list option" where
  "convert_arr_to_block arr = do {
     check (length arr mod sizeof_block = 0);
     let b = EmpBlockSpan_init (length arr div sizeof_block) [];
     Some (case convert_arr_to_block_inplace arr b of Some b' \<Rightarrow> b' | None \<Rightarrow> b) }"

definition convert_block_to_arr_init :: "(nat \<Rightarrow> byte) \<Rightarrow> bytes \<Rightarrow> nat \<Rightarrow> bytes option" where
  "convert_block_to_arr_init junk arr n = do {
     check (n \<noteq> 0); Some (PackArray_init junk (sizeof_block * n) arr) }"

definition convert_block_to_arr_inplace :: "block list \<Rightarrow> bytes \<Rightarrow> bytes option" where
  "convert_block_to_arr_inplace blocks arr = do {
     check (blocks \<noteq> []);
     check (length arr = sizeof_block * length blocks);
     Some (as_bytes blocks) }"

definition convert_block_to_arr :: "(nat \<Rightarrow> byte) \<Rightarrow> block list \<Rightarrow> bytes \<Rightarrow> bytes option" where
  "convert_block_to_arr junk blocks arr =
     convert_block_to_arr_init junk arr (length blocks) \<bind> convert_block_to_arr_inplace blocks"

section \<open>Vectors, serialisation, choice bits\<close>

definition generate_random_vector_inplace :: "(nat \<Rightarrow> nat) \<Rightarrow> nat list \<Rightarrow> nat \<Rightarrow> nat list option" where
  "generate_random_vector_inplace rnd out q =
     those (map (\<lambda>i. BN_rand_range_ex (rnd i) 1 q) [0..<length out])"

definition generate_random_vector_init :: "nat \<Rightarrow> nat list" where
  "generate_random_vector_init vector_size = replicate vector_size 0"

definition generate_random_vector :: "(nat \<Rightarrow> nat) \<Rightarrow> nat \<Rightarrow> nat \<Rightarrow> nat list option" where
  "generate_random_vector rnd vector_size q =
     generate_random_vector_inplace rnd (generate_random_vector_init vector_size) q"

definition serialise_bignums_init :: "(nat \<Rightarrow> byte) \<Rightarrow> nat \<Rightarrow> nat \<Rightarrow> bytes \<Rightarrow> bytes option" where
  "serialise_bignums_init junk in_size size_of_each out = do {
     check (in_size \<noteq> 0 \<and> size_of_each \<noteq> 0);
     check (size_of_each mod sizeof_block = 0);
     Some (PackArray_init junk (in_size * size_of_each) out) }"

fun serialise_loop :: "nat \<Rightarrow> nat list \<Rightarrow> bytes option" where
  "serialise_loop w [] = Some []"
| "serialise_loop w (x # xs) = do {
     h \<leftarrow> BN_bn2bin_padded w x; r \<leftarrow> serialise_loop w xs; Some (h @ r) }"

definition serialise_bignums_inplace :: "bytes \<Rightarrow> nat list \<Rightarrow> nat \<Rightarrow> bytes option" where
  "serialise_bignums_inplace out xs size_of_each = do {
     check (size_of_each * length xs = length out); serialise_loop size_of_each xs }"

definition serialise_bignums :: "(nat \<Rightarrow> byte) \<Rightarrow> bytes \<Rightarrow> nat list \<Rightarrow> nat \<Rightarrow> bytes option" where
  "serialise_bignums junk out xs size_of_each = do {
     out' \<leftarrow> serialise_bignums_init junk (length xs) size_of_each out;
     serialise_bignums_inplace out' xs size_of_each }"

fun inner_product_loop :: "nat \<Rightarrow> nat \<Rightarrow> bytes \<Rightarrow> nat list \<Rightarrow> nat \<Rightarrow> nat option" where
  "inner_product_loop w q cur [] out = Some out"
| "inner_product_loop w q cur (r # rs) out = do {
     tmp \<leftarrow> BN_mod_mul r (BN_bin2bn (take w cur)) q;
     s1 \<leftarrow> BN_mod_add out tmp q;
     inner_product_loop w q (drop w cur) rs s1 }"

definition deserialise_inner_product :: "bytes \<Rightarrow> nat list \<Rightarrow> nat \<Rightarrow> nat \<Rightarrow> nat option" where
  "deserialise_inner_product lhs rhs size_of_each q = do {
     check (size_of_each \<noteq> 0 \<and> rhs \<noteq> [] \<and> lhs \<noteq> [] \<and> length lhs = size_of_each * length rhs);
     inner_product_loop size_of_each q lhs rhs 0 }"

definition expand_t_to_ot_width_inplace :: "nat \<Rightarrow> bool list \<Rightarrow> bool list \<Rightarrow> bool list option" where
  "expand_t_to_ot_width_inplace ots_per_bignum t out = do {
     check (ots_per_bignum \<noteq> 0);
     check (length out = ots_per_bignum * length t);
     Some (concat (map (replicate ots_per_bignum) t)) }"

definition expand_t_to_ot_width_init :: "nat \<Rightarrow> nat \<Rightarrow> bool list" where
  "expand_t_to_ot_width_init ots_per_bignum nr_entries = replicate (ots_per_bignum * nr_entries) False"

definition expand_t_to_ot_width :: "nat \<Rightarrow> bool list \<Rightarrow> bool list option" where
  "expand_t_to_ot_width max_bytes t = do {
     check (t \<noteq> [] \<and> max_bytes \<noteq> 0);
     check (max_bytes mod sizeof_block = 0);
     let ots_per_bignum = max_bytes div sizeof_block;
     expand_t_to_ot_width_inplace ots_per_bignum t (expand_t_to_ot_width_init ots_per_bignum (length t)) }"

section \<open>The receiver's vectors\<close>

text \<open>The draws of a receiver: the entries of \<open>v\<close>, the results of rand(), the position and the mask.\<close>

record receiver_rand =
  rr_v :: "nat \<Rightarrow> nat"
  rr_t :: "nat \<Rightarrow> nat"
  rr_pos :: "32 word"
  rr_sigma :: nat

definition swap_at :: "nat \<Rightarrow> nat \<Rightarrow> 'a list \<Rightarrow> 'a list" where
  "swap_at i j xs = xs[i := xs ! j, j := xs ! i]"

fun signed_total :: "nat \<Rightarrow> bool list \<Rightarrow> nat list \<Rightarrow> nat \<Rightarrow> nat option" where
  "signed_total q (t # ts) (v # vs) tot = do {
     tot' \<leftarrow> (if t then BN_mod_add tot v q else BN_mod_sub tot v q);
     signed_total q ts vs tot' }"
| "signed_total q _ _ tot = Some tot"

definition generate_t_and_v_inplace ::
  "receiver_rand \<Rightarrow> nat \<Rightarrow> nat \<Rightarrow> bool list \<Rightarrow> nat list \<Rightarrow> (bool list \<times> nat list) option" where
  "generate_t_and_v_inplace rr b q t v = do {
     let n = mta_n q;
     check (length t = n);
     check (length v = n);
     v \<leftarrow> generate_random_vector_inplace (rr_v rr) v q;
     let t = map (\<lambda>i. rr_t rr i \<noteq> 0) [0..<n];
     tot \<leftarrow> signed_total q (take (n - 1) t) (take (n - 1) v) 0;
     let pos = unat (rr_pos rr) mod (n - 1);
     let t = swap_at (n - 1) pos (t[n - 1 := True]);
     d \<leftarrow> BN_mod_sub b tot q;
     Some (t, swap_at (n - 1) pos (v[n - 1 := d])) }"

definition generate_t_and_v_init :: "nat \<Rightarrow> bool list \<times> nat list" where
  "generate_t_and_v_init q = (replicate (mta_n q) False, replicate (mta_n q) 0)"

definition generate_t_and_v :: "receiver_rand \<Rightarrow> nat \<Rightarrow> nat \<Rightarrow> (bool list \<times> nat list) option" where
  "generate_t_and_v rr b q =
     (let (t, v) = generate_t_and_v_init q in generate_t_and_v_inplace rr b q t v)"

section \<open>The sender's pairs\<close>

fun sender_pairs_loop :: "nat list \<Rightarrow> nat \<Rightarrow> nat \<Rightarrow> nat \<Rightarrow> (bytes \<times> bytes) option" where
  "sender_pairs_loop [] a w q = Some ([], [])"
| "sender_pairs_loop (d # ds) a w q = do {
     add \<leftarrow> BN_mod_add d a q;
     sub \<leftarrow> BN_mod_sub d a q;
     add_data \<leftarrow> BN_bn2bin_padded w add;
     sub_data \<leftarrow> BN_bn2bin_padded w sub;
     (adds, subs) \<leftarrow> sender_pairs_loop ds a w q;
     Some (add_data @ adds, sub_data @ subs) }"

definition produce_sender_pairs_inplace ::
  "nat list \<Rightarrow> nat \<Rightarrow> nat \<Rightarrow> bytes \<Rightarrow> bytes \<Rightarrow> nat \<Rightarrow> (bytes \<times> bytes) option" where
  "produce_sender_pairs_inplace delta a size_of_each add_pack sub_pack q = do {
     let n = length delta;
     check (n \<noteq> 0);
     check (size_of_each mod sizeof_block = 0);
     check (length add_pack = size_of_each * n);
     check (length sub_pack = size_of_each * n);
     sender_pairs_loop delta a size_of_each q }"

definition produce_sender_pairs_init ::
  "(nat \<Rightarrow> byte) \<Rightarrow> bytes \<Rightarrow> bytes \<Rightarrow> nat \<Rightarrow> nat \<Rightarrow> (bytes \<times> bytes) option" where
  "produce_sender_pairs_init junk add_pack sub_pack n size_of_each = do {
     check (size_of_each mod sizeof_block = 0);
     Some (PackArray_init junk (size_of_each * n) add_pack,
           PackArray_init junk (size_of_each * n) sub_pack) }"

definition produce_sender_pairs ::
  "(nat \<Rightarrow> byte) \<Rightarrow> nat list \<Rightarrow> nat \<Rightarrow> nat \<Rightarrow> bytes \<Rightarrow> bytes \<Rightarrow> nat \<Rightarrow> (bytes \<times> bytes) option" where
  "produce_sender_pairs junk delta a size_of_each add_pack sub_pack q = do {
     check (length delta \<noteq> 0);
     (add_pack, sub_pack) \<leftarrow>
       produce_sender_pairs_init junk add_pack sub_pack (length delta) size_of_each;
     produce_sender_pairs_inplace delta a size_of_each add_pack sub_pack q }"

section \<open>Entries\<close>

record ReceiverEntry =
  re_t :: "bool list"
  re_t_extended :: "bool list"
  re_v :: "nat list"
  re_v_serialised :: bytes
  re_sigma_serialised :: bytes
  re_z :: "block list"

record SenderEntry =
  se_delta :: "nat list"
  se_add_pack :: bytes
  se_sub_pack :: bytes
  se_vals :: bytes
  se_sigma_v :: bytes

definition initialise_entries_for_receiver ::
  "(nat \<Rightarrow> byte) \<Rightarrow> nat \<Rightarrow> ReceiverEntry \<Rightarrow> ReceiverEntry option" where
  "initialise_entries_for_receiver junk q re = do {
     let n = mta_n q;
     let size_of_each = mta_size q;
     check (BN_num_bytes q \<le> size_of_each);
     let (t, v) = generate_t_and_v_init q;
     let t_extended = expand_t_to_ot_width_init (size_of_each div sizeof_block) n;
     v_serialised \<leftarrow> serialise_bignums_init junk n size_of_each (re_v_serialised re);
     Some \<lparr>re_t = t, re_t_extended = t_extended, re_v = v, re_v_serialised = v_serialised,
           re_sigma_serialised = replicate size_of_each 0,
           re_z = EmpBlockSpan_init (length t_extended) (re_z re)\<rparr> }"

definition initialise_entries_for_sender ::
  "(nat \<Rightarrow> byte) \<Rightarrow> nat \<Rightarrow> nat \<Rightarrow> SenderEntry \<Rightarrow> SenderEntry option" where
  "initialise_entries_for_sender junk n q se = do {
     let delta = generate_random_vector_init n;
     let size_of_each = mta_size q;
     (add_pack, sub_pack) \<leftarrow>
       produce_sender_pairs_init junk (se_add_pack se) (se_sub_pack se) n size_of_each;
     Some \<lparr>se_delta = delta, se_add_pack = add_pack, se_sub_pack = sub_pack,
           se_vals = PackArray_init junk (n * size_of_each) (se_vals se),
           se_sigma_v = replicate size_of_each 0\<rparr> }"

definition empty_receiver :: ReceiverEntry where
  "empty_receiver = \<lparr>re_t = [], re_t_extended = [], re_v = [], re_v_serialised = [],
     re_sigma_serialised = [], re_z = []\<rparr>"

definition empty_sender :: SenderEntry where
  "empty_sender = \<lparr>se_delta = [], se_add_pack = [], se_sub_pack = [], se_vals = [], se_sigma_v = []\<rparr>"

section \<open>The oblivious transfers\<close>

text \<open>The receiver's side of a transfer is offered as a function of its choice bits.\<close>

definition receiver_ot :: "(bool list \<Rightarrow> block list option) \<Rightarrow> block list \<Rightarrow> bool list \<Rightarrow> block list option" where
  "receiver_ot transfer r choices = do {
     check (\<not> (length r \<noteq> length choices \<or> length r = 0)); transfer choices }"

definition sender_ot ::
  "(block list \<Rightarrow> block list \<Rightarrow> bool list \<Rightarrow> block list option) \<Rightarrow> block list \<Rightarrow> block list \<Rightarrow>
     (bool list \<Rightarrow> block list option) option" where
  "sender_ot ot b0 b1 = do {
     check (\<not> (length b1 \<noteq> length b0 \<or> length b1 = 0)); Some (ot b0 b1) }"

section \<open>The two sides\<close>

definition receiver_prepare ::
  "receiver_rand \<Rightarrow> nat \<Rightarrow> nat \<Rightarrow> ReceiverEntry \<Rightarrow> (ReceiverEntry \<times> nat) option" where
  "receiver_prepare rr b q re = do {
     let size_of_each = mta_size q;
     check (BN_num_bytes q \<le> size_of_each);
     let ots_per_bignum = size_of_each div sizeof_block;
     (t, v) \<leftarrow> generate_t_and_v_inplace rr b q (re_t re) (re_v re);
     t_extended \<leftarrow> expand_t_to_ot_width_inplace ots_per_bignum t (re_t_extended re);
     v_serialised \<leftarrow> serialise_bignums_inplace (re_v_serialised re) v size_of_each;
     sigma \<leftarrow> BN_rand_range_ex (rr_sigma rr) 1 q;
     sigma_serialised \<leftarrow> BN_bn2bin_padded size_of_each sigma;
     Some (re\<lparr>re_t := t, re_t_extended := t_extended, re_v := v, re_v_serialised := v_serialised,
             re_sigma_serialised := sigma_serialised\<rparr>, sigma) }"

definition receiver_finish :: "nat \<Rightarrow> ReceiverEntry \<Rightarrow> nat \<Rightarrow> nat option" where
  "receiver_finish q re sigma = do {
     tmp \<leftarrow> deserialise_inner_product (as_bytes (re_z re)) (re_v re) (mta_size q) q;
     BN_mod_add tmp sigma q }"

definition sender_prepare :: "(nat \<Rightarrow> nat) \<Rightarrow> nat \<Rightarrow> nat \<Rightarrow> SenderEntry \<Rightarrow> SenderEntry option" where
  "sender_prepare rs a q se = do {
     delta \<leftarrow> generate_random_vector_inplace rs (se_delta se) q;
     let size_of_each = mta_size q;
     check (BN_num_bytes q \<le> size_of_each);
     (add_pack, sub_pack) \<leftarrow>
       produce_sender_pairs_inplace delta a size_of_each (se_add_pack se) (se_sub_pack se) q;
     Some (se\<lparr>se_delta := delta, se_add_pack := add_pack, se_sub_pack := sub_pack\<rparr>) }"

definition sender_read :: "nat \<Rightarrow> SenderEntry \<Rightarrow> ssl \<Rightarrow> (SenderEntry \<times> nat \<times> ssl) option" where
  "sender_read q se s = do {
     let size_of_each = mta_size q;
     (vals, s) \<leftarrow> ssl_read_loop (mta_n q * size_of_each) s [];
     check (size_of_each < SSL3_RT_MAX_PLAIN_LENGTH);
     (sigma_v, s) \<leftarrow> SSL_read size_of_each s;
     check (length sigma_v = size_of_each);
     Some (se\<lparr>se_vals := vals, se_sigma_v := sigma_v\<rparr>, BN_bin2bn sigma_v, s) }"

definition sender_finish :: "nat \<Rightarrow> SenderEntry \<Rightarrow> nat \<Rightarrow> nat option" where
  "sender_finish q se sigma = do {
     tmp \<leftarrow> deserialise_inner_product (se_vals se) (se_delta se) (mta_size q) q;
     share \<leftarrow> BN_mod_sub 0 tmp q;
     BN_mod_sub share sigma q }"

definition play_inplace ::
  "(block list \<Rightarrow> block list \<Rightarrow> bool list \<Rightarrow> block list option) \<Rightarrow> (nat \<Rightarrow> nat) \<Rightarrow> receiver_rand \<Rightarrow>
     nat \<Rightarrow> nat \<Rightarrow> nat \<Rightarrow> SenderEntry \<Rightarrow> ReceiverEntry \<Rightarrow> ssl \<Rightarrow>
     ((nat \<times> SenderEntry) \<times> (nat \<times> ReceiverEntry) \<times> ssl) option" where
  "play_inplace ot rs rr q a b se re s = do {
     check (BN_num_bits a \<le> BN_num_bits q);
     se \<leftarrow> sender_prepare rs a q se;
     (re, sigma) \<leftarrow> receiver_prepare rr b q re;
     z \<leftarrow> receiver_ot (ot (as_blocks (se_sub_pack se)) (as_blocks (se_add_pack se)))
            (re_z re) (re_t_extended re);
     let re = re\<lparr>re_z := z\<rparr>;
     let s = SSL_write (re_sigma_serialised re) (SSL_write (re_v_serialised re) s);
     out_r \<leftarrow> receiver_finish q re sigma;
     (se, sigma', s) \<leftarrow> sender_read q se s;
     out_s \<leftarrow> sender_finish q se sigma';
     Some ((out_s, se), (out_r, re), s) }"

definition play ::
  "(block list \<Rightarrow> block list \<Rightarrow> bool list \<Rightarrow> block list option) \<Rightarrow> (nat \<Rightarrow> byte) \<Rightarrow> (nat \<Rightarrow> nat) \<Rightarrow>
     receiver_rand \<Rightarrow> nat \<Rightarrow> nat \<Rightarrow> nat \<Rightarrow> ssl \<Rightarrow>
     ((nat \<times> SenderEntry) \<times> (nat \<times> ReceiverEntry) \<times> ssl) option" where
  "play ot junk rs rr q a b s = do {
     se \<leftarrow> initialise_entries_for_sender junk (mta_n q) q empty_sender;
     re \<leftarrow> initialise_entries_for_receiver junk q empty_receiver;
     play_inplace ot rs rr q a b se re s }"

text \<open>Two multiplications over a single transfer.\<close>

definition play_inplace_2 ::
  "(block list \<Rightarrow> block list \<Rightarrow> bool list \<Rightarrow> block list option) \<Rightarrow> (nat \<Rightarrow> nat) \<Rightarrow> (nat \<Rightarrow> nat) \<Rightarrow>
     receiver_rand \<Rightarrow> receiver_rand \<Rightarrow> nat \<Rightarrow> nat \<Rightarrow> nat \<Rightarrow> nat \<Rightarrow> nat \<Rightarrow>
     SenderEntry \<Rightarrow> SenderEntry \<Rightarrow> ReceiverEntry \<Rightarrow> ReceiverEntry \<Rightarrow> ssl \<Rightarrow>
     ((nat \<times> nat) \<times> (SenderEntry \<times> SenderEntry) \<times> (nat \<times> nat) \<times> (ReceiverEntry \<times> ReceiverEntry) \<times> ssl) option" where
  "play_inplace_2 ot rs1 rs2 rr1 rr2 q a1 a2 b1 b2 se1 se2 re1 re2 s = do {
     se1 \<leftarrow> sender_prepare rs1 a1 q se1;
     se2 \<leftarrow> sender_prepare rs2 a2 q se2;
     let half = length (se_sub_pack se1);
     check (\<not> (half \<noteq> length (se_sub_pack se2) \<or> half \<noteq> length (se_add_pack se1) \<or>
               half \<noteq> length (se_add_pack se2)));
     (re1, sigma1) \<leftarrow> receiver_prepare rr1 b1 q re1;
     (re2, sigma2) \<leftarrow> receiver_prepare rr2 b2 q re2;
     check (length (re_t_extended re1) = length (re_t_extended re2));
     let t_all = re_t_extended re1 @ re_t_extended re2;
     z_all \<leftarrow> receiver_ot
       (ot (as_blocks (se_sub_pack se1 @ se_sub_pack se2)) (as_blocks (se_add_pack se1 @ se_add_pack se2)))
       (EmpBlockSpan_init (length t_all) []) t_all;
     let re1 = re1\<lparr>re_z := take (length (re_t_extended re1)) z_all\<rparr>;
     let re2 = re2\<lparr>re_z := drop (length (re_t_extended re1)) z_all\<rparr>;
     let s = SSL_write (re_sigma_serialised re1) (SSL_write (re_v_serialised re1) s);
     let s = SSL_write (re_sigma_serialised re2) (SSL_write (re_v_serialised re2) s);
     r1 \<leftarrow> receiver_finish q re1 sigma1;
     r2 \<leftarrow> receiver_finish q re2 sigma2;
     (se1, sg1, s) \<leftarrow> sender_read q se1 s;
     (se2, sg2, s) \<leftarrow> sender_read q se2 s;
     s1 \<leftarrow> sender_finish q se1 sg1;
     s2 \<leftarrow> sender_finish q se2 sg2;
     Some ((s1, s2), (se1, se2), (r1, r2), (re1, re2), s) }"

section \<open>Widths\<close>

lemma and_minus_16: "(x :: 'a :: len word) AND - 16 = push_bit 4 (drop_bit 4 x)"
proof -
  have "(- 16 :: 'a word) = NOT (mask 4)"
    by (simp add: not_eq_complement mask_eq_exp_minus_1)
  then show ?thesis
    by (intro bit_word_eqI)
       (auto simp only: bit_and_iff bit_not_iff bit_mask_iff bit_push_bit_iff bit_drop_bit_eq
         possible_bit_word not_le o_apply le_add_diff_inverse linorder_not_less)
qed

lemma unat_and_minus_16:
  "unat ((x :: 32 word) AND - 16) = unat x div 16 * 16"
proof -
  have "unat (push_bit 4 (drop_bit 4 x)) = take_bit 32 (push_bit 4 (drop_bit 4 (unat x)))"
    using unsigned_less [of x, where 'a = nat]
    by (simp only: unsigned_push_bit_eq unsigned_drop_bit_eq) (simp add: take_bit_nat_eq_self)
  also have "\<dots> = unat x div 16 * 16 mod 2 ^ 32"
    by (simp only: push_bit_eq_mult drop_bit_eq_div take_bit_eq_mod) simp
  also have "\<dots> = unat x div 16 * 16"
    using unsigned_less [of x, where 'a = nat] div_times_less_eq_dividend [of "unat x" 16]
    by (intro mod_less) simp
  finally show ?thesis by (simp only: and_minus_16)
qed

lemma unat_round_up_to_block:
  assumes "unat sz \<le> 2 ^ 32 - 16"
  shows "unat (round_up_to_block sz) = (unat sz + 15) div 16 * 16"
proof -
  have "unat (15 + sz) = unat sz + 15"
    using assms by (simp add: unat_word_ariths(1))
  then show ?thesis by (simp add: round_up_to_block_def unat_and_minus_16)
qed

lemma round_up_to_block_wraps:
  assumes "2 ^ 32 - 16 < unat sz"
  shows "round_up_to_block sz = 0"
proof -
  have "unat (15 + sz) < 16"
    using assms unsigned_less [of sz, where 'a = nat] by (simp add: unat_word_ariths(1) le_mod_geq)
  then have "unat (round_up_to_block sz) = 0"
    by (simp add: round_up_to_block_def unat_and_minus_16)
  then show ?thesis by (simp add: unat_eq_0)
qed

definition mta_modulus :: "nat \<Rightarrow> bool" where
  "mta_modulus q \<longleftrightarrow> 1 < q \<and> BN_num_bits q \<le> 521"

lemma mta_num_bytes: "mta_modulus q \<Longrightarrow> BN_num_bytes q \<le> 66"
  using div_le_mono [of "BN_num_bits q + 7" 528 8] by (simp add: mta_modulus_def BN_num_bytes_def)

lemma mta_size_eq:
  assumes "mta_modulus q"
  shows "mta_size q = (BN_num_bytes q + 15) div 16 * 16"
proof -
  have "BN_num_bytes q \<le> 66" by (rule mta_num_bytes [OF assms])
  moreover from this have "unat (of_nat (BN_num_bytes q) :: 32 word) = BN_num_bytes q"
    by (simp add: unat_of_nat)
  ultimately show ?thesis
    unfolding mta_size_def by (subst unat_round_up_to_block) simp_all
qed

lemma BN_num_bits_pos: "0 < q \<Longrightarrow> 0 < BN_num_bits q"
  by (subst BN_num_bits.simps) simp

lemma mta_sizes:
  assumes "mta_modulus q"
  shows "BN_num_bytes q \<le> mta_size q" "mta_size q mod sizeof_block = 0" "0 < mta_size q"
    "mta_size q < SSL3_RT_MAX_PLAIN_LENGTH" "0 < mta_size q div sizeof_block"
    "mta_size q div sizeof_block * sizeof_block = mta_size q"
proof -
  have b: "0 < BN_num_bytes q" "BN_num_bytes q \<le> 66"
    using assms BN_num_bits_pos [of q] mta_num_bytes [OF assms]
    by (auto simp: mta_modulus_def BN_num_bytes_def Suc_leI)
  note e = mta_size_eq [OF assms]
  show "BN_num_bytes q \<le> mta_size q" "mta_size q mod sizeof_block = 0" "0 < mta_size q"
      "mta_size q < SSL3_RT_MAX_PLAIN_LENGTH" "0 < mta_size q div sizeof_block"
      "mta_size q div sizeof_block * sizeof_block = mta_size q"
    using b unfolding e sizeof_block_def SSL3_RT_MAX_PLAIN_LENGTH_def by simp_all
qed

section \<open>Blocks and bytes\<close>

lemma as_blocks_Nil [simp]: "as_blocks [] = []"
  by (simp add: as_blocks.simps sizeof_block_def)

lemma as_blocks_block: "length b = 16 \<Longrightarrow> as_blocks (b @ bs) = arr_to_block b # as_blocks bs"
  by (subst as_blocks.simps) (simp add: sizeof_block_def)

lemma as_blocks_as_bytes: "as_blocks (as_bytes bs) = bs"
  by (induction bs) (simp_all add: as_bytes_def as_blocks_block arr_to_block_to_arr)

lemma length_as_bytes [simp]: "length (as_bytes bs) = 16 * length bs"
  by (induction bs) (simp_all add: as_bytes_def)

lemma as_bytes_append: "as_bytes (xs @ ys) = as_bytes xs @ as_bytes ys"
  by (simp add: as_bytes_def)

lemma whole_blocks:
  assumes "length bs = 16 * k"
  obtains bl where "bs = as_bytes bl" "length bl = k"
  using assms
proof (induction k arbitrary: bs thesis)
  case 0
  then show ?case by (simp add: as_bytes_def)
next
  case (Suc k)
  then obtain bl where bl: "drop 16 bs = as_bytes bl" "length bl = k"
    by (metis (no_types, opaque_lifting) add_diff_cancel_left' length_drop mult_Suc_right)
  have "bs = as_bytes (arr_to_block (take 16 bs) # bl)"
    using Suc.prems(2) bl(1) block_to_arr_to_block [of "take 16 bs"]
    by (simp add: as_bytes_def) (metis append_take_drop_id)
  then show ?case using Suc.prems(1) bl(2) by simp
qed

lemma as_bytes_as_blocks: "16 dvd length bs \<Longrightarrow> as_bytes (as_blocks bs) = bs"
  by (metis as_blocks_as_bytes dvdE whole_blocks)

lemma length_as_blocks: "16 dvd length bs \<Longrightarrow> length (as_blocks bs) = length bs div 16"
  by (metis as_blocks_as_bytes dvdE length_as_bytes nonzero_mult_div_cancel_left whole_blocks zero_neq_numeral)

lemma as_blocks_append: "16 dvd length xs \<Longrightarrow> as_blocks (xs @ ys) = as_blocks xs @ as_blocks ys"
proof -
  assume "16 dvd length xs"
  then obtain bl where "xs = as_bytes bl" by (metis dvdE whole_blocks)
  moreover have "as_blocks (as_bytes bl @ ys) = bl @ as_blocks ys"
    by (induction bl) (simp_all add: as_bytes_def as_blocks_block arr_to_block_to_arr)
  ultimately show ?thesis by (simp add: as_blocks_as_bytes)
qed

section \<open>Selection of padded numbers\<close>

lemma ot_select_append:
  assumes "length b0 = length c" "length b1 = length c"
  shows "ot_select (b0 @ b0') (b1 @ b1') (c @ c') = ot_select b0 b1 c @ ot_select b0' b1' c'"
  using assms by (auto simp: ot_select_def nth_append intro!: nth_equalityI)

lemma ot_select_replicate:
  "length b0 = w \<Longrightarrow> length b1 = w \<Longrightarrow> ot_select b0 b1 (replicate w t) = (if t then b1 else b0)"
  by (auto simp: ot_select_def intro!: nth_equalityI)

definition pick_sums :: "nat \<Rightarrow> nat \<Rightarrow> bool list \<Rightarrow> nat list \<Rightarrow> nat list" where
  "pick_sums q a ts ds =
     map2 (\<lambda>t d. if t then (d + a) mod q else nat ((int d - int a) mod int q)) ts ds"

lemma ot_select_padded:
  assumes "16 dvd w" "length ds = length ts"
  shows "as_bytes (ot_select
      (as_blocks (concat (map (\<lambda>d. nat_be w (nat ((int d - int a) mod int q))) ds)))
      (as_blocks (concat (map (\<lambda>d. nat_be w ((d + a) mod q)) ds)))
      (concat (map (replicate (w div 16)) ts))) =
    concat (map (nat_be w) (pick_sums q a ts ds))"
  using assms(2)
proof (induction ts arbitrary: ds)
  case Nil
  then show ?case by (simp add: ot_select_def as_bytes_def pick_sums_def)
next
  case (Cons t ts)
  then obtain d ds' where ds: "ds = d # ds'" "length ds' = length ts" by (cases ds) auto
  have len: "length (as_blocks (nat_be w x)) = w div 16" for x
    using assms(1) by (simp add: length_as_blocks)
  show ?case
    using Cons.IH [OF ds(2)] assms(1) len ds
    by (simp add: as_blocks_append ot_select_append ot_select_replicate as_bytes_append
        as_bytes_as_blocks pick_sums_def)
qed

section \<open>Signed sums\<close>

definition signed_sum :: "bool list \<Rightarrow> nat list \<Rightarrow> int" where
  "signed_sum ts vs = sum_list (map (\<lambda>(t, v). if t then int v else - int v) (zip ts vs))"

lemma signed_sum_Cons [simp]:
  "signed_sum (t # ts) (v # vs) = (if t then int v else - int v) + signed_sum ts vs"
  by (simp add: signed_sum_def)

lemma signed_sum_Nil [simp]: "signed_sum [] vs = 0" "signed_sum ts [] = 0"
  by (simp_all add: signed_sum_def)

lemma signed_sum_snoc:
  "length ts = length vs \<Longrightarrow>
     signed_sum (ts @ [t]) (vs @ [v]) = signed_sum ts vs + (if t then int v else - int v)"
  by (simp add: signed_sum_def)

lemma signed_total_correct:
  "0 < q \<Longrightarrow> \<exists>r. signed_total q ts vs acc = Some r \<and>
     int r mod int q = (int acc + signed_sum ts vs) mod int q"
proof (induction q ts vs acc rule: signed_total.induct)
  case (1 q t ts v vs tot)
  define acc' where "acc' = (if t then (tot + v) mod q else nat ((int tot - int v) mod int q))"
  have bnd: "(if t then BN_mod_add tot v q else BN_mod_sub tot v q) = Some acc'"
    using 1(2) by (simp add: acc'_def BN_mod_add_def BN_mod_sub_def)
  then have step: "signed_total q (t # ts) (v # vs) tot = signed_total q ts vs acc'" by simp
  have acc': "int acc' mod int q = (int tot + (if t then int v else - int v)) mod int q"
    using 1(2) by (simp add: acc'_def zmod_int)
  obtain r where r: "signed_total q ts vs acc' = Some r"
      "int r mod int q = (int acc' + signed_sum ts vs) mod int q"
    using 1(1) [OF bnd 1(2)] by blast
  have "(int acc' + signed_sum ts vs) mod int q =
      ((int tot + (if t then int v else - int v)) + signed_sum ts vs) mod int q"
    by (rule mod_add_cong [OF acc' refl])
  with r step show ?case by (simp add: add.assoc)
qed simp_all

lemma length_swap_at [simp]: "length (swap_at i j xs) = length xs"
  by (simp add: swap_at_def)

lemma mset_swap_at: "i < length xs \<Longrightarrow> j < length xs \<Longrightarrow> mset (swap_at i j xs) = mset xs"
  unfolding swap_at_def by (rule mset_swap)

lemma zip_swap_at:
  "length xs = length ys \<Longrightarrow> i < length xs \<Longrightarrow> j < length xs \<Longrightarrow>
     zip (swap_at i j xs) (swap_at i j ys) = swap_at i j (zip xs ys)"
  by (simp add: swap_at_def zip_update)

lemma sum_list_swap_at:
  fixes f :: "'a \<Rightarrow> int"
  assumes "i < length xs" "j < length xs"
  shows "sum_list (map f (swap_at i j xs)) = sum_list (map f xs)"
proof -
  have "sum_mset (image_mset f (mset (swap_at i j xs))) = sum_mset (image_mset f (mset xs))"
    using assms by (simp only: mset_swap_at)
  then show ?thesis by (simp only: mset_map [symmetric] sum_mset_sum_list)
qed

lemma signed_sum_swap_at:
  assumes "length ts = length vs" "i < length ts" "j < length ts"
  shows "signed_sum (swap_at i j ts) (swap_at i j vs) = signed_sum ts vs"
  unfolding signed_sum_def zip_swap_at [OF assms]
  using assms by (intro sum_list_swap_at) simp_all

lemma set_swap_at: "i < length xs \<Longrightarrow> j < length xs \<Longrightarrow> set (swap_at i j xs) = set xs"
  using mset_swap_at [of i xs j] by (metis set_mset_mset)

lemma list_update_last:
  "length xs = Suc m \<Longrightarrow> xs[m := x] = take m xs @ [x]"
  by (simp add: upd_conv_take_nth_drop)

section \<open>The receiver's vectors hide its input\<close>

lemma generate_random_vector_range:
  assumes "1 < q"
  obtains vs where "generate_random_vector_inplace rnd out q = Some vs" "length vs = length out"
    "\<forall>v \<in> set vs. 0 < v \<and> v < q"
proof -
  have r: "BN_rand_range_ex (rnd i) 1 q = Some (1 + rnd i mod (q - 1))" for i
    using assms by (simp add: BN_rand_range_ex_def)
  let ?vs = "map (\<lambda>i. 1 + rnd i mod (q - 1)) [0..<length out]"
  have "those (map (\<lambda>i. BN_rand_range_ex (rnd i) 1 q) is) = Some (map (\<lambda>i. 1 + rnd i mod (q - 1)) is)" for "is"
    by (induction "is") (simp_all add: r del: One_nat_def)
  then have "generate_random_vector_inplace rnd out q = Some ?vs"
    by (simp add: generate_random_vector_inplace_def)
  moreover have "\<forall>v \<in> set ?vs. 0 < v \<and> v < q"
  proof
    fix v assume "v \<in> set ?vs"
    then obtain i where "v = 1 + rnd i mod (q - 1)" by auto
    moreover have "rnd i mod (q - 1) < q - 1" using assms by simp
    ultimately show "0 < v \<and> v < q" by linarith
  qed
  ultimately show ?thesis using that [of ?vs] by simp
qed

lemma mta_n_gt: "512 < mta_n q \<or> q = 0"
  using BN_num_bits_pos [of q] by (auto simp: mta_n_def mta_k_def)

lemma generate_t_and_v_inplace_sum:
  assumes "1 < q" "length t = mta_n q" "length v = mta_n q"
  obtains ts vs where "generate_t_and_v_inplace rr b q t v = Some (ts, vs)"
    "length ts = mta_n q" "length vs = mta_n q" "\<forall>x \<in> set vs. x < q"
    "signed_sum ts vs mod int q = int b mod int q"
proof -
  define m where "m = mta_n q - 1"
  have n: "mta_n q = Suc m" "1 < m" using mta_n_gt [of q] assms(1) by (auto simp: m_def)
  obtain v0 where v0: "generate_random_vector_inplace (rr_v rr) v q = Some v0" "length v0 = Suc m"
      "\<forall>v \<in> set v0. 0 < v \<and> v < q"
    using generate_random_vector_range [OF assms(1)] assms(3) n by metis
  define t0 where "t0 = map (\<lambda>i. rr_t rr i \<noteq> 0) [0..<Suc m]"
  have t0: "length t0 = Suc m" by (simp add: t0_def)
  obtain tot where tot: "signed_total q (take m t0) (take m v0) 0 = Some tot"
      "int tot mod int q = signed_sum (take m t0) (take m v0) mod int q"
    using signed_total_correct [of q "take m t0" "take m v0" 0] assms(1) by auto
  define pos where "pos = unat (rr_pos rr) mod m"
  have pos: "pos < m" using n by (simp add: pos_def)
  define d where "d = nat ((int b - int tot) mod int q)"
  have d: "int d = (int b - int tot) mod int q" "d < q"
    using assms(1) by (simp_all add: d_def nat_less_iff)
  let ?t = "t0[m := True]" and ?v = "v0[m := d]"
  have run: "generate_t_and_v_inplace rr b q t v = Some (swap_at m pos ?t, swap_at m pos ?v)"
    using assms n v0(1) tot(1)
    unfolding generate_t_and_v_inplace_def Let_def
    by (simp add: t0_def pos_def BN_mod_sub_def d_def del: upt_Suc)
  have "signed_sum (swap_at m pos ?t) (swap_at m pos ?v) = signed_sum ?t ?v"
    using t0 v0(2) pos by (intro signed_sum_swap_at) auto
  also have "\<dots> = signed_sum (take m t0) (take m v0) + int d"
    using t0 v0(2) by (simp add: list_update_last signed_sum_snoc)
  also have "\<dots> mod int q = (int tot + (int b - int tot)) mod int q"
    using tot(2) d(1) by (intro mod_add_cong) simp_all
  finally have "signed_sum (swap_at m pos ?t) (swap_at m pos ?v) mod int q = int b mod int q" by simp
  moreover have "\<forall>x \<in> set (swap_at m pos ?v). x < q"
    using v0(2,3) d(2) pos set_update_subset_insert [of v0 m d] by (subst set_swap_at) auto
  ultimately show ?thesis using that run t0 v0(2) n by simp
qed

lemma generate_t_all_true:
  assumes "\<forall>i < mta_n q. rr_t rr i \<noteq> 0" "generate_t_and_v rr b q = Some (ts, vs)"
  shows "ts = replicate (mta_n q) True"
proof -
  let ?m = "mta_n q - 1"
  let ?t = "map (\<lambda>i. rr_t rr i \<noteq> 0) [0..<mta_n q]"
  have "0 < ?m" by (simp add: mta_n_def mta_k_def)
  then have pos: "?m < length ?t" "unat (rr_pos rr) mod ?m < length ?t"
    by (auto intro: less_trans [OF mod_less_divisor])
  have "?t = replicate (mta_n q) True"
    using assms(1) by (intro replicate_eqI [symmetric, THEN sym]) auto
  moreover have "ts = swap_at ?m (unat (rr_pos rr) mod ?m) (?t[?m := True])"
    using assms(2) by (auto simp: generate_t_and_v_def generate_t_and_v_init_def
        generate_t_and_v_inplace_def Let_def result_simps)
  ultimately show ?thesis using pos by (auto simp: swap_at_def intro!: nth_equalityI simp: nth_list_update)
qed

section \<open>Serialised vectors and inner products\<close>

definition pack :: "nat \<Rightarrow> nat list \<Rightarrow> bytes" where
  "pack w xs = concat (map (nat_be w) xs)"

lemma length_pack [simp]: "length (pack w xs) = w * length xs"
  by (induction xs) (simp_all add: pack_def)

lemma pack_simps [simp]: "pack w [] = []" "pack w (x # xs) = nat_be w x @ pack w xs"
  by (simp_all add: pack_def)

lemma serialise_loop_pack:
  "\<forall>x \<in> set xs. x < q \<Longrightarrow> BN_num_bytes q \<le> w \<Longrightarrow> serialise_loop w xs = Some (pack w xs)"
  by (induction xs) (auto simp: BN_bn2bin_padded_fits)

definition add_mod :: "nat \<Rightarrow> nat \<Rightarrow> nat \<Rightarrow> nat" where
  "add_mod q a d = (d + a) mod q"

definition sub_mod :: "nat \<Rightarrow> nat \<Rightarrow> nat \<Rightarrow> nat" where
  "sub_mod q a d = nat ((int d - int a) mod int q)"

lemma add_sub_mod_less: "0 < q \<Longrightarrow> add_mod q a d < q" "0 < q \<Longrightarrow> sub_mod q a d < q"
  by (simp_all add: add_mod_def sub_mod_def nat_less_iff)

lemma sender_pairs_loop_pack:
  assumes "0 < q" "BN_num_bytes q \<le> w"
  shows "sender_pairs_loop ds a w q = Some (pack w (map (add_mod q a) ds), pack w (map (sub_mod q a) ds))"
proof (induction ds)
  case (Cons d ds)
  have "BN_bn2bin_padded w (add_mod q a d) = Some (nat_be w (add_mod q a d))"
    "BN_bn2bin_padded w (sub_mod q a d) = Some (nat_be w (sub_mod q a d))"
    using BN_bn2bin_padded_fits [OF _ assms(2)] add_sub_mod_less [OF assms(1)] by blast+
  with Cons assms(1) show ?case
    by (simp add: BN_mod_add_def BN_mod_sub_def add_mod_def sub_mod_def)
qed simp

definition dot :: "nat list \<Rightarrow> nat list \<Rightarrow> int" where
  "dot xs ys = sum_list (map2 (\<lambda>x y. int x * int y) xs ys)"

lemma dot_simps [simp]: "dot [] ys = 0" "dot xs [] = 0"
  "dot (x # xs) (y # ys) = int x * int y + dot xs ys"
  by (simp_all add: dot_def)

lemma inner_product_loop_dot:
  assumes "0 < q" "BN_num_bytes q \<le> w"
  shows "length zs = length rs \<Longrightarrow> \<forall>z \<in> set zs. z < q \<Longrightarrow>
     \<exists>r. inner_product_loop w q (pack w zs) rs acc = Some r \<and>
         int r mod int q = (int acc + dot rs zs) mod int q"
proof (induction rs arbitrary: zs acc)
  case Nil
  then show ?case by simp
next
  case (Cons x rs)
  then obtain z zs' where zs: "zs = z # zs'" "length zs' = length rs" "z < q" "\<forall>z \<in> set zs'. z < q"
    by (cases zs) auto
  let ?a = "(acc + x * z mod q) mod q"
  obtain r where r: "inner_product_loop w q (pack w zs') rs ?a = Some r"
      "int r mod int q = (int ?a + dot rs zs') mod int q"
    using Cons.IH [OF zs(2,4)] by blast
  have "(int ?a + dot rs zs') mod int q = (int acc + int x * int z + dot rs zs') mod int q"
    by (rule mod_add_cong) (simp_all add: zmod_int mod_simps)
  with r zs assms show ?case
    by (simp add: BN_bin2bn_nat_be [OF zs(3) assms(2)] BN_mod_mul_def BN_mod_add_def add.assoc)
qed

lemma pick_sums_Cons:
  "pick_sums q a (t # ts) (d # ds) = (if t then add_mod q a d else sub_mod q a d) # pick_sums q a ts ds"
  by (simp add: pick_sums_def add_mod_def sub_mod_def)

lemma pick_sums_less: "0 < q \<Longrightarrow> \<forall>z \<in> set (pick_sums q a ts ds). z < q"
  by (auto simp: pick_sums_def add_mod_def [symmetric] sub_mod_def [symmetric] add_sub_mod_less
      dest: set_zip_leftD)

lemma length_pick_sums [simp]: "length (pick_sums q a ts ds) = min (length ts) (length ds)"
  by (simp add: pick_sums_def)

lemma dot_pick_sums:
  assumes "0 < q"
  shows "length ts = length ds \<Longrightarrow> length vs = length ds \<Longrightarrow>
     dot vs (pick_sums q a ts ds) mod int q = (dot ds vs + int a * signed_sum ts vs) mod int q"
proof (induction ds arbitrary: ts vs)
  case Nil
  then show ?case by (simp add: pick_sums_def)
next
  case (Cons d ds)
  then obtain t ts' v vs' where l: "ts = t # ts'" "vs = v # vs'" "length ts' = length ds" "length vs' = length ds"
    by (cases ts; cases vs) auto
  let ?z = "if t then add_mod q a d else sub_mod q a d"
  have z: "int ?z mod int q = (int d + (if t then int a else - int a)) mod int q"
    using assms by (simp add: add_mod_def sub_mod_def zmod_int)
  have "(int v * int ?z) mod int q = (int v * (int d + (if t then int a else - int a))) mod int q"
    by (rule mod_mult_cong [OF refl z])
  then have "(int v * int ?z + dot vs' (pick_sums q a ts' ds)) mod int q =
      (int v * (int d + (if t then int a else - int a)) + (dot ds vs' + int a * signed_sum ts' vs')) mod int q"
    by (rule mod_add_cong) (rule Cons.IH [OF l(3,4)])
  then show ?case
    by (simp add: l pick_sums_Cons algebra_simps)
qed

lemma deserialise_dot:
  assumes "0 < q" "BN_num_bytes q \<le> w" "0 < w" "length zs = length rs" "rs \<noteq> []" "\<forall>z \<in> set zs. z < q"
  shows "\<exists>r. deserialise_inner_product (pack w zs) rs w q = Some r \<and> int r mod int q = dot rs zs mod int q"
proof -
  have "pack w zs \<noteq> []" using assms(3-5) by (metis length_0_conv length_pack mult_eq_0_iff not_gr0)
  then show ?thesis
    using inner_product_loop_dot [OF assms(1,2,4,6), of 0] assms(3-5)
    by (simp add: deserialise_inner_product_def)
qed

section \<open>The entries keep their sizes\<close>

definition receiver_entry_ok :: "nat \<Rightarrow> ReceiverEntry \<Rightarrow> bool" where
  "receiver_entry_ok q re \<longleftrightarrow> length (re_t re) = mta_n q \<and> length (re_v re) = mta_n q \<and>
     length (re_t_extended re) = mta_size q div sizeof_block * mta_n q \<and>
     length (re_v_serialised re) = mta_size q * mta_n q \<and>
     length (re_z re) = mta_size q div sizeof_block * mta_n q"

definition sender_entry_ok :: "nat \<Rightarrow> SenderEntry \<Rightarrow> bool" where
  "sender_entry_ok q se \<longleftrightarrow> length (se_delta se) = mta_n q \<and>
     length (se_add_pack se) = mta_size q * mta_n q \<and>
     length (se_sub_pack se) = mta_size q * mta_n q"

lemma length_PackArray_init [simp]: "length (PackArray_init junk n arr) = n"
  by (simp add: PackArray_init_def)

lemma length_EmpBlockSpan_init [simp]: "length (EmpBlockSpan_init n bs) = n"
  by (simp add: EmpBlockSpan_init_def)

lemma mta_n_pos: "mta_n q \<noteq> 0"
  by (simp add: mta_n_def mta_k_def)

lemma initialise_receiver_ok:
  assumes "mta_modulus q"
  shows "\<exists>re'. initialise_entries_for_receiver junk q re = Some re' \<and> receiver_entry_ok q re'"
  using mta_sizes [OF assms] mta_n_pos
  by (simp add: initialise_entries_for_receiver_def generate_t_and_v_init_def serialise_bignums_init_def
      expand_t_to_ot_width_init_def receiver_entry_ok_def Let_def mult.commute)

lemma initialise_sender_ok:
  assumes "mta_modulus q"
  shows "\<exists>se'. initialise_entries_for_sender junk (mta_n q) q se = Some se' \<and> sender_entry_ok q se'"
  using mta_sizes [OF assms]
  by (simp add: initialise_entries_for_sender_def produce_sender_pairs_init_def
      generate_random_vector_init_def sender_entry_ok_def Let_def)

section \<open>One run\<close>

abbreviation padded_choices :: "nat \<Rightarrow> bool list \<Rightarrow> bool list" where
  "padded_choices q ts \<equiv> concat (map (replicate (mta_size q div sizeof_block)) ts)"

text \<open>The entries after the preparation, and the sender's after reading.\<close>

abbreviation prepared_sender :: "nat \<Rightarrow> nat \<Rightarrow> SenderEntry \<Rightarrow> nat list \<Rightarrow> SenderEntry" where
  "prepared_sender q a se ds \<equiv> se\<lparr>se_delta := ds,
     se_add_pack := pack (mta_size q) (map (add_mod q a) ds),
     se_sub_pack := pack (mta_size q) (map (sub_mod q a) ds)\<rparr>"

abbreviation prepared_receiver ::
  "nat \<Rightarrow> ReceiverEntry \<Rightarrow> bool list \<Rightarrow> nat list \<Rightarrow> nat \<Rightarrow> ReceiverEntry" where
  "prepared_receiver q re ts vs sg \<equiv> re\<lparr>re_t := ts, re_t_extended := padded_choices q ts,
     re_v := vs, re_v_serialised := pack (mta_size q) vs,
     re_sigma_serialised := nat_be (mta_size q) sg\<rparr>"

abbreviation informed_sender :: "nat \<Rightarrow> SenderEntry \<Rightarrow> nat list \<Rightarrow> nat \<Rightarrow> SenderEntry" where
  "informed_sender q se vs sg \<equiv>
     se\<lparr>se_vals := pack (mta_size q) vs, se_sigma_v := nat_be (mta_size q) sg\<rparr>"

lemma sender_prepare_ok:
  assumes "mta_modulus q" "sender_entry_ok q se"
  obtains ds where "sender_prepare rs a q se =
      Some (prepared_sender q a se ds)"
    "length ds = mta_n q" "\<forall>d \<in> set ds. d < q"
proof -
  have q: "1 < q" using assms(1) by (simp add: mta_modulus_def)
  obtain ds where ds: "generate_random_vector_inplace rs (se_delta se) q = Some ds"
      "length ds = length (se_delta se)" "\<forall>v \<in> set ds. 0 < v \<and> v < q"
    using generate_random_vector_range [OF q] by blast
  note sz = mta_sizes [OF assms(1)]
  have "sender_pairs_loop ds a (mta_size q) q =
      Some (pack (mta_size q) (map (add_mod q a) ds), pack (mta_size q) (map (sub_mod q a) ds))"
    using sender_pairs_loop_pack [OF _ sz(1)] q by simp
  moreover have "ds \<noteq> []" using ds(2) assms(2) mta_n_pos [of q] by (auto simp: sender_entry_ok_def)
  ultimately have "sender_prepare rs a q se =
      Some (prepared_sender q a se ds)"
    using ds(1,2) assms(2) sz
    by (simp add: sender_prepare_def produce_sender_pairs_inplace_def sender_entry_ok_def Let_def)
  with that ds assms(2) show ?thesis by (auto simp: sender_entry_ok_def)
qed

lemma receiver_prepare_ok:
  assumes "mta_modulus q" "receiver_entry_ok q re"
  obtains ts vs sg where "receiver_prepare rr b q re =
      Some (prepared_receiver q re ts vs sg, sg)"
    "length ts = mta_n q" "length vs = mta_n q" "\<forall>v \<in> set vs. v < q" "sg < q"
    "signed_sum ts vs mod int q = int b mod int q"
proof -
  have q: "1 < q" using assms(1) by (simp add: mta_modulus_def)
  note sz = mta_sizes [OF assms(1)] and re = assms(2) [unfolded receiver_entry_ok_def]
  obtain ts vs where g: "generate_t_and_v_inplace rr b q (re_t re) (re_v re) = Some (ts, vs)"
      "length ts = mta_n q" "length vs = mta_n q" "\<forall>x \<in> set vs. x < q"
      "signed_sum ts vs mod int q = int b mod int q"
    using generate_t_and_v_inplace_sum [OF q] re by blast
  define sg where "sg = 1 + rr_sigma rr mod (q - 1)"
  have sg: "BN_rand_range_ex (rr_sigma rr) 1 q = Some sg"
    using q by (simp add: BN_rand_range_ex_def sg_def)
  note sg = sg BN_rand_range_ex_range(2) [OF sg]
  have "expand_t_to_ot_width_inplace (mta_size q div sizeof_block) ts (re_t_extended re) =
      Some (concat (map (replicate (mta_size q div sizeof_block)) ts))"
    using sz(5) re g(2) by (simp add: expand_t_to_ot_width_inplace_def)
  moreover have "serialise_bignums_inplace (re_v_serialised re) vs (mta_size q) = Some (pack (mta_size q) vs)"
    using re g(3) serialise_loop_pack [OF g(4) sz(1)] by (simp add: serialise_bignums_inplace_def)
  moreover have "BN_bn2bin_padded (mta_size q) sg = Some (nat_be (mta_size q) sg)"
    by (rule BN_bn2bin_padded_fits [OF sg(2) sz(1)])
  ultimately have "receiver_prepare rr b q re =
      Some (prepared_receiver q re ts vs sg, sg)"
    using sz(1) g(1) sg(1) unfolding receiver_prepare_def Let_def by simp
  with that g sg show ?thesis by blast
qed

lemma receiver_finish_ok:
  assumes "mta_modulus q" "as_bytes (re_z re) = pack (mta_size q) zs" "\<forall>z \<in> set zs. z < q"
    "length zs = length (re_v re)" "re_v re \<noteq> []"
  shows "\<exists>r. receiver_finish q re sg = Some r \<and> r < q \<and>
     int r = (dot (re_v re) zs + int sg) mod int q"
proof -
  have q: "0 < q" using assms(1) by (simp add: mta_modulus_def)
  note sz = mta_sizes [OF assms(1)]
  obtain r where r: "deserialise_inner_product (pack (mta_size q) zs) (re_v re) (mta_size q) q = Some r"
      "int r mod int q = dot (re_v re) zs mod int q"
    using deserialise_dot [OF q sz(1,3) assms(4,5,3)] by blast
  have "int ((r + sg) mod q) = (dot (re_v re) zs + int sg) mod int q"
    using mod_add_cong [OF r(2) refl, of "int sg"] by (simp add: zmod_int)
  then show ?thesis using r(1) q assms(2) by (simp add: receiver_finish_def BN_mod_add_def)
qed

lemma sender_finish_ok:
  assumes "mta_modulus q" "se_vals se = pack (mta_size q) vs" "\<forall>v \<in> set vs. v < q"
    "length vs = length (se_delta se)" "se_delta se \<noteq> []"
  shows "\<exists>r. sender_finish q se sg = Some r \<and> r < q \<and>
     int r = (- dot (se_delta se) vs - int sg) mod int q"
proof -
  have q: "0 < q" using assms(1) by (simp add: mta_modulus_def)
  note sz = mta_sizes [OF assms(1)]
  obtain r where r: "deserialise_inner_product (pack (mta_size q) vs) (se_delta se) (mta_size q) q = Some r"
      "int r mod int q = dot (se_delta se) vs mod int q"
    using deserialise_dot [OF q sz(1,3) assms(4,5,3)] by blast
  let ?share = "nat (- int r mod int q)"
  let ?out = "nat ((int ?share - int sg) mod int q)"
  have "- int r mod int q = - dot (se_delta se) vs mod int q"
    using r(2) by (metis mod_minus_eq)
  then have "int ?out = (- dot (se_delta se) vs - int sg) mod int q"
    using q by (simp add: mod_diff_left_eq)
  moreover have "?out < q" using q by (simp add: nat_less_iff)
  moreover have "sender_finish q se sg = Some ?out"
    using r(1) q assms(2) by (simp add: sender_finish_def BN_mod_sub_def)
  ultimately show ?thesis by blast
qed

definition idle_ssl :: ssl where
  "idle_ssl = \<lparr>pending_app_data = [], incoming = []\<rparr>"

lemma sender_read_ok:
  assumes "mta_modulus q" "length vs = mta_n q" "sg < q"
  shows "sender_read q se \<lparr>pending_app_data = [],
       incoming = tls_fragments (pack (mta_size q) vs) @ tls_fragments (nat_be (mta_size q) sg) @ rest\<rparr> =
     Some (informed_sender q se vs sg, sg,
           \<lparr>pending_app_data = [], incoming = rest\<rparr>)"
proof -
  note sz = mta_sizes [OF assms(1)]
  have "nat_be (mta_size q) sg \<noteq> []" using sz(3) by (metis length_0_conv length_nat_be not_gr0)
  then have "SSL_read (mta_size q) \<lparr>pending_app_data = [],
        incoming = tls_fragments (nat_be (mta_size q) sg) @ rest\<rparr> =
      Some (nat_be (mta_size q) sg, \<lparr>pending_app_data = [], incoming = rest\<rparr>)"
    using SSL_read_single_record [of "nat_be (mta_size q) sg" rest] sz(4) by simp
  then show ?thesis
    using ssl_read_loop_message [of "pack (mta_size q) vs" "tls_fragments (nat_be (mta_size q) sg) @ rest"]
      sz(4) assms(2) BN_bin2bn_nat_be [OF assms(3) sz(1)]
    by (simp add: sender_read_def Let_def mult.commute)
qed

text \<open>The arithmetic of a run: the two outputs add up to the product.\<close>

lemma shares_of_product:
  assumes "0 < q" "length ts = length ds" "length vs = length ds"
    and "signed_sum ts vs mod int q = int b mod int q"
    and r: "int r = (dot vs (pick_sums q a ts ds) + int sg) mod int q"
    and s: "int s = (- dot ds vs - int sg) mod int q"
  shows "(s + r) mod q = (a * b) mod q"
proof -
  have "(int s + int r) mod int q = ((- dot ds vs - int sg) + (dot vs (pick_sums q a ts ds) + int sg)) mod int q"
    by (simp add: r s mod_simps)
  also have "\<dots> = (dot vs (pick_sums q a ts ds) - dot ds vs) mod int q" by simp
  also have "\<dots> = ((dot ds vs + int a * signed_sum ts vs) - dot ds vs) mod int q"
    by (rule mod_diff_cong [OF dot_pick_sums [OF assms(1-3)] refl])
  also have "\<dots> = (int a * int b) mod int q"
    using mod_mult_cong [OF refl assms(4), of "int a"] by simp
  finally have "int ((s + r) mod q) = int ((a * b) mod q)" by (simp add: zmod_int)
  then show ?thesis by (simp only: of_nat_eq_iff)
qed

abbreviation sub_blocks :: "nat \<Rightarrow> nat \<Rightarrow> nat list \<Rightarrow> block list" where
  "sub_blocks q a ds \<equiv> as_blocks (pack (mta_size q) (map (sub_mod q a) ds))"

abbreviation add_blocks :: "nat \<Rightarrow> nat \<Rightarrow> nat list \<Rightarrow> block list" where
  "add_blocks q a ds \<equiv> as_blocks (pack (mta_size q) (map (add_mod q a) ds))"

lemma size_dvd: "mta_modulus q \<Longrightarrow> 16 dvd mta_size q"
  using mta_sizes(2) by (simp add: sizeof_block_def mod_eq_0_iff_dvd)

lemma length_padded_choices: "length (padded_choices q ts) = mta_size q div sizeof_block * length ts"
  by (induction ts) simp_all

lemma length_pair_blocks:
  assumes "mta_modulus q"
  shows "length (sub_blocks q a ds) = mta_size q div sizeof_block * length ds"
    "length (add_blocks q a ds) = mta_size q div sizeof_block * length ds"
proof -
  obtain k where "mta_size q = 16 * k" using size_dvd [OF assms] by (elim dvdE)
  then show "length (sub_blocks q a ds) = mta_size q div sizeof_block * length ds"
    "length (add_blocks q a ds) = mta_size q div sizeof_block * length ds"
    by (simp_all add: length_as_blocks sizeof_block_def)
qed

lemma select_pair_blocks:
  assumes "mta_modulus q" "length ds = length ts"
  shows "as_bytes (ot_select (sub_blocks q a ds) (add_blocks q a ds) (padded_choices q ts)) =
     pack (mta_size q) (pick_sums q a ts ds)"
  using ot_select_padded [OF size_dvd [OF assms(1)] assms(2), of a q]
  by (simp add: pack_def sub_mod_def add_mod_def sizeof_block_def o_def)

lemma length_ot_select [simp]: "length (ot_select b0 b1 c) = length c"
  by (simp add: ot_select_def)

text \<open>The last step of both sides, from what the transfer and the channel delivered.\<close>

lemma finish_shares:
  assumes "mta_modulus q" "length ds = mta_n q" "length ts = mta_n q" "length vs = mta_n q"
    "\<forall>v \<in> set vs. v < q" "signed_sum ts vs mod int q = int b mod int q"
    "as_bytes z = pack (mta_size q) (pick_sums q a ts ds)"
  shows "\<exists>os or. sender_finish q (informed_sender q (prepared_sender q a se ds) vs sg) sg = Some os \<and>
     receiver_finish q (prepared_receiver q re ts vs sg\<lparr>re_z := z\<rparr>) sg = Some or \<and>
     os < q \<and> or < q \<and> (os + or) mod q = (a * b) mod q"
proof -
  have q: "0 < q" using assms(1) by (simp add: mta_modulus_def)
  have len: "length ts = length ds" "length vs = length ds" "ds \<noteq> []" "vs \<noteq> []"
    using assms(2-4) mta_n_pos [of q] by auto
  let ?re = "prepared_receiver q re ts vs sg\<lparr>re_z := z\<rparr>"
  let ?se = "informed_sender q (prepared_sender q a se ds) vs sg"
  obtain r where r: "receiver_finish q ?re sg = Some r" "r < q"
      "int r = (dot vs (pick_sums q a ts ds) + int sg) mod int q"
    using receiver_finish_ok [OF assms(1), of ?re "pick_sums q a ts ds" sg] assms(7) len
      pick_sums_less [OF q] by auto
  obtain s where s: "sender_finish q ?se sg = Some s" "s < q" "int s = (- dot ds vs - int sg) mod int q"
    using sender_finish_ok [OF assms(1), of ?se vs sg] len assms(5) by auto
  have "(s + r) mod q = (a * b) mod q"
    by (rule shares_of_product [OF q len(1,2) assms(6) r(3) s(3)])
  with r s show ?thesis by blast
qed

lemma prepared_entries_ok:
  assumes "length ds = mta_n q" "length ts = mta_n q" "length vs = mta_n q"
    "length z = mta_size q div sizeof_block * mta_n q"
  shows "sender_entry_ok q (informed_sender q (prepared_sender q a se ds) vs sg)"
    "receiver_entry_ok q (prepared_receiver q re ts vs sg\<lparr>re_z := z\<rparr>)"
  using assms length_padded_choices [of q ts]
  by (simp_all add: sender_entry_ok_def receiver_entry_ok_def)

context oblivious_transfer
begin

lemma receiver_ot_pairs:
  assumes "mta_modulus q" "length ds = mta_n q" "length ts = mta_n q"
    "length r = mta_size q div sizeof_block * mta_n q"
  obtains z where "receiver_ot (ot (sub_blocks q a ds) (add_blocks q a ds)) r (padded_choices q ts) = Some z"
    "length z = mta_size q div sizeof_block * mta_n q"
    "as_bytes z = pack (mta_size q) (pick_sums q a ts ds)"
proof -
  let ?z = "ot_select (sub_blocks q a ds) (add_blocks q a ds) (padded_choices q ts)"
  have "receiver_ot (ot (sub_blocks q a ds) (add_blocks q a ds)) r (padded_choices q ts) = Some ?z"
    using assms length_pair_blocks [OF assms(1)] mta_sizes(5) [OF assms(1)] mta_n_pos [of q]
      length_padded_choices [of q ts] ot_selects
    by (simp add: receiver_ot_def)
  moreover have "as_bytes ?z = pack (mta_size q) (pick_sums q a ts ds)"
    using select_pair_blocks [OF assms(1)] assms(2,3) by simp
  ultimately show ?thesis using that length_padded_choices [of q ts] assms(3) by simp
qed

lemma play_inplace_product:
  assumes "mta_modulus q" "BN_num_bits a \<le> BN_num_bits q" "sender_entry_ok q se" "receiver_entry_ok q re"
  shows "\<exists>os se' or re'. play_inplace ot rs rr q a b se re idle_ssl =
       Some ((os, se'), (or, re'), idle_ssl) \<and> os < q \<and> or < q \<and> (os + or) mod q = (a * b) mod q \<and>
     sender_entry_ok q se' \<and> receiver_entry_ok q re'"
proof -
  obtain ds where ds: "sender_prepare rs a q se = Some (prepared_sender q a se ds)" "length ds = mta_n q"
    using sender_prepare_ok [OF assms(1,3)] .
  obtain ts vs sg where p: "receiver_prepare rr b q re = Some (prepared_receiver q re ts vs sg, sg)"
      "length ts = mta_n q" "length vs = mta_n q" "\<forall>v \<in> set vs. v < q" "sg < q"
      "signed_sum ts vs mod int q = int b mod int q"
    using receiver_prepare_ok [OF assms(1,4)] .
  obtain z where z: "receiver_ot (ot (sub_blocks q a ds) (add_blocks q a ds)) (re_z re) (padded_choices q ts) = Some z"
      "length z = mta_size q div sizeof_block * mta_n q" "as_bytes z = pack (mta_size q) (pick_sums q a ts ds)"
    using receiver_ot_pairs [OF assms(1) ds(2) p(2)] assms(4) by (auto simp: receiver_entry_ok_def)
  obtain os or where f: "sender_finish q (informed_sender q (prepared_sender q a se ds) vs sg) sg = Some os"
      "receiver_finish q (prepared_receiver q re ts vs sg\<lparr>re_z := z\<rparr>) sg = Some or"
      "os < q" "or < q" "(os + or) mod q = (a * b) mod q"
    using finish_shares [OF assms(1) ds(2) p(2-4,6) z(3)] by blast
  have "sender_read q (prepared_sender q a se ds)
      (SSL_write (nat_be (mta_size q) sg) (SSL_write (pack (mta_size q) vs) idle_ssl)) =
      Some (informed_sender q (prepared_sender q a se ds) vs sg, sg, idle_ssl)"
    using sender_read_ok [OF assms(1) p(3,5), where rest = "[]"] by (simp add: SSL_write_def idle_ssl_def)
  with ds(1) p(1) z(1) f(1,2) assms(2) have "play_inplace ot rs rr q a b se re idle_ssl =
      Some ((os, informed_sender q (prepared_sender q a se ds) vs sg),
            (or, prepared_receiver q re ts vs sg\<lparr>re_z := z\<rparr>), idle_ssl)"
    by (simp add: play_inplace_def Let_def)
  with f prepared_entries_ok [OF ds(2) p(2,3) z(2)] show ?thesis by blast
qed

lemma play_product:
  assumes "mta_modulus q" "BN_num_bits a \<le> BN_num_bits q"
  shows "\<exists>os se or re. play ot junk rs rr q a b idle_ssl = Some ((os, se), (or, re), idle_ssl) \<and>
     os < q \<and> or < q \<and> (os + or) mod q = (a * b) mod q"
proof -
  obtain se re where "initialise_entries_for_sender junk (mta_n q) q empty_sender = Some se"
    "sender_entry_ok q se" "initialise_entries_for_receiver junk q empty_receiver = Some re"
    "receiver_entry_ok q re"
    using initialise_sender_ok [OF assms(1)] initialise_receiver_ok [OF assms(1)] by blast
  with play_inplace_product [OF assms, of se re rs rr b] show ?thesis
    by (auto simp: play_def)
qed

text \<open>The batched run: the joint transfer splits into the two single ones.\<close>

lemma receiver_ot_joint:
  assumes "mta_modulus q" "length ds1 = mta_n q" "length ts1 = mta_n q" "length ds2 = mta_n q" "length ts2 = mta_n q"
  obtains z1 z2 where
    "receiver_ot (ot (as_blocks (pack (mta_size q) (map (sub_mod q a1) ds1) @ pack (mta_size q) (map (sub_mod q a2) ds2)))
                     (as_blocks (pack (mta_size q) (map (add_mod q a1) ds1) @ pack (mta_size q) (map (add_mod q a2) ds2))))
       (EmpBlockSpan_init (length (padded_choices q ts1 @ padded_choices q ts2)) [])
       (padded_choices q ts1 @ padded_choices q ts2) = Some (z1 @ z2)"
    "length z1 = mta_size q div sizeof_block * mta_n q" "length z2 = mta_size q div sizeof_block * mta_n q"
    "as_bytes z1 = pack (mta_size q) (pick_sums q a1 ts1 ds1)"
    "as_bytes z2 = pack (mta_size q) (pick_sums q a2 ts2 ds2)"
proof -
  let ?z1 = "ot_select (sub_blocks q a1 ds1) (add_blocks q a1 ds1) (padded_choices q ts1)"
  let ?z2 = "ot_select (sub_blocks q a2 ds2) (add_blocks q a2 ds2) (padded_choices q ts2)"
  let ?c = "padded_choices q ts1 @ padded_choices q ts2"
  have d: "16 dvd mta_size q * k" for k using size_dvd [OF assms(1)] by simp
  have lens: "length (sub_blocks q a1 ds1) = length (padded_choices q ts1)"
      "length (add_blocks q a1 ds1) = length (padded_choices q ts1)"
      "length (sub_blocks q a2 ds2) = length (padded_choices q ts2)"
      "length (add_blocks q a2 ds2) = length (padded_choices q ts2)"
    using length_pair_blocks [OF assms(1)] assms(2-5) length_padded_choices [of q ts1]
      length_padded_choices [of q ts2] by simp_all
  have "ot (sub_blocks q a1 ds1 @ sub_blocks q a2 ds2) (add_blocks q a1 ds1 @ add_blocks q a2 ds2) ?c =
      Some (?z1 @ ?z2)"
    using lens by (subst ot_selects) (simp_all add: ot_select_append del: length_concat)
  moreover have "0 < length ?c"
    using length_padded_choices [of q ts1] assms(3) mta_sizes(5) [OF assms(1)] mta_n_pos [of q] by simp
  ultimately have "receiver_ot (ot (sub_blocks q a1 ds1 @ sub_blocks q a2 ds2)
      (add_blocks q a1 ds1 @ add_blocks q a2 ds2)) (EmpBlockSpan_init (length ?c) []) ?c = Some (?z1 @ ?z2)"
    by (simp add: receiver_ot_def del: length_concat length_append)
  moreover have "as_bytes ?z1 = pack (mta_size q) (pick_sums q a1 ts1 ds1)"
    "as_bytes ?z2 = pack (mta_size q) (pick_sums q a2 ts2 ds2)"
    using select_pair_blocks [OF assms(1)] assms(2-5) by simp_all
  ultimately show ?thesis
    using that [of ?z1 ?z2] d length_padded_choices [of q ts1] length_padded_choices [of q ts2] assms(3,5)
    by (simp add: as_blocks_append)
qed

lemma play_inplace_2_products:
  assumes m: "mta_modulus q"
    and "sender_entry_ok q se1" "sender_entry_ok q se2" "receiver_entry_ok q re1" "receiver_entry_ok q re2"
  shows "\<exists>s1 s2 se1' se2' r1 r2 re1' re2'.
     play_inplace_2 ot rs1 rs2 rr1 rr2 q a1 a2 b1 b2 se1 se2 re1 re2 idle_ssl =
       Some ((s1, s2), (se1', se2'), (r1, r2), (re1', re2'), idle_ssl) \<and>
     s1 < q \<and> s2 < q \<and> r1 < q \<and> r2 < q \<and>
     (s1 + r1) mod q = (a1 * b1) mod q \<and> (s2 + r2) mod q = (a2 * b2) mod q \<and>
     sender_entry_ok q se1' \<and> sender_entry_ok q se2' \<and> receiver_entry_ok q re1' \<and> receiver_entry_ok q re2'"
proof -
  let ?w = "mta_size q"
  obtain ds1 where ds1: "sender_prepare rs1 a1 q se1 = Some (prepared_sender q a1 se1 ds1)" "length ds1 = mta_n q"
    using sender_prepare_ok [OF m assms(2)] .
  obtain ds2 where ds2: "sender_prepare rs2 a2 q se2 = Some (prepared_sender q a2 se2 ds2)" "length ds2 = mta_n q"
    using sender_prepare_ok [OF m assms(3)] .
  obtain ts1 vs1 sg1 where p1: "receiver_prepare rr1 b1 q re1 = Some (prepared_receiver q re1 ts1 vs1 sg1, sg1)"
      "length ts1 = mta_n q" "length vs1 = mta_n q" "\<forall>v \<in> set vs1. v < q" "sg1 < q"
      "signed_sum ts1 vs1 mod int q = int b1 mod int q"
    using receiver_prepare_ok [OF m assms(4)] .
  obtain ts2 vs2 sg2 where p2: "receiver_prepare rr2 b2 q re2 = Some (prepared_receiver q re2 ts2 vs2 sg2, sg2)"
      "length ts2 = mta_n q" "length vs2 = mta_n q" "\<forall>v \<in> set vs2. v < q" "sg2 < q"
      "signed_sum ts2 vs2 mod int q = int b2 mod int q"
    using receiver_prepare_ok [OF m assms(5)] .
  obtain z1 z2 where z: "receiver_ot (ot (as_blocks (pack ?w (map (sub_mod q a1) ds1) @ pack ?w (map (sub_mod q a2) ds2)))
        (as_blocks (pack ?w (map (add_mod q a1) ds1) @ pack ?w (map (add_mod q a2) ds2))))
      (EmpBlockSpan_init (length (padded_choices q ts1 @ padded_choices q ts2)) [])
      (padded_choices q ts1 @ padded_choices q ts2) = Some (z1 @ z2)"
      "length z1 = ?w div sizeof_block * mta_n q" "length z2 = ?w div sizeof_block * mta_n q"
      "as_bytes z1 = pack ?w (pick_sums q a1 ts1 ds1)" "as_bytes z2 = pack ?w (pick_sums q a2 ts2 ds2)"
    using receiver_ot_joint [OF m ds1(2) p1(2) ds2(2) p2(2)] .
  obtain s1 r1 where f1: "sender_finish q (informed_sender q (prepared_sender q a1 se1 ds1) vs1 sg1) sg1 = Some s1"
      "receiver_finish q (prepared_receiver q re1 ts1 vs1 sg1\<lparr>re_z := z1\<rparr>) sg1 = Some r1"
      "s1 < q" "r1 < q" "(s1 + r1) mod q = (a1 * b1) mod q"
    using finish_shares [OF m ds1(2) p1(2-4,6) z(4)] by blast
  obtain s2 r2 where f2: "sender_finish q (informed_sender q (prepared_sender q a2 se2 ds2) vs2 sg2) sg2 = Some s2"
      "receiver_finish q (prepared_receiver q re2 ts2 vs2 sg2\<lparr>re_z := z2\<rparr>) sg2 = Some r2"
      "s2 < q" "r2 < q" "(s2 + r2) mod q = (a2 * b2) mod q"
    using finish_shares [OF m ds2(2) p2(2-4,6) z(5)] by blast
  note lens = length_padded_choices [of q ts1] length_padded_choices [of q ts2] p1(2) p2(2) ds1(2) ds2(2) z(2,3)
  have "play_inplace_2 ot rs1 rs2 rr1 rr2 q a1 a2 b1 b2 se1 se2 re1 re2 idle_ssl = Some ((s1, s2),
      (informed_sender q (prepared_sender q a1 se1 ds1) vs1 sg1, informed_sender q (prepared_sender q a2 se2 ds2) vs2 sg2),
      (r1, r2), (prepared_receiver q re1 ts1 vs1 sg1\<lparr>re_z := z1\<rparr>, prepared_receiver q re2 ts2 vs2 sg2\<lparr>re_z := z2\<rparr>),
      idle_ssl)"
    using ds1(1) ds2(1) p1(1) p2(1) z(1) f1(1,2) f2(1,2) lens
      sender_read_ok [OF m p1(3,5), where rest = "tls_fragments (pack ?w vs2) @ tls_fragments (nat_be ?w sg2)"]
      sender_read_ok [OF m p2(3,5), where rest = "[]"]
    unfolding play_inplace_2_def Let_def
    by (simp add: SSL_write_def idle_ssl_def del: length_concat)
  with f1(3-5) f2(3-5) prepared_entries_ok [OF ds1(2) p1(2,3) z(2)] prepared_entries_ok [OF ds2(2) p2(2,3) z(3)]
  show ?thesis by blast
qed

end

end
