(* ===== verification/ECtF.thy ===== *)
theory ECtF
  imports MtA_Mod
begin

text \<open>
  The conversion of two elliptic curve points into additive shares of the x-coordinate of their sum
  (mta/ectf.cpp).  The verifier is the sender of every multiplication, the prover the receiver.  As
  in MtA\_Mod both sides of a step are one definition; results are (verifier, prover) pairs.  The
  transfers of the successive multiplications are \<open>ots 0\<close>, \<open>ots 1\<close>, \<dots>; the inverse modulo an even
  number, which no supported curve needs, is the argument \<open>ev\<close>.  Bandwidth counters are left out.
\<close>

section \<open>Curves\<close>

definition get_nid_from_uint16 :: "16 word \<Rightarrow> int" where
  "get_nid_from_uint16 group_id =
     (if group_id = 23 then 415 else if group_id = 24 then 715 else if group_id = 25 then 716 else 0)"

definition is_nist_curve :: "16 word \<Rightarrow> bool" where
  "is_nist_curve curve_id \<longleftrightarrow> curve_id = 23 \<or> curve_id = 24 \<or> curve_id = 25"

definition le_words :: "nat list \<Rightarrow> nat" where
  "le_words ws = foldr (\<lambda>w acc. w + 2 ^ 64 * acc) ws 0"

definition kP256Field :: "nat list" where
  "kP256Field = [0xffffffffffffffff, 0x00000000ffffffff, 0x0000000000000000, 0xffffffff00000001]"

definition kP384Field :: "nat list" where
  "kP384Field = [0x00000000ffffffff, 0xffffffff00000000, 0xfffffffffffffffe, 0xffffffffffffffff,
     0xffffffffffffffff, 0xffffffffffffffff]"

definition kP521Field :: "nat list" where
  "kP521Field = [0xffffffffffffffff, 0xffffffffffffffff, 0xffffffffffffffff, 0xffffffffffffffff,
     0xffffffffffffffff, 0xffffffffffffffff, 0xffffffffffffffff, 0xffffffffffffffff,
     0x00000000000001ff]"

text \<open>The field prime of a group, None for an unknown one.\<close>

definition curve_field :: "int \<Rightarrow> nat option" where
  "curve_field nid =
     (if nid = 415 then Some (le_words kP256Field)
      else if nid = 715 then Some (le_words kP384Field)
      else if nid = 716 then Some (le_words kP521Field) else None)"

section \<open>The steps\<close>

type_synonym ot_fun = "block list \<Rightarrow> block list \<Rightarrow> bool list \<Rightarrow> block list option"

record ectf_rand =
  er_junk :: "nat \<Rightarrow> byte"
  er_sender :: "nat \<Rightarrow> nat \<Rightarrow> nat"
  er_receiver :: "nat \<Rightarrow> receiver_rand"
  er_rho_v :: nat
  er_rho_p :: nat

text \<open>The entries both sides keep, and the two directions of the channel (prover to verifier,
  verifier to prover).\<close>

record ectf_state =
  es_se :: SenderEntry
  es_re :: ReceiverEntry
  es_pv :: ssl
  es_vp :: ssl

definition build_entries :: "(nat \<Rightarrow> byte) \<Rightarrow> nat \<Rightarrow> (SenderEntry \<times> ReceiverEntry) option" where
  "build_entries junk p = do {
     se \<leftarrow> initialise_entries_for_sender junk (mta_n p) p empty_sender;
     re \<leftarrow> initialise_entries_for_receiver junk p empty_receiver;
     Some (se, re) }"

definition vector_mta_2 ::
  "ot_fun \<Rightarrow> ectf_rand \<Rightarrow> nat \<Rightarrow> nat \<Rightarrow> nat \<times> nat \<Rightarrow> nat \<times> nat \<Rightarrow> ectf_state \<Rightarrow>
     ((nat \<times> nat) \<times> ectf_state) option" where
  "vector_mta_2 ot r k p v_in p_in st = do {
     (se2, re2) \<leftarrow> build_entries (er_junk r) p;
     ((s1, s2), (se, _), (r1, r2), (re, _), s) \<leftarrow>
       play_inplace_2 ot (er_sender r k) (er_sender r (k + 1)) (er_receiver r k) (er_receiver r (k + 1)) p
         (fst v_in) (snd v_in) (fst p_in) (snd p_in) (es_se st) se2 (es_re st) re2 (es_pv st);
     ov \<leftarrow> BN_mod_add s1 s2 p;
     op \<leftarrow> BN_mod_add r1 r2 p;
     Some ((ov, op), st\<lparr>es_se := se, es_re := re, es_pv := s\<rparr>) }"

definition scale_plus_share_impl ::
  "ot_fun \<Rightarrow> ectf_rand \<Rightarrow> nat \<Rightarrow> nat \<Rightarrow> nat \<times> nat \<Rightarrow> nat \<times> nat \<Rightarrow> ectf_state \<Rightarrow>
     ((nat \<times> nat) \<times> ectf_state) option" where
  "scale_plus_share_impl ot r k p val blind st = do {
     ((tv, tp), st) \<leftarrow>
       vector_mta_2 ot r k p (fst val, fst blind) (snd blind, snd val) st;
     lv \<leftarrow> BN_mod_mul (fst val) (fst blind) p;
     lp \<leftarrow> BN_mod_mul (snd val) (snd blind) p;
     ov \<leftarrow> BN_mod_add tv lv p;
     op \<leftarrow> BN_mod_add tp lp p;
     Some ((ov, op), st) }"

text \<open>One side's exchange of its value: write it, read the other one, add.\<close>

definition read_bignum :: "nat \<Rightarrow> ssl \<Rightarrow> (nat \<times> ssl) option" where
  "read_bignum n s = do {
     (bs, s) \<leftarrow> SSL_read n s; check (length bs = n); Some (BN_bin2bn bs, s) }"

definition share_inversion_impl ::
  "(nat \<Rightarrow> nat \<Rightarrow> nat option) \<Rightarrow> ot_fun \<Rightarrow> ectf_rand \<Rightarrow> nat \<Rightarrow> nat \<Rightarrow> nat \<times> nat \<Rightarrow> nat \<times> nat \<Rightarrow>
     ectf_state \<Rightarrow> ((nat \<times> nat) \<times> ectf_state) option" where
  "share_inversion_impl ev ot r k p x rho st = do {
     ((dv, dp), st) \<leftarrow> scale_plus_share_impl ot r k p x rho st;
     let n = BN_num_bytes p;
     check (n < SSL3_RT_MAX_PLAIN_LENGTH);
     check (BN_num_bytes dv \<le> n \<and> BN_num_bytes dp \<le> n);
     dv_ser \<leftarrow> BN_bn2bin_padded n dv;
     dp_ser \<leftarrow> BN_bn2bin_padded n dp;
     (in_v, pv) \<leftarrow> read_bignum n (SSL_write dp_ser (es_pv st));
     (in_p, vp) \<leftarrow> read_bignum n (SSL_write dv_ser (es_vp st));
     sum_v \<leftarrow> BN_mod_add dv in_v p;
     sum_p \<leftarrow> BN_mod_add dp in_p p;
     ov \<leftarrow> BN_mod_inverse ev sum_v p;
     op \<leftarrow> BN_mod_inverse ev sum_p p;
     Some ((ov, op), st\<lparr>es_pv := pv, es_vp := vp\<rparr>) }"

definition compute_lambda_impl ::
  "ot_fun \<Rightarrow> ectf_rand \<Rightarrow> nat \<Rightarrow> nat \<Rightarrow> nat \<times> nat \<Rightarrow> nat \<times> nat \<Rightarrow> ectf_state \<Rightarrow>
     ((nat \<times> nat) \<times> ectf_state) option" where
  "compute_lambda_impl ot r k p x rho st = scale_plus_share_impl ot r k p x rho st"

definition negate_if_verifier :: "bool \<Rightarrow> nat \<Rightarrow> nat \<Rightarrow> nat option" where
  "negate_if_verifier verifier x p = (if \<not> verifier then Some x else BN_mod_sub 0 x p)"

definition compute_gamma_internal ::
  "ot_fun \<Rightarrow> ectf_rand \<Rightarrow> nat \<Rightarrow> nat \<Rightarrow> nat \<times> nat \<Rightarrow> ectf_state \<Rightarrow> ((nat \<times> nat) \<times> ectf_state) option" where
  "compute_gamma_internal ot r k p lambda st = do {
     ((ov, se), (op, re), s) \<leftarrow>
       play_inplace ot (er_sender r k) (er_receiver r k) p (fst lambda) (snd lambda)
         (es_se st) (es_re st) (es_pv st);
     Some ((ov, op), st\<lparr>es_se := se, es_re := re, es_pv := s\<rparr>) }"

text \<open>The last line of one side: twice gamma plus lambda squared minus x.\<close>

definition final_share :: "nat \<Rightarrow> nat \<Rightarrow> nat \<Rightarrow> nat \<Rightarrow> nat option" where
  "final_share p gamma lambda x = do {
     tmp_1 \<leftarrow> BN_mod_add gamma gamma p;
     tmp_2 \<leftarrow> BN_mod_sqr lambda p;
     tmp_3 \<leftarrow> BN_mod_add tmp_1 tmp_2 p;
     BN_mod_sub tmp_3 x p }"

definition ectf_internal ::
  "(nat \<Rightarrow> nat \<Rightarrow> nat option) \<Rightarrow> (nat \<Rightarrow> ot_fun) \<Rightarrow> ectf_rand \<Rightarrow> 16 word \<Rightarrow> bytes \<times> bytes \<Rightarrow> bytes \<times> bytes \<Rightarrow>
     ((nat \<times> nat) \<times> nat) option" where
  "ectf_internal ev ots r curve_id v_point p_point = do {
     check (fst v_point \<noteq> [] \<and> snd v_point \<noteq> [] \<and> fst p_point \<noteq> [] \<and> snd p_point \<noteq> []);
     p \<leftarrow> curve_field (get_nid_from_uint16 curve_id);
     (se, re) \<leftarrow> build_entries (er_junk r) p;
     let st = \<lparr>es_se = se, es_re = re, es_pv = idle_ssl, es_vp = idle_ssl\<rparr>;
     let xv = BN_bin2bn (fst v_point); let yv = BN_bin2bn (snd v_point);
     let xp = BN_bin2bn (fst p_point); let yp = BN_bin2bn (snd p_point);
     check (xv < p \<and> yv < p \<and> xp < p \<and> yp < p);
     rho_v \<leftarrow> BN_rand_range_ex (er_rho_v r) 1 p;
     rho_p \<leftarrow> BN_rand_range_ex (er_rho_p r) 1 p;
     x_in_v \<leftarrow> negate_if_verifier True xv p;
     x_in_p \<leftarrow> negate_if_verifier False xp p;
     ((dv, dp), st) \<leftarrow> share_inversion_impl ev (ots 0) r 0 p (x_in_v, x_in_p) (rho_v, rho_p) st;
     y_in_v \<leftarrow> negate_if_verifier True yv p;
     y_in_p \<leftarrow> negate_if_verifier False yp p;
     eta_v \<leftarrow> BN_mod_mul rho_v dv p;
     eta_p \<leftarrow> BN_mod_mul rho_p dp p;
     ((lv, lp), st) \<leftarrow> compute_lambda_impl (ots 1) r 2 p (y_in_v, y_in_p) (eta_v, eta_p) st;
     ((gv, gp), st) \<leftarrow> compute_gamma_internal (ots 2) r 4 p (lv, lp) st;
     ov \<leftarrow> final_share p gv lv xv;
     op \<leftarrow> final_share p gp lp xp;
     Some ((ov, op), BN_num_bytes p) }"

definition ectf ::
  "(nat \<Rightarrow> nat \<Rightarrow> nat option) \<Rightarrow> (nat \<Rightarrow> ot_fun) \<Rightarrow> ectf_rand \<Rightarrow> 16 word \<Rightarrow> bytes \<times> bytes \<Rightarrow> bytes \<times> bytes \<Rightarrow>
     (bytes \<times> bytes) option" where
  "ectf ev ots r curve_id v_point p_point = do {
     ((bv, bp), size_of_p) \<leftarrow> ectf_internal ev ots r curve_id v_point p_point;
     ov \<leftarrow> BN_bn2bin_padded size_of_p bv;
     op \<leftarrow> BN_bn2bin_padded size_of_p bp;
     Some (ov, op) }"

section \<open>Shares modulo p\<close>

text \<open>Two values share \<open>x\<close> modulo \<open>p\<close> when they add up to it.\<close>

definition shares_mod :: "nat \<Rightarrow> nat \<times> nat \<Rightarrow> int \<Rightarrow> bool" where
  "shares_mod p s x \<longleftrightarrow> fst s < p \<and> snd s < p \<and> (int (fst s) + int (snd s)) mod int p = x mod int p"

lemma shares_mod_cong: "shares_mod p s x \<Longrightarrow> x mod int p = y mod int p \<Longrightarrow> shares_mod p s y"
  by (simp add: shares_mod_def)

lemma shares_mod_nat:
  "a < p \<Longrightarrow> b < p \<Longrightarrow> shares_mod p (a, b) (int x) \<longleftrightarrow> (a + b) mod p = x mod p"
  by (simp add: shares_mod_def flip: of_nat_add zmod_int)

lemma shares_add:
  assumes "shares_mod p (a, b) x" "shares_mod p (c, d) y"
  obtains e f where "BN_mod_add a c p = Some e" "BN_mod_add b d p = Some f" "shares_mod p (e, f) (x + y)"
proof -
  have p: "0 < p" using assms(1) by (auto simp: shares_mod_def)
  have "(int ((a + c) mod p) + int ((b + d) mod p)) mod int p = ((int a + int c) + (int b + int d)) mod int p"
    by (simp add: zmod_int mod_add_eq)
  also have "\<dots> = ((int a + int b) + (int c + int d)) mod int p" by (simp add: ac_simps)
  also have "\<dots> = (x + y) mod int p"
    using assms by (intro mod_add_cong) (simp_all add: shares_mod_def)
  finally have "shares_mod p ((a + c) mod p, (b + d) mod p) (x + y)" using p by (simp add: shares_mod_def)
  with that p show ?thesis by (simp add: BN_mod_add_def)
qed

lemma local_products:
  assumes "0 < p"
  obtains e f where "BN_mod_mul a c p = Some e" "BN_mod_mul b d p = Some f"
    "shares_mod p (e, f) (int a * int c + int b * int d)"
  using assms that [of "a * c mod p" "b * d mod p"]
  by (simp add: BN_mod_mul_def shares_mod_def zmod_int mod_simps)

definition es_ok :: "nat \<Rightarrow> ectf_state \<Rightarrow> bool" where
  "es_ok p st \<longleftrightarrow> sender_entry_ok p (es_se st) \<and> receiver_entry_ok p (es_re st) \<and>
     es_pv st = idle_ssl \<and> es_vp st = idle_ssl"

lemma build_entries_ok:
  assumes "mta_modulus p"
  obtains se re where "build_entries junk p = Some (se, re)" "sender_entry_ok p se" "receiver_entry_ok p re"
proof -
  from initialise_sender_ok [OF assms] initialise_receiver_ok [OF assms] obtain se re where
    "initialise_entries_for_sender junk (mta_n p) p empty_sender = Some se" "sender_entry_ok p se"
    "initialise_entries_for_receiver junk p empty_receiver = Some re" "receiver_entry_ok p re" by blast
  with that show ?thesis by (simp add: build_entries_def)
qed

context oblivious_transfer
begin

lemma vector_mta_2_ok:
  assumes "mta_modulus p" "es_ok p st"
  obtains o2 st' where "vector_mta_2 ot r k p v_in p_in st = Some (o2, st')" "es_ok p st'"
    "shares_mod p o2 (int (fst v_in) * int (fst p_in) + int (snd v_in) * int (snd p_in))"
proof -
  obtain se2 re2 where b: "build_entries (er_junk r) p = Some (se2, re2)" "sender_entry_ok p se2"
      "receiver_entry_ok p re2"
    using build_entries_ok [OF assms(1)] .
  have e: "sender_entry_ok p (es_se st)" "receiver_entry_ok p (es_re st)"
    using assms(2) by (simp_all add: es_ok_def)
  obtain s1 s2 se se2' r1 r2 re re2' where run:
    "play_inplace_2 ot (er_sender r k) (er_sender r (k + 1)) (er_receiver r k) (er_receiver r (k + 1)) p
       (fst v_in) (snd v_in) (fst p_in) (snd p_in) (es_se st) se2 (es_re st) re2 idle_ssl =
     Some ((s1, s2), (se, se2'), (r1, r2), (re, re2'), idle_ssl)"
    "s1 < p" "s2 < p" "r1 < p" "r2 < p"
    "(s1 + r1) mod p = (fst v_in * fst p_in) mod p" "(s2 + r2) mod p = (snd v_in * snd p_in) mod p"
    "sender_entry_ok p se" "receiver_entry_ok p re"
    using play_inplace_2_products [where ?rs1.0 = "er_sender r k" and ?rs2.0 = "er_sender r (k + 1)"
        and ?rr1.0 = "er_receiver r k" and ?rr2.0 = "er_receiver r (k + 1)" and ?a1.0 = "fst v_in"
        and ?a2.0 = "snd v_in" and ?b1.0 = "fst p_in" and ?b2.0 = "snd p_in", OF assms(1) e(1) b(2) e(2) b(3)]
    by blast
  have "shares_mod p (s1, r1) (int (fst v_in) * int (fst p_in))"
    "shares_mod p (s2, r2) (int (snd v_in) * int (snd p_in))"
    using shares_mod_nat [OF run(2,4), of "fst v_in * fst p_in"]
      shares_mod_nat [OF run(3,5), of "snd v_in * snd p_in"] run(6,7) by simp_all
  from shares_add [OF this] obtain ov op where o: "BN_mod_add s1 s2 p = Some ov" "BN_mod_add r1 r2 p = Some op"
    "shares_mod p (ov, op) (int (fst v_in) * int (fst p_in) + int (snd v_in) * int (snd p_in))" .
  have "vector_mta_2 ot r k p v_in p_in st =
      Some ((ov, op), st\<lparr>es_se := se, es_re := re, es_pv := idle_ssl\<rparr>)"
    using b(1) run(1) o(1,2) assms(2) by (simp add: vector_mta_2_def es_ok_def)
  moreover have "es_ok p (st\<lparr>es_se := se, es_re := re, es_pv := idle_ssl\<rparr>)"
    using run(8,9) assms(2) by (simp add: es_ok_def)
  ultimately show ?thesis using that o(3) by blast
qed

lemma scale_plus_share_ok:
  assumes "mta_modulus p" "es_ok p st"
  obtains o2 st' where "scale_plus_share_impl ot r k p val blind st = Some (o2, st')" "es_ok p st'"
    "shares_mod p o2 ((int (fst val) + int (snd val)) * (int (fst blind) + int (snd blind)))"
proof -
  have p: "0 < p" using assms(1) by (simp add: mta_modulus_def)
  obtain tv tp st' where t: "vector_mta_2 ot r k p (fst val, fst blind) (snd blind, snd val) st = Some ((tv, tp), st')"
      "es_ok p st'"
      "shares_mod p (tv, tp) (int (fst val) * int (snd blind) + int (fst blind) * int (snd val))"
    using vector_mta_2_ok [OF assms, of r k "(fst val, fst blind)" "(snd blind, snd val)"] by auto
  obtain lv lp where l: "BN_mod_mul (fst val) (fst blind) p = Some lv" "BN_mod_mul (snd val) (snd blind) p = Some lp"
      "shares_mod p (lv, lp) (int (fst val) * int (fst blind) + int (snd val) * int (snd blind))"
    using local_products [OF p] .
  from shares_add [OF t(3) l(3)] obtain ov op where
    o: "BN_mod_add tv lv p = Some ov" "BN_mod_add tp lp p = Some op" and sh: "shares_mod p (ov, op)
      (int (fst val) * int (snd blind) + int (fst blind) * int (snd val) +
       (int (fst val) * int (fst blind) + int (snd val) * int (snd blind)))" .
  have "scale_plus_share_impl ot r k p val blind st = Some ((ov, op), st')"
    using t(1) l(1,2) o by (simp add: scale_plus_share_impl_def)
  moreover have "shares_mod p (ov, op) ((int (fst val) + int (snd val)) * (int (fst blind) + int (snd blind)))"
    using sh by (simp add: algebra_simps)
  ultimately show ?thesis using that t(2) by blast
qed

lemma compute_gamma_ok:
  assumes "mta_modulus p" "es_ok p st" "fst lambda < p"
  obtains o2 st' where "compute_gamma_internal ot r k p lambda st = Some (o2, st')" "es_ok p st'"
    "shares_mod p o2 (int (fst lambda) * int (snd lambda))"
proof -
  have "BN_num_bits (fst lambda) \<le> BN_num_bits p" using assms(3) by (simp add: BN_num_bits_mono)
  then obtain os se or re where run: "play_inplace ot (er_sender r k) (er_receiver r k) p (fst lambda) (snd lambda)
       (es_se st) (es_re st) idle_ssl = Some ((os, se), (or, re), idle_ssl)" "os < p" "or < p"
      "(os + or) mod p = (fst lambda * snd lambda) mod p" "sender_entry_ok p se" "receiver_entry_ok p re"
    using play_inplace_product [OF assms(1)] assms(2) unfolding es_ok_def by blast
  have "compute_gamma_internal ot r k p lambda st =
      Some ((os, or), st\<lparr>es_se := se, es_re := re, es_pv := idle_ssl\<rparr>)"
    using run(1) assms(2) by (simp add: compute_gamma_internal_def es_ok_def)
  moreover have "shares_mod p (os, or) (int (fst lambda) * int (snd lambda))"
    using shares_mod_nat [OF run(2,3), of "fst lambda * snd lambda"] run(4) by simp
  moreover have "es_ok p (st\<lparr>es_se := se, es_re := re, es_pv := idle_ssl\<rparr>)"
    using run(5,6) assms(2) by (simp add: es_ok_def)
  ultimately show ?thesis using that by blast
qed

end

subsection \<open>Inversion\<close>

lemma read_bignum_written:
  assumes "0 < n" "n < SSL3_RT_MAX_PLAIN_LENGTH" "x < q" "BN_num_bytes q \<le> n"
  shows "read_bignum n (SSL_write (nat_be n x) idle_ssl) = Some (x, idle_ssl)"
proof -
  have "nat_be n x \<noteq> []" using assms(1) by (metis length_0_conv length_nat_be not_gr0)
  then show ?thesis
    using SSL_read_single_record [of "nat_be n x" "[]"] assms BN_bin2bn_nat_be [OF assms(3,4)]
    by (simp add: read_bignum_def SSL_write_def idle_ssl_def)
qed

lemma BN_num_bytes_bounds:
  assumes "mta_modulus p"
  shows "0 < BN_num_bytes p" "BN_num_bytes p < SSL3_RT_MAX_PLAIN_LENGTH"
  using mta_num_bytes [OF assms] BN_num_bits_pos [of p] assms
  by (auto simp: SSL3_RT_MAX_PLAIN_LENGTH_def mta_modulus_def BN_num_bytes_def)

lemma BN_num_bytes_mono: "x \<le> y \<Longrightarrow> BN_num_bytes x \<le> BN_num_bytes y"
  unfolding BN_num_bytes_def by (intro div_le_mono add_le_mono BN_num_bits_mono) simp_all

text \<open>Both sides see the same sum of the exchanged values.\<close>

lemma share_inversion_unfold:
  assumes "mta_modulus p" "es_ok p st'" "dv < p" "dp < p"
    and "scale_plus_share_impl ot r k p x rho st = Some ((dv, dp), st')"
  shows "share_inversion_impl ev ot r k p x rho st =
     (case BN_mod_inverse ev ((dv + dp) mod p) p of
        None \<Rightarrow> None | Some d \<Rightarrow> Some ((d, d), st'))"
proof -
  let ?n = "BN_num_bytes p"
  note n = BN_num_bytes_bounds [OF assms(1)]
  have ch: "es_pv st' = idle_ssl" "es_vp st' = idle_ssl" using assms(2) by (simp_all add: es_ok_def)
  then have upd: "st'\<lparr>es_pv := idle_ssl, es_vp := idle_ssl\<rparr> = st'" by simp
  have le: "BN_num_bytes dv \<le> ?n" "BN_num_bytes dp \<le> ?n"
    using assms(3,4) by (simp_all add: BN_num_bytes_mono)
  have ser: "BN_bn2bin_padded ?n dv = Some (nat_be ?n dv)" "BN_bn2bin_padded ?n dp = Some (nat_be ?n dp)"
    using BN_bn2bin_padded_fits assms(3,4) by blast+
  have rd: "read_bignum ?n (SSL_write (nat_be ?n dp) idle_ssl) = Some (dp, idle_ssl)"
    "read_bignum ?n (SSL_write (nat_be ?n dv) idle_ssl) = Some (dv, idle_ssl)"
    using read_bignum_written [OF n] assms(3,4) by blast+
  have add: "BN_mod_add dv dp p = Some ((dv + dp) mod p)" "BN_mod_add dp dv p = Some ((dv + dp) mod p)"
    using assms(3) by (simp_all add: BN_mod_add_def add.commute)
  show ?thesis
    unfolding share_inversion_impl_def assms(5)
    using n le ser rd add ch upd by (simp add: Let_def split: option.split)
qed

lemma coprime_mod_int:
  assumes "0 < p" "int a mod int p = x mod int p"
  shows "coprime a p \<longleftrightarrow> coprime x (int p)"
proof -
  have "coprime a p \<longleftrightarrow> coprime (int a) (int p)" by simp
  also have "\<dots> \<longleftrightarrow> coprime (int a mod int p) (int p)" using assms(1) by (simp add: coprime_mod_left_iff)
  also have "\<dots> \<longleftrightarrow> coprime x (int p)" using assms by (simp add: coprime_mod_left_iff)
  finally show ?thesis .
qed

context oblivious_transfer
begin

lemma share_inversion_ok:
  assumes "mta_modulus p" "odd p" "es_ok p st"
    and D: "D = (int (fst x) + int (snd x)) * (int (fst rho) + int (snd rho))"
  shows "if coprime D (int p)
         then \<exists>d st'. share_inversion_impl ev ot r k p x rho st = Some ((d, d), st') \<and> es_ok p st' \<and>
                d < p \<and> (D * int d) mod int p = 1 mod int p
         else share_inversion_impl ev ot r k p x rho st = None"
proof -
  have p: "0 < p" using assms(1) by (simp add: mta_modulus_def)
  obtain dv dp st' where s: "scale_plus_share_impl ot r k p x rho st = Some ((dv, dp), st')" "es_ok p st'"
      "shares_mod p (dv, dp) D"
    using scale_plus_share_ok [OF assms(1,3), of r k x rho] D by (metis prod.collapse)
  have sum: "int ((dv + dp) mod p) mod int p = D mod int p" and lt: "dv < p" "dp < p"
    using s(3) by (simp_all add: shares_mod_def zmod_int)
  note run = share_inversion_unfold [OF assms(1) s(2) lt s(1), of ev]
  note co = coprime_mod_int [OF p sum]
  show ?thesis
  proof (cases "coprime D (int p)")
    case True
    then have "coprime ((dv + dp) mod p) p" using co by simp
    then obtain d where d: "BN_mod_inverse ev ((dv + dp) mod p) p = Some d" "d < p"
        "((dv + dp) mod p * d) mod p = 1 mod p"
      using BN_mod_inverse_Some [OF assms(2)] by blast
    have "(D * int d) mod int p = (int ((dv + dp) mod p) * int d) mod int p"
      by (rule mod_mult_cong [OF sum [symmetric] refl])
    also have "\<dots> = 1 mod int p"
      using d(3) by (metis of_nat_1 of_nat_mod of_nat_mult)
    finally show ?thesis using True run d(1,2) s(2) by simp
  next
    case False
    then have "BN_mod_inverse ev ((dv + dp) mod p) p = None"
      using co BN_mod_inverse_None [OF assms(2)] by blast
    then show ?thesis using False run by simp
  qed
qed

end

section \<open>The whole conversion\<close>

lemma curve_field_ok:
  assumes "curve_field nid = Some p"
  shows "mta_modulus p" "odd p"
proof -
  have *: "mta_modulus (le_words kP256Field)" "odd (le_words kP256Field)"
    "mta_modulus (le_words kP384Field)" "odd (le_words kP384Field)"
    "mta_modulus (le_words kP521Field)" "odd (le_words kP521Field)"
    unfolding mta_modulus_def
    by (simp_all add: BN_num_bits_le le_words_def kP256Field_def kP384Field_def kP521Field_def)
  then show "mta_modulus p" "odd p"
    using assms by (auto simp: curve_field_def split: if_splits)
qed

lemma curve_field_nist: "(\<exists>p. curve_field (get_nid_from_uint16 c) = Some p) \<longleftrightarrow> is_nist_curve c"
  by (simp add: curve_field_def get_nid_from_uint16_def is_nist_curve_def)

lemma final_share_ok:
  assumes "0 < p"
  shows "\<exists>o1. final_share p g l x = Some o1 \<and> o1 < p \<and>
     int o1 = (2 * int g + int l * int l - int x) mod int p"
proof -
  let ?t = "((g + g) mod p + l * l mod p) mod p"
  have "final_share p g l x = Some (nat ((int ?t - int x) mod int p))"
    using assms by (simp add: final_share_def BN_mod_add_def BN_mod_sqr_def BN_mod_sub_def)
  moreover have "(int ?t - int x) mod int p = (2 * int g + int l * int l - int x) mod int p"
    by (simp add: zmod_int mod_simps)
  ultimately show ?thesis using assms by (simp add: nat_less_iff)
qed

lemma negate_verifier_ok:
  assumes "0 < p"
  obtains y where "negate_if_verifier True x p = Some y" "int y mod int p = - int x mod int p"
  using assms that [of "nat (- int x mod int p)"]
  by (simp add: negate_if_verifier_def BN_mod_sub_def)

text \<open>The arithmetic of the conversion, over the integers modulo \<open>p\<close>.\<close>

lemma slope_shares:
  fixes p :: int
  assumes D: "D mod p = ((xp - xv) * (rv + rp)) mod p" and d: "(D * d) mod p = 1 mod p"
    and e: "ev mod p = (rv * d) mod p" "ep mod p = (rp * d) mod p"
    and l: "L mod p = ((yv' + yp) * (ev + ep)) mod p" and y: "yv' mod p = (- yv) mod p"
  shows "(L * (xp - xv)) mod p = (yp - yv) mod p"
proof -
  have "(yv' + yp) mod p = (- yv + yp) mod p" by (rule mod_add_cong [OF y refl])
  moreover have "(ev + ep) mod p = (rv * d + rp * d) mod p" by (rule mod_add_cong [OF e])
  ultimately have "L mod p = ((- yv + yp) * (rv * d + rp * d)) mod p"
    unfolding l by (rule mod_mult_cong)
  then have "(L * (xp - xv)) mod p = ((- yv + yp) * (rv * d + rp * d) * (xp - xv)) mod p"
    by (rule mod_mult_cong [OF _ refl])
  also have "\<dots> = ((yp - yv) * (((xp - xv) * (rv + rp)) * d)) mod p" by (simp add: algebra_simps)
  also have "\<dots> = ((yp - yv) * (D * d)) mod p"
    by (intro mod_mult_cong refl D [symmetric])
  also have "\<dots> = ((yp - yv) * 1) mod p" by (rule mod_mult_cong [OF refl d])
  finally show ?thesis by simp
qed

lemma square_shares:
  fixes p :: int
  assumes "(gv + gp) mod p = (lv * lp) mod p" "ov = (2 * gv + lv * lv - xv) mod p" "op = (2 * gp + lp * lp - xp) mod p"
  shows "(ov + op) mod p = ((lv + lp)\<^sup>2 - xv - xp) mod p"
proof -
  have "(ov + op) mod p = (2 * (gv + gp) + (lv * lv + lp * lp - xv - xp)) mod p"
    by (simp add: assms(2,3) mod_add_eq) (simp add: algebra_simps)
  also have "\<dots> = (2 * (lv * lp) + (lv * lv + lp * lp - xv - xp)) mod p"
    by (rule mod_add_cong [OF mod_mult_cong [OF refl assms(1)] refl])
  finally show ?thesis by (simp add: power2_eq_square algebra_simps)
qed

locale ot_sequence =
  fixes ots :: "nat \<Rightarrow> ot_fun"
  assumes transfers: "oblivious_transfer (ots i)"
begin

lemmas step_share_inversion = oblivious_transfer.share_inversion_ok [OF transfers]
lemmas step_scale_plus_share = oblivious_transfer.scale_plus_share_ok [OF transfers]
lemmas step_compute_gamma = oblivious_transfer.compute_gamma_ok [OF transfers]

text \<open>Everything after the inversion, given the common inverse \<open>d\<close>.\<close>

lemma after_inversion:
  assumes m: "mta_modulus p" and st: "es_ok p st" and "xv < p" "xp < p"
    and D: "D mod int p = ((int xp - int xv) * (int rv + int rp)) mod int p"
    and d: "(D * int d) mod int p = 1 mod int p"
  shows "\<exists>yv' ev ep lv lp st1 gv gp st2 ov op. negate_if_verifier True yv p = Some yv' \<and>
     BN_mod_mul rv d p = Some ev \<and> BN_mod_mul rp d p = Some ep \<and>
     compute_lambda_impl (ots 1) r 2 p (yv', yp) (ev, ep) st = Some ((lv, lp), st1) \<and>
     compute_gamma_internal (ots 2) r 4 p (lv, lp) st1 = Some ((gv, gp), st2) \<and>
     final_share p gv lv xv = Some ov \<and> final_share p gp lp xp = Some op \<and> ov < p \<and> op < p \<and>
     (\<exists>l. (l * (int xp - int xv)) mod int p = (int yp - int yv) mod int p \<and>
          (int ov + int op) mod int p = (l\<^sup>2 - int xv - int xp) mod int p)"
proof -
  have p: "0 < p" using m by (simp add: mta_modulus_def)
  obtain yv' where y: "negate_if_verifier True yv p = Some yv'" "int yv' mod int p = - int yv mod int p"
    using negate_verifier_ok [OF p] .
  define ev ep where "ev = rv * d mod p" "ep = rp * d mod p"
  have e: "BN_mod_mul rv d p = Some ev" "BN_mod_mul rp d p = Some ep"
    "int ev mod int p = (int rv * int d) mod int p" "int ep mod int p = (int rp * int d) mod int p"
    using p by (simp_all add: ev_ep_def BN_mod_mul_def zmod_int)
  obtain lv lp st1 where l: "compute_lambda_impl (ots 1) r 2 p (yv', yp) (ev, ep) st = Some ((lv, lp), st1)"
      "es_ok p st1" "shares_mod p (lv, lp) ((int yv' + int yp) * (int ev + int ep))"
    using step_scale_plus_share [OF m st, of 1 r 2 "(yv', yp)" "(ev, ep)"]
    by (auto simp: compute_lambda_impl_def)
  then have lt: "lv < p" by (simp add: shares_mod_def)
  obtain gv gp st2 where g: "compute_gamma_internal (ots 2) r 4 p (lv, lp) st1 = Some ((gv, gp), st2)"
      "shares_mod p (gv, gp) (int lv * int lp)"
    using step_compute_gamma [OF m l(2), of "(lv, lp)" 2 r 4, unfolded fst_conv snd_conv, OF lt]
    by (metis surj_pair)
  obtain ov where ov: "final_share p gv lv xv = Some ov" "ov < p"
      "int ov = (2 * int gv + int lv * int lv - int xv) mod int p"
    using final_share_ok [OF p] by blast
  obtain op where op: "final_share p gp lp xp = Some op" "op < p"
      "int op = (2 * int gp + int lp * int lp - int xp) mod int p"
    using final_share_ok [OF p] by blast
  have "((int lv + int lp) * (int xp - int xv)) mod int p = (int yp - int yv) mod int p"
    using slope_shares [OF D d e(3,4) _ y(2)] l(3) by (simp add: shares_mod_def)
  moreover have "(int ov + int op) mod int p = ((int lv + int lp)\<^sup>2 - int xv - int xp) mod int p"
    using square_shares [OF _ ov(3) op(3)] g(2) by (simp add: shares_mod_def)
  ultimately show ?thesis using y(1) e(1,2) l(1) g(1) ov op by blast
qed

lemma ectf_internal_shares:
  assumes c: "curve_field (get_nid_from_uint16 cid) = Some p"
    and ne: "vx \<noteq> []" "vy \<noteq> []" "px \<noteq> []" "py \<noteq> []"
    and lt: "be_nat vx < p" "be_nat vy < p" "be_nat px < p" "be_nat py < p"
    and rho: "BN_rand_range_ex (er_rho_v r) 1 p = Some rv" "BN_rand_range_ex (er_rho_p r) 1 p = Some rp"
  shows "if coprime ((int (be_nat px) - int (be_nat vx)) * (int rv + int rp)) (int p)
     then \<exists>ov op l. ectf_internal ev ots r cid (vx, vy) (px, py) = Some ((ov, op), BN_num_bytes p) \<and>
       ov < p \<and> op < p \<and>
       (l * (int (be_nat px) - int (be_nat vx))) mod int p = (int (be_nat py) - int (be_nat vy)) mod int p \<and>
       (int ov + int op) mod int p = (l\<^sup>2 - int (be_nat vx) - int (be_nat px)) mod int p
     else ectf_internal ev ots r cid (vx, vy) (px, py) = None"
proof -
  note m = curve_field_ok [OF c]
  have p: "0 < p" using m(1) by (simp add: mta_modulus_def)
  obtain se re where b: "build_entries (er_junk r) p = Some (se, re)" "sender_entry_ok p se" "receiver_entry_ok p re"
    using build_entries_ok [OF m(1)] .
  define st where "st = \<lparr>es_se = se, es_re = re, es_pv = idle_ssl, es_vp = idle_ssl\<rparr>"
  have st: "es_ok p st" using b by (simp add: es_ok_def st_def)
  obtain xv' where x: "negate_if_verifier True (be_nat vx) p = Some xv'"
      "int xv' mod int p = - int (be_nat vx) mod int p"
    using negate_verifier_ok [OF p] .
  let ?D = "(int xv' + int (be_nat px)) * (int rv + int rp)"
  let ?D' = "(int (be_nat px) - int (be_nat vx)) * (int rv + int rp)"
  have "?D mod int p = ((- int (be_nat vx) + int (be_nat px)) * (int rv + int rp)) mod int p"
    by (rule mod_mult_cong [OF mod_add_cong [OF x(2) refl] refl])
  then have D: "?D mod int p = ?D' mod int p" by simp
  have co: "coprime ?D (int p) \<longleftrightarrow> coprime ?D' (int p)"
    using p D by (metis coprime_mod_left_iff of_nat_0_less_iff less_irrefl)
  note inv = step_share_inversion [OF m st refl, of "(xv', be_nat px)" "(rv, rp)" ev 0 r 0, simplified fst_conv snd_conv]
  note start = ectf_internal_def c b(1) st_def [symmetric] x(1) rho rho [unfolded One_nat_def] BN_bin2bn_def Let_def
  show ?thesis
  proof (cases "coprime ?D' (int p)")
    case True
    then obtain d st' where d: "share_inversion_impl ev (ots 0) r 0 p (xv', be_nat px) (rv, rp) st = Some ((d, d), st')"
        "es_ok p st'" "(?D * int d) mod int p = 1 mod int p"
      using inv co by auto
    from after_inversion [OF m(1) d(2) lt(1,3) D d(3), of "be_nat vy" r "be_nat py"] True show ?thesis
      using d(1) ne lt by (auto simp: start negate_if_verifier_def [of False])
  next
    case False
    then have "share_inversion_impl ev (ots 0) r 0 p (xv', be_nat px) (rv, rp) st = None"
      using inv co by simp
    with False show ?thesis using ne lt by (simp add: start negate_if_verifier_def [of False])
  qed
qed

end

section \<open>The chord formula\<close>

definition on_curve :: "int \<Rightarrow> int \<Rightarrow> int \<Rightarrow> int \<Rightarrow> int \<Rightarrow> bool" where
  "on_curve p a b x y \<longleftrightarrow> y\<^sup>2 mod p = (x ^ 3 + a * x + b) mod p"

lemma chord_identity:
  fixes xv xp yv l a b :: int
  defines "F \<equiv> \<lambda>X. X ^ 3 + a * X + b - (l * (X - xv) + yv)\<^sup>2" and "s \<equiv> l\<^sup>2 - xv - xp"
  shows "F s * (xp - xv) = F xp * (s - xv) + F xv * (xp - s)"
  unfolding F_def s_def by (simp add: power2_eq_square power3_eq_cube algebra_simps)

lemma chord_third_point:
  assumes co: "coprime (xp - xv) p" and l: "(l * (xp - xv)) mod p = (yp - yv) mod p"
    and "on_curve p a b xv yv" "on_curve p a b xp yp" and x3: "x3 mod p = (l\<^sup>2 - xv - xp) mod p"
  shows "on_curve p a b x3 (l * (xv - x3) - yv)"
proof -
  let ?F = "\<lambda>X. X ^ 3 + a * X + b - (l * (X - xv) + yv)\<^sup>2"
  define s where "s = l\<^sup>2 - xv - xp"
  have v: "p dvd ?F xv"
    using assms(3) by (simp add: on_curve_def mod_eq_dvd_iff dvd_diff_commute)
  have "(l * (xp - xv) + yv) mod p = yp mod p"
    using mod_add_cong [OF l refl, of yv] by simp
  then have "(l * (xp - xv) + yv)\<^sup>2 mod p = yp\<^sup>2 mod p" by (metis power_mod)
  then have q: "p dvd ?F xp"
    using assms(4) by (simp add: on_curve_def mod_eq_dvd_iff [symmetric])
  have "p dvd ?F s * (xp - xv)"
    unfolding s_def chord_identity using v q by (intro dvd_add dvd_mult2)
  then have "p dvd ?F s" using co by (simp add: coprime_commute coprime_dvd_mult_left_iff)
  moreover have "?F x3 mod p = ?F s mod p"
  proof -
    have x: "x3 mod p = s mod p" using x3 by (simp only: s_def)
    have "(x3 ^ 3 + a * x3 + b) mod p = (s ^ 3 + a * s + b) mod p"
      by (intro mod_add_cong mod_mult_cong refl x) (metis power_mod x)
    moreover have "(l * (x3 - xv) + yv) mod p = (l * (s - xv) + yv) mod p"
      by (intro mod_add_cong mod_mult_cong mod_diff_cong refl x)
    then have "(l * (x3 - xv) + yv)\<^sup>2 mod p = (l * (s - xv) + yv)\<^sup>2 mod p" by (metis power_mod)
    ultimately show ?thesis by (rule mod_diff_cong)
  qed
  ultimately have "p dvd ?F x3" by (simp add: mod_eq_0_iff_dvd [symmetric])
  then have "(l * (x3 - xv) + yv)\<^sup>2 mod p = (x3 ^ 3 + a * x3 + b) mod p"
    by (simp add: mod_eq_dvd_iff dvd_diff_commute)
  moreover have "(l * (x3 - xv) + yv)\<^sup>2 = (l * (xv - x3) - yv)\<^sup>2"
    by (simp add: power2_eq_square algebra_simps)
  ultimately show ?thesis by (simp add: on_curve_def)
qed

lemma ectf_bytes:
  assumes "ectf_internal ev ots r cid v p = Some ((ov, op), BN_num_bytes q)" "ov < q" "op < q"
  shows "ectf ev ots r cid v p = Some (nat_be (BN_num_bytes q) ov, nat_be (BN_num_bytes q) op)"
  using assms by (simp add: ectf_def BN_bn2bin_padded_fits)

context ot_sequence
begin

lemma ectf_chord:
  assumes "curve_field (get_nid_from_uint16 cid) = Some p"
    and "vx \<noteq> []" "vy \<noteq> []" "px \<noteq> []" "py \<noteq> []"
    and "be_nat vx < p" "be_nat vy < p" "be_nat px < p" "be_nat py < p"
    and "BN_rand_range_ex (er_rho_v r) 1 p = Some rv" "BN_rand_range_ex (er_rho_p r) 1 p = Some rp"
    and co: "coprime ((int (be_nat px) - int (be_nat vx)) * (int rv + int rp)) (int p)"
  shows "\<exists>ov op l x3. ectf ev ots r cid (vx, vy) (px, py) = Some (ov, op) \<and>
     length ov = BN_num_bytes p \<and> length op = BN_num_bytes p \<and>
     x3 = (int (be_nat ov) + int (be_nat op)) mod int p \<and>
     (l * (int (be_nat px) - int (be_nat vx))) mod int p = (int (be_nat py) - int (be_nat vy)) mod int p \<and>
     x3 = (l\<^sup>2 - int (be_nat vx) - int (be_nat px)) mod int p \<and>
     (\<forall>a b. on_curve (int p) a b (int (be_nat vx)) (int (be_nat vy)) \<longrightarrow>
            on_curve (int p) a b (int (be_nat px)) (int (be_nat py)) \<longrightarrow>
            on_curve (int p) a b x3 (l * (int (be_nat vx) - x3) - int (be_nat vy)))"
proof -
  obtain ov op l where i: "ectf_internal ev ots r cid (vx, vy) (px, py) = Some ((ov, op), BN_num_bytes p)"
      "ov < p" "op < p"
      "(l * (int (be_nat px) - int (be_nat vx))) mod int p = (int (be_nat py) - int (be_nat vy)) mod int p"
      "(int ov + int op) mod int p = (l\<^sup>2 - int (be_nat vx) - int (be_nat px)) mod int p"
    using ectf_internal_shares [OF assms(1-11), of ev] co by auto
  let ?n = "BN_num_bytes p"
  have bn: "be_nat (nat_be ?n ov) = ov" "be_nat (nat_be ?n op) = op"
    using i(2,3) BN_bin2bn_nat_be [of _ p ?n] by (simp_all add: BN_bin2bn_def)
  have co': "coprime (int (be_nat px) - int (be_nat vx)) (int p)" using co by simp
  let ?x3 = "(int ov + int op) mod int p"
  have "on_curve (int p) a b ?x3 (l * (int (be_nat vx) - ?x3) - int (be_nat vy))"
    if "on_curve (int p) a b (int (be_nat vx)) (int (be_nat vy))"
       "on_curve (int p) a b (int (be_nat px)) (int (be_nat py))" for a b
    by (rule chord_third_point [OF co' i(4) that]) (simp add: i(5))
  then show ?thesis
    using ectf_bytes [OF i(1-3)] bn i(4,5) by (intro exI [of _ "nat_be ?n ov"] exI [of _ "nat_be ?n op"]
      exI [of _ l] exI [of _ ?x3]) simp
qed

lemma ectf_none:
  assumes "curve_field (get_nid_from_uint16 cid) = Some p"
    and "vx \<noteq> []" "vy \<noteq> []" "px \<noteq> []" "py \<noteq> []"
    and "be_nat vx < p" "be_nat vy < p" "be_nat px < p" "be_nat py < p"
    and "BN_rand_range_ex (er_rho_v r) 1 p = Some rv" "BN_rand_range_ex (er_rho_p r) 1 p = Some rp"
    and "\<not> coprime ((int (be_nat px) - int (be_nat vx)) * (int rv + int rp)) (int p)"
  shows "ectf ev ots r cid (vx, vy) (px, py) = None"
  using ectf_internal_shares [OF assms(1-11), of ev] assms(12) by (simp add: ectf_def)

end

interpretation iknp_seq: ot_sequence "\<lambda>i. iknp_ot aes kdf gen (st i)" for aes kdf gen st
  by unfold_locales (rule iknp_ot_selects)

end
