(* ===== verification/Frodo_Matrix.thy ===== *)
theory Frodo_Matrix
  imports Surf_Prelude
begin

text \<open>
  The matrix crate of tutorials/frodo-pir-fast (matrix/src/matrix.rs, matrix/src/utils.rs): matrices of
  32-bit words in one vector, row by row, and the conversions between bits, bytes and words.  A result
  is a sum type whose left values are the errors of the source; \<open>Panic\<close> is a panic, also that of an
  index or a checked addition.  Reads by get\_unchecked are list access; the facts about them assume the
  vector to be long enough.  The generator StdRng and the base64 crate are arguments.
\<close>

type_synonym u32 = "32 word"

section \<open>Results\<close>

datatype frodo_error =
    Panic
  | ErrorUnexpectedInputSize
  | ErrorQueryParamsReused
  | ErrorOverflownAdd
  | DecodeError
  | Message string

definition bindR :: "'e + 'a \<Rightarrow> ('a \<Rightarrow> 'e + 'b) \<Rightarrow> 'e + 'b" where
  "bindR r f = (case r of Inl e \<Rightarrow> Inl e | Inr x \<Rightarrow> f x)"

lemma bindR_simps [simp]: "bindR (Inl e) f = Inl e" "bindR (Inr x) f = f x"
  by (simp_all add: bindR_def)

primrec mapR :: "('a \<Rightarrow> 'e + 'b) \<Rightarrow> 'a list \<Rightarrow> 'e + 'b list" where
  "mapR f [] = Inr []"
| "mapR f (x # xs) = bindR (f x) (\<lambda>y. bindR (mapR f xs) (\<lambda>ys. Inr (y # ys)))"

definition assertR :: "bool \<Rightarrow> 'e \<Rightarrow> 'e + unit" where
  "assertR c e = (if c then Inr () else Inl e)"

lemma assertR_simps [simp]: "assertR True e = Inr ()" "assertR False e = Inl e"
  by (simp_all add: assertR_def)

text \<open>A slice \<open>xs[a..b]\<close>.\<close>

definition slice_range :: "'a list \<Rightarrow> nat \<Rightarrow> nat \<Rightarrow> frodo_error + 'a list" where
  "slice_range xs a b = (if a \<le> b \<and> b \<le> length xs then Inr (take (b - a) (drop a xs)) else Inl Panic)"

definition vec_index :: "'a list \<Rightarrow> nat \<Rightarrow> frodo_error + 'a" where
  "vec_index xs i = (if i < length xs then Inr (xs ! i) else Inl Panic)"

section \<open>Bits, bytes and words\<close>

definition u8_to_bits_le :: "byte \<Rightarrow> bool list" where
  "u8_to_bits_le b = map (\<lambda>i. 2 ^ i AND b > 0) [0..<8]"

definition bits_to_bytes_le :: "bool list \<Rightarrow> bytes" where
  "bits_to_bytes_le bits =
     foldl (\<lambda>bs (i, b). if b then bs[i div 8 := bs ! (i div 8) + 2 ^ (i mod 8)] else bs)
       (replicate ((length bits + 7) div 8) 0) (enumerate 0 bits)"

definition bytes_to_bits_le :: "bytes \<Rightarrow> bool list" where
  "bytes_to_bits_le bs = foldl (@) [] (map u8_to_bits_le bs)"

definition u32_sized_bytes_from_vec :: "bytes \<Rightarrow> frodo_error + bytes" where
  "u32_sized_bytes_from_vec bs = (if length bs = 4 then Inr bs else Inl ErrorUnexpectedInputSize)"

definition from_le_bytes :: "bytes \<Rightarrow> u32" where
  "from_le_bytes bs = foldr (\<lambda>b acc. ucast b + push_bit 8 acc) bs 0"

definition to_le_bytes :: "u32 \<Rightarrow> bytes" where
  "to_le_bytes x = map (\<lambda>i. ucast (drop_bit (8 * i) x)) [0..<4]"

definition bits_to_u32_le :: "bool list \<Rightarrow> frodo_error + u32" where
  "bits_to_u32_le bits =
     (let bs = bits_to_bytes_le bits
      in if length bs > 4 then Inl ErrorUnexpectedInputSize
         else bindR (u32_sized_bytes_from_vec (bs @ replicate (4 - length bs) 0)) (\<lambda>bs. Inr (from_le_bytes bs)))"

section \<open>Matrices\<close>

record Matrix =
  mx_rows :: nat
  mx_cols :: nat
  mx_n :: nat
  mx_elements :: "u32 list"

definition with_vector :: "u32 list \<Rightarrow> nat \<Rightarrow> nat \<Rightarrow> frodo_error + Matrix" where
  "with_vector elements rows cols =
     (if rows = 0 \<or> cols = 0 then Inl Panic
      else Inr \<lparr>mx_rows = rows, mx_cols = cols, mx_n = rows * cols, mx_elements = elements\<rparr>)"

definition Matrix_new :: "nat \<Rightarrow> nat \<Rightarrow> frodo_error + Matrix" where
  "Matrix_new rows cols =
     (if rows = 0 \<or> cols = 0 then Inl Panic else with_vector (replicate (rows * cols) 0) rows cols)"

text \<open>\<open>rng seed i\<close> is the \<open>i\<close>-th word of the generator seeded with \<open>seed\<close>.\<close>

definition new_from_seed :: "(bytes \<Rightarrow> nat \<Rightarrow> u32) \<Rightarrow> bytes \<Rightarrow> nat \<Rightarrow> nat \<Rightarrow> frodo_error + Matrix" where
  "new_from_seed rng seed rows cols =
     (if rows = 0 \<or> cols = 0 then Inl Panic
      else with_vector (concat (map (\<lambda>c. map (\<lambda>r. rng seed (c * rows + r)) [0..<rows]) [0..<cols])) rows cols)"

definition row_of_bits :: "nat \<Rightarrow> nat \<Rightarrow> bool list \<Rightarrow> frodo_error + u32 list" where
  "row_of_bits row_width plaintext_bits bits =
     mapR (\<lambda>j. let end_bound = (j + 1) * plaintext_bits
               in if end_bound < length bits
                  then bindR (slice_range bits (j * plaintext_bits) end_bound) bits_to_u32_le
                  else bindR (slice_range bits (j * plaintext_bits) (length bits)) bits_to_u32_le) [0..<row_width]"

definition new_from_vals ::
  "(string \<Rightarrow> bytes option) \<Rightarrow> string list \<Rightarrow> nat \<Rightarrow> nat \<Rightarrow> nat \<Rightarrow> frodo_error + Matrix" where
  "new_from_vals decode vals rows elem_size plaintext_bits =
     (if rows = 0 \<or> plaintext_bits = 0 then Inl Panic
      else let row_width = elem_size div plaintext_bits + (if elem_size mod plaintext_bits \<noteq> 0 then 1 else 0)
      in bindR (mapR (\<lambda>i. bindR (vec_index vals i) (\<lambda>data.
           case decode data of
             None \<Rightarrow> Inl DecodeError
           | Some bs \<Rightarrow> row_of_bits row_width plaintext_bits (bytes_to_bits_le bs))) [0..<rows])
         (\<lambda>result. with_vector (concat result) rows row_width))"

definition is_empty :: "Matrix \<Rightarrow> bool" where
  "is_empty m \<longleftrightarrow> mx_rows m = 0 \<and> mx_elements m = []"

definition matrix_copy :: "Matrix \<Rightarrow> frodo_error + Matrix" where
  "matrix_copy m = with_vector (mx_elements m) (mx_rows m) (mx_cols m)"

text \<open>The mutating operations return the result and the matrix they leave behind.\<close>

definition matrix_pop :: "Matrix \<Rightarrow> frodo_error + (u32 option \<times> Matrix)" where
  "matrix_pop m =
     (if mx_elements m = [] then Inr (None, m)
      else if mx_n m = 0 then Inl Panic
      else Inr (Some (last (mx_elements m)), m\<lparr>mx_elements := butlast (mx_elements m), mx_n := mx_n m - 1\<rparr>))"

definition pop_row :: "Matrix \<Rightarrow> frodo_error + (u32 list option \<times> Matrix)" where
  "pop_row m =
     (if mx_rows m = 0 then Inr (None, m)
      else let start_index = (mx_rows m - 1) * mx_cols m; end_index = mx_rows m * mx_cols m
      in bindR (slice_range (mx_elements m) start_index end_index) (\<lambda>last_row.
           if mx_n m < mx_cols m then Inl Panic
           else Inr (Some last_row,
             m\<lparr>mx_elements := take start_index (mx_elements m) @ drop end_index (mx_elements m),
               mx_rows := mx_rows m - 1, mx_n := mx_n m - mx_cols m\<rparr>)))"

definition push_row :: "Matrix \<Rightarrow> u32 list \<Rightarrow> frodo_error + Matrix" where
  "push_row m row =
     (if length row \<noteq> mx_cols m then Inl (Message ''Row length must be equal to the number of columns'')
      else Inr (m\<lparr>mx_elements := mx_elements m @ row, mx_rows := mx_rows m + 1, mx_n := mx_n m + mx_cols m\<rparr>))"

definition matrix_at :: "Matrix \<Rightarrow> nat \<Rightarrow> nat \<Rightarrow> u32" where
  "matrix_at m i j = mx_elements m ! (i * mx_cols m + j)"

definition is_square :: "Matrix \<Rightarrow> bool" where
  "is_square m \<longleftrightarrow> mx_rows m = mx_cols m"

definition same_size :: "Matrix \<Rightarrow> Matrix \<Rightarrow> bool" where
  "same_size a b \<longleftrightarrow> mx_rows a = mx_rows b \<and> mx_cols a = mx_cols b"

text \<open>Loops over \<open>0..self.n\<close> with checked indexing into both vectors.\<close>

definition update_with :: "(u32 \<Rightarrow> u32 \<Rightarrow> u32) \<Rightarrow> Matrix \<Rightarrow> Matrix \<Rightarrow> frodo_error + Matrix" where
  "update_with f a b =
     (if mx_n a > length (mx_elements a) \<or> mx_n a > length (mx_elements b) then Inl Panic
      else Inr (a\<lparr>mx_elements := foldl (\<lambda>es i. es[i := f (es ! i) (mx_elements b ! i)]) (mx_elements a) [0..<mx_n a]\<rparr>))"

definition matrix_add :: "Matrix \<Rightarrow> Matrix \<Rightarrow> frodo_error + Matrix" where
  "matrix_add a b = (if same_size a b then update_with (+) a b else Inl Panic)"

definition matrix_sub :: "Matrix \<Rightarrow> Matrix \<Rightarrow> frodo_error + Matrix" where
  "matrix_sub a b = (if same_size a b then update_with (-) a b else Inl Panic)"

definition matrix_equal :: "Matrix \<Rightarrow> Matrix \<Rightarrow> frodo_error + bool" where
  "matrix_equal a b = (if same_size a b then Inr True else Inl Panic)"

definition matrix_transpose :: "Matrix \<Rightarrow> frodo_error + Matrix" where
  "matrix_transpose m =
     with_vector (concat (map (\<lambda>i. map (\<lambda>j. mx_elements m ! (j * mx_cols m + i)) [0..<mx_rows m]) [0..<mx_cols m]))
       (mx_cols m) (mx_rows m)"

definition mult_by_vector :: "Matrix \<Rightarrow> u32 list \<Rightarrow> frodo_error + u32 list" where
  "mult_by_vector m v =
     (if length v \<noteq> mx_cols m
      then Inl (Message ''Vector length must match the number of columns in the matrix'')
      else Inr (map (\<lambda>i. foldl (\<lambda>acc j. acc + mx_elements m ! (i * mx_cols m + j) * v ! j) 0 [0..<mx_cols m])
        [0..<mx_rows m]))"

definition mult_naive :: "Matrix \<Rightarrow> Matrix \<Rightarrow> frodo_error + Matrix" where
  "mult_naive a b =
     (if mx_cols a = mx_rows b
      then with_vector (concat (map (\<lambda>i. map (\<lambda>j.
          foldl (\<lambda>sum k. sum + matrix_at a i k * matrix_at b k j) 0 [0..<mx_cols a]) [0..<mx_cols b]) [0..<mx_rows a]))
        (mx_rows a) (mx_cols b)
      else Inl Panic)"

definition mult_transpose :: "Matrix \<Rightarrow> Matrix \<Rightarrow> frodo_error + Matrix" where
  "mult_transpose a b =
     (if mx_cols a \<noteq> mx_rows b then Inl Panic
      else let p = mx_cols a
      in bindR (matrix_transpose b) (\<lambda>t.
         bindR (mapR (\<lambda>i. bindR (slice_range (mx_elements a) (i * p) ((i + 1) * p)) (\<lambda>a_row.
             mapR (\<lambda>j. bindR (slice_range (mx_elements t) (j * p) ((j + 1) * p)) (\<lambda>t_row.
               Inr (foldl (\<lambda>acc (x, y). acc + x * y) 0 (zip a_row t_row)))) [0..<mx_cols b])) [0..<mx_rows a])
           (\<lambda>c. with_vector (concat c) (mx_rows a) (mx_cols b))))"

section \<open>Vectors of vectors\<close>

definition transpose_matrix :: "u32 list list \<Rightarrow> frodo_error + u32 list list" where
  "transpose_matrix matrix = bindR (vec_index matrix 0) (\<lambda>first.
     let width = length first
     in foldl (\<lambda>ret row. bindR ret (\<lambda>ret.
          bindR (mapR (\<lambda>i. bindR (vec_index row i) (\<lambda>x. Inr (ret ! i @ [x]))) [0..<width]) Inr))
        (Inr (replicate width [])) matrix)"

definition get_matrix_second_at :: "u32 list list \<Rightarrow> nat \<Rightarrow> frodo_error + u32 list" where
  "get_matrix_second_at matrix secidx = mapR (\<lambda>y. vec_index y secidx) matrix"

definition generate_lwe_matrix_from_seed :: "(bytes \<Rightarrow> nat \<Rightarrow> u32) \<Rightarrow> bytes \<Rightarrow> nat \<Rightarrow> nat \<Rightarrow> u32 list list" where
  "generate_lwe_matrix_from_seed rng seed width height =
     map (\<lambda>i. map (\<lambda>j. rng seed (i * width + j)) [0..<width]) [0..<height]"

definition vec_mult_u32_u32 :: "u32 list \<Rightarrow> u32 list \<Rightarrow> frodo_error + u32" where
  "vec_mult_u32_u32 row col =
     (if length row \<noteq> length col then Inl ErrorUnexpectedInputSize
      else Inr (foldl (\<lambda>acc i. acc + row ! i * col ! i) 0 [0..<length row]))"

section \<open>Facts about results and loops\<close>

lemma mapR_Inr: "(\<And>x. x \<in> set xs \<Longrightarrow> f x = Inr (g x)) \<Longrightarrow> mapR f xs = Inr (map g xs)"
  by (induction xs) simp_all

lemma bindR_eq_Inr: "bindR r f = Inr y \<longleftrightarrow> (\<exists>x. r = Inr x \<and> f x = Inr y)"
  by (cases r) simp_all

lemma foldl_sum: "foldl (\<lambda>acc j. acc + f j) (0 :: 'a :: comm_monoid_add) [0..<n] = (\<Sum>j<n. f j)"
  by (induction n) simp_all

lemma foldl_zip_products:
  assumes "length xs = n" "length ys = n"
  shows "foldl (\<lambda>acc (x, y). acc + x * y) (0 :: u32) (zip xs ys) = (\<Sum>i<n. xs ! i * ys ! i)"
proof -
  have "zip xs ys = map (\<lambda>i. (xs ! i, ys ! i)) [0..<n]" using assms by (intro nth_equalityI) simp_all
  then have "foldl (\<lambda>acc (x, y). acc + x * y) 0 (zip xs ys) = foldl (\<lambda>acc i. acc + xs ! i * ys ! i) 0 [0..<n]"
    by (simp add: foldl_map)
  then show ?thesis by (simp add: foldl_sum)
qed

definition grid :: "nat \<Rightarrow> nat \<Rightarrow> (nat \<Rightarrow> nat \<Rightarrow> 'a) \<Rightarrow> 'a list" where
  "grid m n f = concat (map (\<lambda>i. map (f i) [0..<n]) [0..<m])"

lemma length_grid [simp]: "length (grid m n f) = m * n"
  by (induction m) (simp_all add: grid_def)

lemma grid_index: "i < m \<Longrightarrow> j < n \<Longrightarrow> i * n + j < m * (n :: nat)"
proof -
  assume "i < m" "j < n"
  then have "i * n + j < Suc i * n" by simp
  also have "\<dots> \<le> m * n" using \<open>i < m\<close> by (intro mult_le_mono1) simp
  finally show ?thesis .
qed

lemma nth_grid: "i < m \<Longrightarrow> j < n \<Longrightarrow> grid m n f ! (i * n + j) = f i j"
proof (induction m)
  case (Suc m)
  have s: "grid (Suc m) n f = grid m n f @ map (f m) [0..<n]" by (simp add: grid_def)
  show ?case
  proof (cases "i < m")
    case True
    then show ?thesis using Suc.IH Suc.prems grid_index [OF True] by (simp add: s nth_append)
  next
    case False
    then have "i = m" using Suc.prems(1) by simp
    then show ?thesis using Suc.prems(2) by (simp add: s nth_append)
  qed
qed simp

lemma grid_cong: "(\<And>i j. i < m \<Longrightarrow> j < n \<Longrightarrow> f i j = g i j) \<Longrightarrow> grid m n f = grid m n g"
  unfolding grid_def by (intro arg_cong [where f = concat] map_cong refl) simp

lemma slice_row:
  assumes "(i + 1) * p \<le> length xs"
  shows "slice_range xs (i * p) ((i + 1) * p) = Inr (map (\<lambda>k. xs ! (i * p + k)) [0..<p])"
proof -
  have "take ((i + 1) * p - i * p) (drop (i * p) xs) = map (\<lambda>k. xs ! (i * p + k)) [0..<p]"
    using assms by (intro nth_equalityI) simp_all
  then show ?thesis using assms by (simp add: slice_range_def)
qed

section \<open>Products\<close>

text \<open>The vector of a matrix may be longer than its size says; only its beginning counts.\<close>

definition wide :: "Matrix \<Rightarrow> bool" where
  "wide m \<longleftrightarrow> 0 < mx_rows m \<and> 0 < mx_cols m \<and> mx_n m = mx_rows m * mx_cols m \<and>
     mx_rows m * mx_cols m \<le> length (mx_elements m)"

text \<open>A matrix given by its entries, with a vector of exactly its size.\<close>

definition matrix_of :: "nat \<Rightarrow> nat \<Rightarrow> (nat \<Rightarrow> nat \<Rightarrow> u32) \<Rightarrow> Matrix" where
  "matrix_of m n f = \<lparr>mx_rows = m, mx_cols = n, mx_n = m * n, mx_elements = grid m n f\<rparr>"

lemma matrix_of_simps [simp]:
  "mx_rows (matrix_of m n f) = m" "mx_cols (matrix_of m n f) = n" "mx_n (matrix_of m n f) = m * n"
  "mx_elements (matrix_of m n f) = grid m n f"
  by (simp_all add: matrix_of_def)

lemma wide_matrix_of [simp]: "0 < m \<Longrightarrow> 0 < n \<Longrightarrow> wide (matrix_of m n f)"
  by (simp add: wide_def)

lemma matrix_at_of [simp]: "i < m \<Longrightarrow> j < n \<Longrightarrow> matrix_at (matrix_of m n f) i j = f i j"
  by (simp add: matrix_at_def nth_grid)

lemma with_vector_grid: "0 < m \<Longrightarrow> 0 < n \<Longrightarrow> with_vector (grid m n f) m n = Inr (matrix_of m n f)"
  by (simp add: with_vector_def matrix_of_def)

lemma matrix_of_cong:
  "(\<And>i j. i < m \<Longrightarrow> j < n \<Longrightarrow> f i j = g i j) \<Longrightarrow> matrix_of m n f = matrix_of m n g"
  using grid_cong [of m n f g] by (simp add: matrix_of_def)

lemma matrix_transpose_eq:
  assumes "wide m"
  shows "matrix_transpose m = Inr (matrix_of (mx_cols m) (mx_rows m) (\<lambda>i j. matrix_at m j i))"
  using assms with_vector_grid [of "mx_cols m" "mx_rows m" "\<lambda>i j. matrix_at m j i"]
  by (simp add: matrix_transpose_def wide_def grid_def matrix_at_def)

definition product :: "Matrix \<Rightarrow> Matrix \<Rightarrow> nat \<Rightarrow> nat \<Rightarrow> u32" where
  "product a b i j = (\<Sum>k<mx_cols a. matrix_at a i k * matrix_at b k j)"

lemma mult_naive_eq:
  assumes "wide a" "wide b" "mx_cols a = mx_rows b"
  shows "mult_naive a b = Inr (matrix_of (mx_rows a) (mx_cols b) (product a b))"
  using assms with_vector_grid [of "mx_rows a" "mx_cols b" "product a b"]
  unfolding mult_naive_def foldl_sum product_def [symmetric] by (simp add: wide_def grid_def)

lemma mult_transpose_eq:
  assumes a: "wide a" and b: "wide b" and p: "mx_cols a = mx_rows b"
  shows "mult_transpose a b = Inr (matrix_of (mx_rows a) (mx_cols b) (product a b))"
proof -
  let ?p = "mx_cols a" and ?t = "matrix_of (mx_cols b) (mx_rows b) (\<lambda>i j. matrix_at b j i)"
  have row: "slice_range (mx_elements a) (i * ?p) ((i + 1) * ?p) = Inr (map (matrix_at a i) [0..<?p])" if "i < mx_rows a" for i
  proof -
    have "(i + 1) * ?p \<le> mx_rows a * ?p" using that by (intro mult_le_mono1) simp
    then have "(i + 1) * ?p \<le> length (mx_elements a)" using a by (simp add: wide_def)
    from slice_row [OF this] show ?thesis by (simp add: matrix_at_def [abs_def])
  qed
  have col: "slice_range (mx_elements ?t) (j * ?p) ((j + 1) * ?p) = Inr (map (\<lambda>k. matrix_at b k j) [0..<?p])" if "j < mx_cols b" for j
  proof -
    have "(j + 1) * ?p \<le> mx_cols b * ?p" using that by (intro mult_le_mono1) simp
    then have "(j + 1) * ?p \<le> length (mx_elements ?t)" using p by simp
    from slice_row [OF this] show ?thesis
      using that p nth_grid [of j "mx_cols b" _ "mx_rows b"] by (auto intro!: map_cong)
  qed
  have dot: "foldl (\<lambda>acc (x, y). acc + x * y) 0 (zip (map (matrix_at a i) [0..<?p]) (map (\<lambda>k. matrix_at b k j) [0..<?p])) =
      product a b i j" for i j
    using foldl_zip_products [of "map (matrix_at a i) [0..<?p]" ?p "map (\<lambda>k. matrix_at b k j) [0..<?p]"]
    by (simp add: product_def)
  have "mapR (\<lambda>i. bindR (slice_range (mx_elements a) (i * ?p) ((i + 1) * ?p)) (\<lambda>a_row.
      mapR (\<lambda>j. bindR (slice_range (mx_elements ?t) (j * ?p) ((j + 1) * ?p)) (\<lambda>t_row.
        Inr (foldl (\<lambda>acc (x, y). acc + x * y) 0 (zip a_row t_row)))) [0..<mx_cols b])) [0..<mx_rows a] =
    Inr (map (\<lambda>i. map (product a b i) [0..<mx_cols b]) [0..<mx_rows a])"
  proof (rule mapR_Inr)
    fix i
    assume "i \<in> set [0..<mx_rows a]"
    then have i: "i < mx_rows a" by simp
    show "bindR (slice_range (mx_elements a) (i * ?p) ((i + 1) * ?p)) (\<lambda>a_row.
      mapR (\<lambda>j. bindR (slice_range (mx_elements ?t) (j * ?p) ((j + 1) * ?p)) (\<lambda>t_row.
        Inr (foldl (\<lambda>acc (x, y). acc + x * y) 0 (zip a_row t_row)))) [0..<mx_cols b]) = Inr (map (product a b i) [0..<mx_cols b])"
      unfolding row [OF i] bindR_simps by (rule mapR_Inr) (simp add: col [simplified] dot)
  qed
  moreover have "with_vector (concat (map (\<lambda>i. map (product a b i) [0..<mx_cols b]) [0..<mx_rows a])) (mx_rows a) (mx_cols b) =
      Inr (matrix_of (mx_rows a) (mx_cols b) (product a b))"
    using a b with_vector_grid [of "mx_rows a" "mx_cols b" "product a b"] by (simp add: grid_def wide_def)
  ultimately show ?thesis
    using p unfolding mult_transpose_def Let_def matrix_transpose_eq [OF b] bindR_simps by simp
qed

section \<open>Bits\<close>

lemma bit_u8: "u8_to_bits_le b = map (bit b) [0..<8]"
proof -
  have "2 ^ i AND b > 0 \<longleftrightarrow> bit b i" if "i < 8" for i
  proof -
    have "2 ^ i AND b > 0 \<longleftrightarrow> (2 ^ i AND b) \<noteq> 0" by (simp add: word_neq_0_conv)
    also have "\<dots> \<longleftrightarrow> bit b i" using that by (simp add: bit_iff_and_push_bit_not_eq_0 and.commute push_bit_eq_mult)
    finally show ?thesis .
  qed
  then show ?thesis by (simp add: u8_to_bits_le_def)
qed

lemma foldl_append: "foldl (@) a xs = a @ concat xs"
  by (induction xs arbitrary: a) simp_all

lemma bytes_to_bits_eq: "bytes_to_bits_le bs = concat (map (\<lambda>b. map (bit b) [0..<8]) bs)"
proof -
  have "u8_to_bits_le = (\<lambda>b. map (bit b) [0..<8])" by (rule ext) (rule bit_u8)
  then show ?thesis by (simp add: bytes_to_bits_le_def foldl_append)
qed

lemma length_bytes_to_bits [simp]: "length (bytes_to_bits_le bs) = 8 * length bs"
  by (induction bs) (simp_all add: bytes_to_bits_eq)

lemma nth_bytes_to_bits: "k < 8 * length bs \<Longrightarrow> bytes_to_bits_le bs ! k \<longleftrightarrow> bit (bs ! (k div 8)) (k mod 8)"
proof (induction bs arbitrary: k)
  case (Cons b bs)
  show ?case
  proof (cases "k < 8")
    case False
    then have "k div 8 = Suc ((k - 8) div 8)" "k mod 8 = (k - 8) mod 8" by (simp_all add: le_div_geq le_mod_geq)
    then show ?thesis using False Cons by (simp add: bytes_to_bits_eq nth_append)
  qed (simp add: bytes_to_bits_eq nth_append)
qed simp

definition set_bits :: "nat \<Rightarrow> bool list \<Rightarrow> bytes" where
  "set_bits m bits =
     foldl (\<lambda>bs (i, b). if b then bs[i div 8 := bs ! (i div 8) + 2 ^ (i mod 8)] else bs) (replicate m 0) (enumerate 0 bits)"

lemma set_bits_snoc:
  "set_bits m (bits @ [b]) = (let bs = set_bits m bits; i = length bits in
     if b then bs[i div 8 := bs ! (i div 8) + 2 ^ (i mod 8)] else bs)"
  by (simp add: set_bits_def Let_def enumerate_append_eq)

lemma length_set_bits [simp]: "length (set_bits m bits) = m"
  by (induction bits rule: rev_induct) (simp_all add: set_bits_snoc Let_def, simp add: set_bits_def)

lemma add_bit:
  assumes "\<not> bit (x :: byte) r" "r < 8"
  shows "bit (x + 2 ^ r) k \<longleftrightarrow> bit x k \<or> k = r"
proof -
  have "x AND 2 ^ r = 0" using assms by (intro bit_eqI) (auto simp: bit_and_iff bit_exp_iff)
  then have "x + 2 ^ r = x OR 2 ^ r" by (simp only: disjunctive_add_eq_or)
  then show ?thesis using assms(2) by (simp only: bit_or_iff bit_exp_iff) auto
qed

lemma bit_set_bits:
  "length bits \<le> 8 * m \<Longrightarrow> q < m \<Longrightarrow> r < 8 \<Longrightarrow>
     bit (set_bits m bits ! q) r \<longleftrightarrow> 8 * q + r < length bits \<and> bits ! (8 * q + r)"
proof (induction bits arbitrary: q r rule: rev_induct)
  case (snoc b bits)
  let ?i = "length bits"
  have i: "?i div 8 < m" using snoc.prems(1) by simp
  have ih: "bit (set_bits m bits ! q) r \<longleftrightarrow> 8 * q + r < ?i \<and> bits ! (8 * q + r)" if "q < m" "r < 8" for q r
    using snoc.IH snoc.prems(1) that by simp
  have "8 * (?i div 8) + ?i mod 8 = ?i" by simp
  then have n: "\<not> bit (set_bits m bits ! (?i div 8)) (?i mod 8)" using ih [OF i, of "?i mod 8"] by simp
  have "(8 * q + r) div 8 = q" "(8 * q + r) mod 8 = r" using snoc.prems(3) by simp_all
  then have pos: "(8 * q + r = ?i) = (q = ?i div 8 \<and> r = ?i mod 8)" by (metis mult_div_mod_eq)
  have rhs: "8 * q + r < length (bits @ [b]) \<and> (bits @ [b]) ! (8 * q + r) \<longleftrightarrow>
      (8 * q + r < ?i \<and> bits ! (8 * q + r)) \<or> (8 * q + r = ?i \<and> b)"
    by (cases "8 * q + r < ?i"; cases "8 * q + r = ?i") (simp_all add: nth_append less_Suc_eq)
  show ?case
  proof (cases "b \<and> q = ?i div 8")
    case True
    then have "set_bits m (bits @ [b]) ! q = set_bits m bits ! (?i div 8) + 2 ^ (?i mod 8)"
      using i by (simp add: set_bits_snoc Let_def)
    then show ?thesis
      unfolding rhs pos ih [OF snoc.prems(2,3), symmetric] using True add_bit [OF n, of r] by simp
  next
    case False
    then have "set_bits m (bits @ [b]) ! q = set_bits m bits ! q"
      by (auto simp: set_bits_snoc Let_def)
    then show ?thesis unfolding rhs pos ih [OF snoc.prems(2,3), symmetric] using False by auto
  qed
qed (simp add: set_bits_def)

lemma bits_to_bytes_set_bits: "bits_to_bytes_le bits = set_bits ((length bits + 7) div 8) bits"
  by (simp add: bits_to_bytes_le_def set_bits_def)

lemma length_bits_to_bytes [simp]: "length (bits_to_bytes_le bits) = (length bits + 7) div 8"
  by (simp add: bits_to_bytes_set_bits)

lemma bit_bits_to_bytes:
  assumes "q < (length bits + 7) div 8" "r < 8"
  shows "bit (bits_to_bytes_le bits ! q) r \<longleftrightarrow> 8 * q + r < length bits \<and> bits ! (8 * q + r)"
  unfolding bits_to_bytes_set_bits using assms by (intro bit_set_bits) simp_all

lemma bits_bytes_roundtrip: "bits_to_bytes_le (bytes_to_bits_le bs) = bs"
proof (rule nth_equalityI)
  fix q
  assume "q < length (bits_to_bytes_le (bytes_to_bits_le bs))"
  then have q: "q < length bs" by simp
  show "bits_to_bytes_le (bytes_to_bits_le bs) ! q = bs ! q"
  proof (rule bit_eqI)
    fix r
    assume "possible_bit TYPE(8 word) r"
    then have r: "r < 8" by simp
    then have "8 * q + r < 8 * length bs" using q by simp
    then show "bit (bits_to_bytes_le (bytes_to_bits_le bs) ! q) r = bit (bs ! q) r"
      using bit_bits_to_bytes [of q "bytes_to_bits_le bs" r] nth_bytes_to_bits [of "8 * q + r" bs] q r by simp
  qed
qed simp

lemma bit_from_le_bytes:
  "bit (from_le_bytes bs) k \<longleftrightarrow> k < 32 \<and> k div 8 < length bs \<and> bit (bs ! (k div 8)) (k mod 8)"
proof (induction bs arbitrary: k)
  case (Cons b bs)
  have "(ucast b :: u32) AND push_bit 8 (from_le_bytes bs) = 0"
    by (rule bit_eqI) (auto simp: bit_simps dest: bit_imp_le_length)
  then have s: "from_le_bytes (b # bs) = ucast b OR push_bit 8 (from_le_bytes bs)"
    by (simp add: from_le_bytes_def disjunctive_add_eq_or)
  show ?case
  proof (cases "k < 8")
    case True
    then show ?thesis by (auto simp: s bit_simps)
  next
    case False
    then have "k div 8 = Suc ((k - 8) div 8)" "k mod 8 = (k - 8) mod 8" by (simp_all add: le_div_geq le_mod_geq)
    then show ?thesis using False Cons [of "k - 8"] by (auto simp: s bit_simps dest: bit_imp_le_length)
  qed
qed (simp add: from_le_bytes_def)

lemma bits_to_u32_le_eq:
  assumes "length bits \<le> 32"
  obtains w where "bits_to_u32_le bits = Inr w" "\<And>k. bit w k \<longleftrightarrow> k < length bits \<and> bits ! k"
proof -
  let ?bs = "bits_to_bytes_le bits" and ?n = "(length bits + 7) div 8"
  let ?w = "from_le_bytes (?bs @ replicate (4 - ?n) 0)"
  have n: "?n \<le> 4" using assms by simp
  have "bits_to_u32_le bits = Inr ?w"
    using n by (simp add: bits_to_u32_le_def Let_def u32_sized_bytes_from_vec_def)
  moreover have "bit ?w k \<longleftrightarrow> k < length bits \<and> bits ! k" for k
  proof (cases "k div 8 < ?n")
    case True
    have "k mod 8 < 8" "8 * (k div 8) + k mod 8 = k" by simp_all
    then have "bit (?bs ! (k div 8)) (k mod 8) \<longleftrightarrow> k < length bits \<and> bits ! k"
      using bit_bits_to_bytes [OF True, of "k mod 8"] by simp
    moreover have "k < length bits \<Longrightarrow> k < 32" using assms by simp
    ultimately show ?thesis using True n by (auto simp: bit_from_le_bytes nth_append)
  next
    case False
    then have "\<not> k < length bits" by simp
    with False show ?thesis by (auto simp: bit_from_le_bytes nth_append)
  qed
  ultimately show thesis by (rule that)
qed

section \<open>Updates\<close>

lemma foldl_update_nth:
  "n \<le> length es \<Longrightarrow> i < length es \<Longrightarrow>
     foldl (\<lambda>es i. es[i := f (es ! i) (bs ! i)]) es [0..<n] ! i = (if i < n then f (es ! i) (bs ! i) else es ! i)"
  "length (foldl (\<lambda>es i. es[i := f (es ! i) (bs ! i)]) es [0..<n]) = length es"
proof -
  show len: "length (foldl (\<lambda>es i. es[i := f (es ! i) (bs ! i)]) es [0..<n]) = length es" for n
    by (induction n) simp_all
  show "n \<le> length es \<Longrightarrow> i < length es \<Longrightarrow>
     foldl (\<lambda>es i. es[i := f (es ! i) (bs ! i)]) es [0..<n] ! i = (if i < n then f (es ! i) (bs ! i) else es ! i)"
    by (induction n arbitrary: i) (auto simp: nth_list_update len less_Suc_eq)
qed

lemma update_with_of:
  assumes b: "wide b" "mx_rows b = m" "mx_cols b = n"
  shows "update_with f (matrix_of m n g) b = Inr (matrix_of m n (\<lambda>i j. f (g i j) (matrix_at b i j)))"
proof -
  let ?es = "foldl (\<lambda>es i. es[i := f (es ! i) (mx_elements b ! i)]) (grid m n g) [0..<m * n]"
  have "?es = grid m n (\<lambda>i j. f (g i j) (matrix_at b i j))"
  proof (rule nth_equalityI)
    fix k
    assume "k < length ?es"
    then have k: "k < m * n" by (simp add: foldl_update_nth(2))
    then have "n \<noteq> 0" by (cases n) simp_all
    then have j: "k mod n < n" and i: "k div n < m" using k by (simp_all add: less_mult_imp_div_less)
    have d: "k div n * n + k mod n = k" by simp
    show "?es ! k = grid m n (\<lambda>i j. f (g i j) (matrix_at b i j)) ! k"
      using foldl_update_nth(1) [of "m * n" "grid m n g" k f "mx_elements b"] k b(3)
        nth_grid [OF i j, of g] nth_grid [OF i j, of "\<lambda>i j. f (g i j) (matrix_at b i j)"]
      by (simp add: d matrix_at_def)
  qed (simp add: foldl_update_nth(2))
  then show ?thesis using b by (simp add: update_with_def wide_def matrix_of_def)
qed

lemma matrix_add_of:
  assumes "wide b" "mx_rows b = m" "mx_cols b = n"
  shows "matrix_add (matrix_of m n g) b = Inr (matrix_of m n (\<lambda>i j. g i j + matrix_at b i j))"
  using update_with_of [OF assms, of "(+)" g] assms(2,3) by (simp add: matrix_add_def same_size_def)

lemma grid_Suc: "grid (Suc m) n f = grid m n f @ map (f m) [0..<n]"
  by (simp add: grid_def)

lemma pop_row_of:
  "pop_row (matrix_of (Suc m) n f) = Inr (Some (map (f m) [0..<n]), matrix_of m n f)"
  by (simp add: pop_row_def matrix_of_def slice_range_def Let_def grid_Suc)

lemma pop_row_empty: "pop_row (matrix_of 0 n f) = Inr (None, matrix_of 0 n f)"
  by (simp add: pop_row_def)

lemma push_pop: "length row = mx_cols m \<Longrightarrow> length (mx_elements m) = mx_rows m * mx_cols m \<Longrightarrow> mx_n m = mx_rows m * mx_cols m \<Longrightarrow>
   bindR (push_row m row) pop_row = Inr (Some row, m)"
  by (simp add: push_row_def pop_row_def slice_range_def Let_def)

lemma mult_by_vector_of:
  assumes "length v = n"
  shows "mult_by_vector (matrix_of m n f) v = Inr (map (\<lambda>i. \<Sum>j<n. f i j * v ! j) [0..<m])"
proof -
  have "foldl (\<lambda>acc j. acc + grid m n f ! (i * n + j) * v ! j) 0 [0..<n] = (\<Sum>j<n. f i j * v ! j)" if "i < m" for i
    unfolding foldl_sum using that by (intro sum.cong refl) (simp add: nth_grid)
  then show ?thesis using assms by (simp add: mult_by_vector_def)
qed

lemma new_from_seed_wide:
  assumes "0 < rows" "0 < cols"
  obtains A where "new_from_seed rng seed rows cols = Inr A" "wide A" "mx_rows A = rows" "mx_cols A = cols"
proof -
  have "length (concat (map (\<lambda>c. map (\<lambda>r. rng seed (c * rows + r)) [0..<rows]) [0..<cols])) = rows * cols"
    using length_grid [of cols rows "\<lambda>c r. rng seed (c * rows + r)"] by (simp only: grid_def mult.commute)
  then show thesis using that assms by (simp add: new_from_seed_def with_vector_def wide_def)
qed

end
