(* ===== verification/Frodo_PIR.thy ===== *)
theory Frodo_PIR
  imports Frodo_Matrix
begin

text \<open>
  Private information retrieval of tutorials/frodo-pir-fast (pir/src): the offline phases of server and
  client (offline.rs), queries and responses (online.rs), sampling and formats (utils.rs), and the run of
  main.rs.  The operating system's generator is a stream \<open>os :: nat \<Rightarrow> u32\<close> with a position that is
  threaded through the draws.
\<close>

section \<open>Scaling\<close>

definition MODULUS :: nat where
  "MODULUS = 2 ^ 32 - 1 + 1"

definition get_plaintext_size :: "nat \<Rightarrow> frodo_error + u32" where
  "get_plaintext_size plaintext_bits =
     (if plaintext_bits mod 2 ^ 32 < 32 then Inr (2 ^ (plaintext_bits mod 2 ^ 32)) else Inl Panic)"

definition get_rounding_factor :: "nat \<Rightarrow> frodo_error + u32" where
  "get_rounding_factor plaintext_bits =
     bindR (get_plaintext_size plaintext_bits) (\<lambda>p. Inr (word_of_nat (MODULUS div unat p)))"

definition get_rounding_floor :: "nat \<Rightarrow> frodo_error + u32" where
  "get_rounding_floor plaintext_bits = bindR (get_rounding_factor plaintext_bits) (\<lambda>f. Inr (f div 2))"

section \<open>Ternary noise\<close>

definition TERNARY_INTERVAL_SIZE :: u32 where
  "TERNARY_INTERVAL_SIZE = (- 1 - 2) div 3"

definition TERNARY_REJECTION_SAMPLING_MAX :: u32 where
  "TERNARY_REJECTION_SAMPLING_MAX = TERNARY_INTERVAL_SIZE * 3"

definition ternary_value :: "u32 \<Rightarrow> u32" where
  "ternary_value v =
     (if v \<le> TERNARY_INTERVAL_SIZE then 0 else if v \<le> TERNARY_INTERVAL_SIZE * 2 then 1 else - 1)"

partial_function (option) random_ternary :: "(nat \<Rightarrow> u32) \<Rightarrow> nat \<Rightarrow> (u32 \<times> nat) option" where
  "random_ternary os i =
     (if os i \<le> TERNARY_REJECTION_SAMPLING_MAX then Some (ternary_value (os i), Suc i)
      else random_ternary os (Suc i))"

fun random_ternary_vector :: "(nat \<Rightarrow> u32) \<Rightarrow> nat \<Rightarrow> nat \<Rightarrow> (u32 list \<times> nat) option" where
  "random_ternary_vector os 0 i = Some ([], i)"
| "random_ternary_vector os (Suc width) i = do {
     (x, i) \<leftarrow> random_ternary os i;
     (xs, i) \<leftarrow> random_ternary_vector os width i;
     Some (x # xs, i) }"

text \<open>The vectors of the queries, one after the other, appended to \<open>acc\<close>.\<close>

fun extend_ternary :: "(nat \<Rightarrow> u32) \<Rightarrow> nat \<Rightarrow> nat \<Rightarrow> u32 list \<Rightarrow> nat \<Rightarrow> (u32 list \<times> nat) option" where
  "extend_ternary os 0 width acc i = Some (acc, i)"
| "extend_ternary os (Suc queries) width acc i = do {
     (xs, i) \<leftarrow> random_ternary_vector os width i;
     extend_ternary os queries width (acc @ xs) i }"

section \<open>Formats\<close>

definition u32_to_bits_le :: "u32 \<Rightarrow> nat \<Rightarrow> frodo_error + bool list" where
  "u32_to_bits_le x bit_len = slice_range (foldl (\<lambda>bits b. bits @ u8_to_bits_le b) [] (to_le_bytes x)) 0 bit_len"

definition bytes_from_u32_slice :: "u32 list \<Rightarrow> nat \<Rightarrow> nat \<Rightarrow> frodo_error + bytes" where
  "bytes_from_u32_slice v entry_bit_len total_bit_len =
     (if entry_bit_len = 0 then Inl Panic
      else let remainder = total_bit_len mod entry_bit_len
      in bindR (mapR (\<lambda>i. if i \<noteq> length v - 1 then u32_to_bits_le (v ! i) entry_bit_len
                          else u32_to_bits_le (v ! i) remainder) [0..<length v])
         (\<lambda>bits. Inr (bits_to_bytes_le (concat bits))))"

definition base64_from_u32_slice :: "(bytes \<Rightarrow> string) \<Rightarrow> u32 list \<Rightarrow> nat \<Rightarrow> nat \<Rightarrow> frodo_error + string" where
  "base64_from_u32_slice encode v entry_bit_len total_bit_len =
     bindR (bytes_from_u32_slice v entry_bit_len total_bit_len) (\<lambda>bs. Inr (encode bs))"

section \<open>Offline phase\<close>

record BaseParams =
  bp_dim :: nat
  bp_m :: nat
  bp_elem_size :: nat
  bp_plaintext_bits :: nat
  bp_public_seed :: bytes
  bp_A :: Matrix
  bp_H :: Matrix
  bp_db :: Matrix
  bp_trans_db :: Matrix

definition BaseParams_new ::
  "(bytes \<Rightarrow> nat \<Rightarrow> u32) \<Rightarrow> bytes \<Rightarrow> Matrix \<Rightarrow> nat \<Rightarrow> nat \<Rightarrow> nat \<Rightarrow> nat \<Rightarrow> frodo_error + BaseParams" where
  "BaseParams_new rng public_seed db m elem_size plaintext_bits dim =
     bindR (new_from_seed rng public_seed dim m) (\<lambda>A.
     bindR (mult_transpose A db) (\<lambda>H.
     bindR (matrix_transpose db) (\<lambda>trans_db.
     Inr \<lparr>bp_dim = dim, bp_m = m, bp_elem_size = elem_size, bp_plaintext_bits = plaintext_bits,
          bp_public_seed = public_seed, bp_A = A, bp_H = H, bp_db = db, bp_trans_db = trans_db\<rparr>)))"

record ClientParams =
  cp_dim :: nat
  cp_m :: nat
  cp_plaintext_bits :: nat
  cp_db_w :: nat
  cp_B :: Matrix
  cp_C :: Matrix

text \<open>\<open>None\<close> when the sampling of the noise does not end.\<close>

definition ClientParams_new ::
  "(bytes \<Rightarrow> nat \<Rightarrow> u32) \<Rightarrow> (nat \<Rightarrow> u32) \<Rightarrow> nat \<Rightarrow> nat \<Rightarrow> nat \<Rightarrow> nat \<Rightarrow> bytes \<Rightarrow> Matrix \<Rightarrow> nat \<Rightarrow>
     (frodo_error + ClientParams) option" where
  "ClientParams_new rng os m dim plaintext_bits db_w public_seed H queries =
     (if queries \<ge> 2 ^ 52 then Some (Inl (Message ''Queries must be less than 2^52''))
      else case new_from_seed rng public_seed dim m of
        Inl e \<Rightarrow> Some (Inl e)
      | Inr A \<Rightarrow> do {
          (s_vec, i) \<leftarrow> extend_ternary os queries dim (replicate (queries * dim) 0) 0;
          (e_vec, i) \<leftarrow> extend_ternary os queries m (replicate (queries * m) 0) i;
          Some (bindR (with_vector s_vec queries dim) (\<lambda>S.
            bindR (with_vector e_vec queries m) (\<lambda>E.
            bindR (mult_transpose S A) (\<lambda>B.
            bindR (matrix_add B E) (\<lambda>B.
            bindR (mult_transpose S H) (\<lambda>C.
            Inr \<lparr>cp_dim = dim, cp_m = m, cp_plaintext_bits = plaintext_bits, cp_db_w = db_w, cp_B = B, cp_C = C\<rparr>)))))) })"

section \<open>Online phase\<close>

record Query =
  q_b :: "u32 list"
  q_c :: "u32 list"

text \<open>The client parameters lose a row of each matrix as soon as both are popped, whatever the outcome.\<close>

definition Query_create :: "ClientParams \<Rightarrow> nat \<Rightarrow> (frodo_error + Query) \<times> ClientParams" where
  "Query_create cp row_index =
     (if is_empty (cp_B cp) \<or> is_empty (cp_C cp) then (Inl ErrorQueryParamsReused, cp)
      else case pop_row (cp_B cp) of
        Inl e \<Rightarrow> (Inl e, cp)
      | Inr (b, B) \<Rightarrow> (case pop_row (cp_C cp) of
          Inl e \<Rightarrow> (Inl e, cp\<lparr>cp_B := B\<rparr>)
        | Inr (c, C) \<Rightarrow>
            (bindR (get_rounding_factor (cp_plaintext_bits cp)) (\<lambda>query_indicator.
               case b of
                 None \<Rightarrow> Inl ErrorOverflownAdd
               | Some b_row \<Rightarrow>
                   if row_index < length b_row
                   then if unat (b_row ! row_index) + unat query_indicator < 2 ^ 32
                        then case c of
                          None \<Rightarrow> Inl ErrorOverflownAdd
                        | Some c_row \<Rightarrow>
                            Inr \<lparr>q_b = b_row[row_index := b_row ! row_index + query_indicator], q_c = c_row\<rparr>
                        else Inl ErrorOverflownAdd
                   else Inl ErrorOverflownAdd),
             cp\<lparr>cp_B := B, cp_C := C\<rparr>)))"

definition Response_create :: "BaseParams \<Rightarrow> Query \<Rightarrow> frodo_error + u32 list" where
  "Response_create bp q =
     (case mult_by_vector (bp_trans_db bp) (q_b q) of Inl e \<Rightarrow> Inl Panic | Inr resp \<Rightarrow> Inr resp)"

definition parse_entry :: "u32 \<Rightarrow> u32 \<Rightarrow> u32 \<Rightarrow> u32 \<Rightarrow> frodo_error + u32" where
  "parse_entry rounding_factor rounding_floor plaintext_size unscaled_res =
     (if rounding_factor = 0 then Inl Panic
      else let scaled_res = unscaled_res div rounding_factor; scaled_rem = unscaled_res mod rounding_factor
      in if scaled_rem > rounding_floor
         then if scaled_res = - 1 then Inl Panic else Inr ((scaled_res + 1) mod plaintext_size)
         else Inr (scaled_res mod plaintext_size))"

definition parse_response :: "Query \<Rightarrow> ClientParams \<Rightarrow> u32 list \<Rightarrow> frodo_error + u32 list" where
  "parse_response q cp response =
     bindR (get_rounding_factor (cp_plaintext_bits cp)) (\<lambda>rounding_factor.
     bindR (get_rounding_floor (cp_plaintext_bits cp)) (\<lambda>rounding_floor.
     bindR (get_plaintext_size (cp_plaintext_bits cp)) (\<lambda>plaintext_size.
       mapR (\<lambda>i. bindR (vec_index response i) (\<lambda>r. bindR (vec_index (q_c q) i) (\<lambda>c.
         parse_entry rounding_factor rounding_floor plaintext_size (r - c)))) [0..<cp_db_w cp])))"

text \<open>One retrieval, as main does it: set up both sides, query one row, answer, parse and
  encode the string (main computes it and does not print it).\<close>

definition frodo_run ::
  "(string \<Rightarrow> bytes option) \<Rightarrow> (bytes \<Rightarrow> string) \<Rightarrow> (bytes \<Rightarrow> nat \<Rightarrow> u32) \<Rightarrow> (nat \<Rightarrow> u32) \<Rightarrow> bytes \<Rightarrow>
     string list \<Rightarrow> nat \<Rightarrow> nat \<Rightarrow> nat \<Rightarrow> nat \<Rightarrow> nat \<Rightarrow> (frodo_error + string) option" where
  "frodo_run decode encode rng os seed db_elems m elem_size plaintext_bits lwe_dim row_index =
     (case new_from_vals decode db_elems m elem_size plaintext_bits of
        Inl e \<Rightarrow> Some (Inl Panic)
      | Inr db \<Rightarrow>
          (case BaseParams_new rng seed db m elem_size plaintext_bits lwe_dim of
             Inl e \<Rightarrow> Some (Inl e)
           | Inr bp \<Rightarrow> do {
               r \<leftarrow> ClientParams_new rng os m lwe_dim plaintext_bits (mx_cols db) (bp_public_seed bp) (bp_H bp) 1;
               Some (case r of
                   Inl e \<Rightarrow> Inl Panic
                 | Inr cp \<Rightarrow>
                     (case Query_create cp row_index of
                        (Inl e, cp) \<Rightarrow> Inl Panic
                      | (Inr query, cp) \<Rightarrow>
                          bindR (Response_create bp query) (\<lambda>response.
                          bindR (parse_response query cp response) (\<lambda>val.
                          base64_from_u32_slice encode val plaintext_bits elem_size)))) }))"

text \<open>The database of main: \<open>fill i\<close> are the random bytes of the \<open>i\<close>-th element.\<close>

definition generate_db_elems :: "(bytes \<Rightarrow> string) \<Rightarrow> (nat \<Rightarrow> nat \<Rightarrow> byte) \<Rightarrow> nat \<Rightarrow> nat \<Rightarrow> string list" where
  "generate_db_elems encode fill num_elems elem_byte_len =
     map (\<lambda>i. encode (map (fill i) [0..<elem_byte_len])) [0..<num_elems]"

definition frodo_main ::
  "(string \<Rightarrow> bytes option) \<Rightarrow> (bytes \<Rightarrow> string) \<Rightarrow> (bytes \<Rightarrow> nat \<Rightarrow> u32) \<Rightarrow> (nat \<Rightarrow> u32) \<Rightarrow> bytes \<Rightarrow>
     (nat \<Rightarrow> nat \<Rightarrow> byte) \<Rightarrow> (frodo_error + string) option" where
  "frodo_main decode encode rng os seed fill =
     (let m = 2 ^ 12; elem_size = 2 ^ 8; plaintext_bits = 12; lwe_dim = 512;
          db_elems = generate_db_elems encode fill m ((elem_size + 7) div 8)
      in frodo_run decode encode rng os seed db_elems m elem_size plaintext_bits lwe_dim 0)"

section \<open>Sampling\<close>

text \<open>Sampling ends when the generator keeps on producing acceptable words.\<close>

definition accepting :: "(nat \<Rightarrow> u32) \<Rightarrow> bool" where
  "accepting os \<longleftrightarrow> (\<forall>i. \<exists>j \<ge> i. os j \<le> TERNARY_REJECTION_SAMPLING_MAX)"

lemma random_ternary_first:
  assumes "os (i + d) \<le> TERNARY_REJECTION_SAMPLING_MAX"
  shows "\<exists>x j. random_ternary os i = Some (x, j) \<and> x \<in> {0, 1, - 1}"
  using assms
proof (induction d arbitrary: i)
  case 0
  then show ?case by (subst random_ternary.simps) (simp add: ternary_value_def)
next
  case (Suc d)
  show ?case
  proof (cases "os i \<le> TERNARY_REJECTION_SAMPLING_MAX")
    case True
    then show ?thesis by (subst random_ternary.simps) (simp add: ternary_value_def)
  next
    case False
    then show ?thesis using Suc.IH [of "Suc i"] Suc.prems by (subst random_ternary.simps) simp
  qed
qed

lemma random_ternary_ends:
  assumes "accepting os"
  obtains x j where "random_ternary os i = Some (x, j)" "x \<in> {0, 1, - 1}"
proof -
  obtain j where "i \<le> j" "os j \<le> TERNARY_REJECTION_SAMPLING_MAX" using assms by (auto simp: accepting_def)
  then have "os (i + (j - i)) \<le> TERNARY_REJECTION_SAMPLING_MAX" by simp
  from random_ternary_first [of os i "j - i", OF this] show thesis using that by blast
qed

lemma random_ternary_vector_ends:
  assumes "accepting os"
  shows "\<exists>xs j. random_ternary_vector os width i = Some (xs, j) \<and> length xs = width \<and> set xs \<subseteq> {0, 1, - 1}"
proof (induction width arbitrary: i)
  case (Suc width)
  obtain x j where x: "random_ternary os i = Some (x, j)" "x \<in> {0, 1, - 1}"
    using random_ternary_ends [OF assms] by blast
  obtain xs k where "random_ternary_vector os width j = Some (xs, k)" "length xs = width" "set xs \<subseteq> {0, 1, - 1}"
    using Suc.IH by blast
  with x show ?case by simp
qed simp

lemma extend_ternary_ends:
  assumes "accepting os"
  shows "\<exists>xs j. extend_ternary os queries width acc i = Some (acc @ xs, j) \<and> length xs = queries * width"
proof (induction queries arbitrary: acc i)
  case (Suc queries)
  obtain xs j where xs: "random_ternary_vector os width i = Some (xs, j)" "length xs = width"
    using random_ternary_vector_ends [OF assms] by blast
  obtain ys k where "extend_ternary os queries width (acc @ xs) j = Some ((acc @ xs) @ ys, k)" "length ys = queries * width"
    using Suc.IH by blast
  with xs show ?case by (intro exI [of _ "xs @ ys"] exI [of _ k]) simp
qed simp

text \<open>How many words are mapped to each value: zero gets one more than the others.\<close>

lemma ternary_interval: "unat TERNARY_INTERVAL_SIZE = 1431655764"
  by (simp add: TERNARY_INTERVAL_SIZE_def)

lemma ternary_max: "unat TERNARY_REJECTION_SAMPLING_MAX = 3 * 1431655764"
  by (simp add: TERNARY_REJECTION_SAMPLING_MAX_def TERNARY_INTERVAL_SIZE_def)

section \<open>Client parameters\<close>

text \<open>The vectors of secrets and noise begin with zeros, and only those are used.\<close>

lemma zero_rows:
  assumes "with_vector (replicate (r * c) 0 @ xs) r c = Inr M"
  shows "wide M" "mx_rows M = r" "mx_cols M = c" "\<And>i j. i < r \<Longrightarrow> j < c \<Longrightarrow> matrix_at M i j = 0"
proof -
  show "wide M" "mx_rows M = r" "mx_cols M = c"
    using assms by (auto simp: with_vector_def wide_def split: if_splits)
  fix i j
  assume "i < r" "j < c"
  then show "matrix_at M i j = 0"
    using assms grid_index [of i r j c]
    by (auto simp: with_vector_def matrix_at_def nth_append split: if_splits)
qed

lemma ClientParams_new_zero:
  assumes os: "accepting os" and sizes: "0 < queries" "queries < 2 ^ 52" "0 < dim" "0 < m"
    and H: "wide H" "mx_rows H = dim"
  shows "ClientParams_new rng os m dim pb db_w seed H queries =
     Some (Inr \<lparr>cp_dim = dim, cp_m = m, cp_plaintext_bits = pb, cp_db_w = db_w,
       cp_B = matrix_of queries m (\<lambda>i j. 0), cp_C = matrix_of queries (mx_cols H) (\<lambda>i j. 0)\<rparr>)"
proof -
  obtain A where A: "new_from_seed rng seed dim m = Inr A" "wide A" "mx_rows A = dim" "mx_cols A = m"
    using sizes by (auto intro: new_from_seed_wide)
  obtain s i where s: "extend_ternary os queries dim (replicate (queries * dim) 0) 0 = Some (replicate (queries * dim) 0 @ s, i)"
    using extend_ternary_ends [OF os] by blast
  obtain e j where e: "extend_ternary os queries m (replicate (queries * m) 0) i = Some (replicate (queries * m) 0 @ e, j)"
    using extend_ternary_ends [OF os] by blast
  obtain S where S: "with_vector (replicate (queries * dim) 0 @ s) queries dim = Inr S"
    using sizes by (simp add: with_vector_def)
  obtain E where E: "with_vector (replicate (queries * m) 0 @ e) queries m = Inr E"
    using sizes by (simp add: with_vector_def)
  note zs = zero_rows [OF S] and ze = zero_rows [OF E]
  have p0: "product S M i j = 0" if "i < queries" for M i j
    using that zs by (simp add: product_def)
  have "mult_transpose S A = Inr (matrix_of queries m (\<lambda>i j. 0))"
    using mult_transpose_eq [of S A] zs A p0 matrix_of_cong [of queries m "product S A" "\<lambda>i j. 0"] by simp
  moreover have "mult_transpose S H = Inr (matrix_of queries (mx_cols H) (\<lambda>i j. 0))"
    using mult_transpose_eq [of S H] zs H p0 matrix_of_cong [of queries "mx_cols H" "product S H" "\<lambda>i j. 0"] by simp
  moreover have "matrix_add (matrix_of queries m (\<lambda>i j. 0)) E = Inr (matrix_of queries m (\<lambda>i j. 0))"
    using matrix_add_of [of E queries m "\<lambda>i j. 0"] ze
      matrix_of_cong [of queries m "matrix_at E" "\<lambda>i j. 0"] by simp
  ultimately show ?thesis
    using sizes unfolding ClientParams_new_def A(1) s e S E sum.case bindR_simps bind.bind_lunit prod.case by simp
qed

section \<open>Rounding\<close>

lemma unat_2_power: "k < 32 \<Longrightarrow> unat (2 ^ k :: u32) = 2 ^ k"
proof -
  assume k: "k < 32"
  have "(2 ^ k :: u32) = word_of_nat (2 ^ k)" by simp
  then have "unat (2 ^ k :: u32) = 2 ^ k mod 2 ^ 32" by (simp only: unsigned_of_nat take_bit_eq_mod) simp
  moreover have "(2 :: nat) ^ k < 2 ^ 32" using k by (intro power_strict_increasing) simp_all
  ultimately show ?thesis by simp
qed

lemma scaling:
  assumes "0 < pb" "pb < 32"
  shows "get_plaintext_size pb = Inr (2 ^ pb)" "get_rounding_factor pb = Inr (2 ^ (32 - pb))"
    "get_rounding_floor pb = Inr (2 ^ (31 - pb))"
proof -
  have p: "pb mod 2 ^ 32 = pb" using assms by simp
  then show size: "get_plaintext_size pb = Inr (2 ^ pb)" using assms by (simp add: get_plaintext_size_def)
  have "(2 :: nat) ^ 32 div 2 ^ pb = 2 ^ (32 - pb)" using assms by (simp add: power_diff)
  moreover have "MODULUS = 2 ^ 32" by (simp add: MODULUS_def)
  ultimately show factor: "get_rounding_factor pb = Inr (2 ^ (32 - pb))"
    using assms by (simp add: get_rounding_factor_def size unat_2_power)
  have e: "32 - pb = Suc (31 - pb)" using assms by simp
  have "unat (2 ^ (32 - pb) div 2 :: u32) = 2 ^ (32 - pb) div 2"
    using assms unat_2_power [of "32 - pb"] by (simp add: unat_div)
  also have "\<dots> = unat (2 ^ (31 - pb) :: u32)" using assms unat_2_power [of "31 - pb"] by (simp add: e)
  finally have "2 ^ (32 - pb) div 2 = (2 ^ (31 - pb) :: u32)" by (simp only: word_unat_eq_iff)
  then show "get_rounding_floor pb = Inr (2 ^ (31 - pb))"
    by (simp add: get_rounding_floor_def factor)
qed

lemma unat_imp_word: "unat x = n \<Longrightarrow> x = (word_of_nat n :: u32)"
proof -
  assume "unat x = n"
  then have "word_of_nat (unat x) = (word_of_nat n :: u32)" by simp
  then show ?thesis by simp
qed

lemma parse_entry_nat:
  assumes pb: "0 < pb" "pb < 32" and u: "unat u = 2 ^ (32 - pb) * a + r" and r: "r < 2 ^ (32 - pb)"
  shows "parse_entry (2 ^ (32 - pb)) (2 ^ (31 - pb)) (2 ^ pb) u =
     Inr (word_of_nat ((if r > 2 ^ (31 - pb) then a + 1 else a) mod 2 ^ pb))"
proof -
  let ?F = "2 ^ (32 - pb) :: u32"
  have F: "unat ?F = 2 ^ (32 - pb)" "unat (2 ^ pb :: u32) = 2 ^ pb" "unat (2 ^ (31 - pb) :: u32) = 2 ^ (31 - pb)"
    using pb by (simp_all add: unat_2_power)
  then have F0: "?F \<noteq> 0" by (metis power_eq_0_iff unat_0 zero_neq_numeral)
  have d: "unat (u div ?F) = a" and m: "unat (u mod ?F) = r"
    using r by (simp_all add: unat_div unat_mod F(1) u)
  have "2 ^ (32 - pb) * a < 2 ^ (32 - pb) * 2 ^ pb"
    using u unsigned_less [where w = u and 'a = nat] pb by (simp flip: power_add)
  then have "a < 2 ^ pb" by simp
  also have "(2 :: nat) ^ pb \<le> 2 ^ 31" using pb by (intro power_increasing) simp_all
  finally have a: "a < 2 ^ 31" .
  have n: "u div ?F \<noteq> - 1"
  proof
    assume "u div ?F = - 1"
    then have "a = unat (- 1 :: u32)" using d by simp
    then show False using a by (simp add: unsigned_minus_1_eq_mask mask_eq_exp_minus_1)
  qed
  have s: "unat (u div ?F + 1) = a + 1" using d a by (simp add: unat_word_ariths)
  have "(u div ?F) mod 2 ^ pb = word_of_nat (a mod 2 ^ pb)" "(u div ?F + 1) mod 2 ^ pb = word_of_nat ((a + 1) mod 2 ^ pb)"
    using unat_mod [of "u div ?F" "2 ^ pb"] unat_mod [of "u div ?F + 1" "2 ^ pb"]
    unfolding d s F(2) by (simp_all only: unat_imp_word)
  moreover have "u mod ?F > 2 ^ (31 - pb) \<longleftrightarrow> r > 2 ^ (31 - pb)" by (simp add: word_less_nat_alt m F(3))
  ultimately show ?thesis using F0 n by (simp add: parse_entry_def Let_def)
qed

lemma parse_entry_noise:
  assumes pb: "0 < pb" "pb < 32" and v: "- (2 ^ (31 - pb)) < v" "v \<le> 2 ^ (31 - pb)"
  shows "parse_entry (2 ^ (32 - pb)) (2 ^ (31 - pb)) (2 ^ pb) (2 ^ (32 - pb) * d + word_of_int v) = Inr (d mod 2 ^ pb)"
proof -
  define F where "F = (2 :: int) ^ (32 - pb)"
  define P where "P = (2 :: int) ^ pb"
  define h where "h = (2 :: int) ^ (31 - pb)"
  have FP: "F * P = 2 ^ 32" using pb by (simp add: F_def P_def flip: power_add)
  have "32 - pb = Suc (31 - pb)" using pb by simp
  then have Fh: "F = 2 * h" by (simp add: F_def h_def)
  have h1: "1 \<le> h" by (simp add: h_def)
  let ?u = "2 ^ (32 - pb) * d + word_of_int v :: u32"
  define e where "e = int (unat d) mod P"
  have e: "0 \<le> e" "e < P" by (simp_all add: e_def P_def)
  have "(F * int (unat d) + v) mod 2 ^ 32 = (F * e + v + 2 ^ 32 * (int (unat d) div P)) mod 2 ^ 32"
    using mult_div_mod_eq [of P "int (unat d)"] FP unfolding e_def by (metis (no_types, lifting) add.assoc add.commute distrib_left mult.assoc)
  then have z: "(F * int (unat d) + v) mod 2 ^ 32 = (F * e + v) mod 2 ^ 32" by (simp only: mod_mult_self2)
  have w: "?u = word_of_int (F * int (unat d) + v)" by (simp add: F_def)
  have "int (unat (word_of_int y :: u32)) = y mod 2 ^ 32" for y by (simp add: unsigned_of_int take_bit_eq_mod)
  then have u: "int (unat ?u) = (F * e + v) mod 2 ^ 32" unfolding w using z by metis
  obtain a r where ar: "(F * e + v) mod 2 ^ 32 = F * a + r" "0 \<le> a" "0 \<le> r" "r < F"
    and res: "(if r > h then a + 1 else a) mod P = e"
  proof (cases "0 \<le> v")
    case True
    have "F * e \<le> F * (P - 1)" using e h1 Fh by (intro mult_left_mono) simp_all
    then have "F * e \<le> 2 ^ 32 - F" unfolding right_diff_distrib FP by simp
    then have "F * e + v < 2 ^ 32" using v(2) [folded h_def] Fh h1 by linarith
    moreover have "0 \<le> F * e" using e h1 Fh by simp
    ultimately have "(F * e + v) mod 2 ^ 32 = F * e + v" using True by (intro mod_pos_pos_trivial) simp_all
    then show thesis using that [of e v] True v(2) e Fh h1 by (simp add: h_def [symmetric])
  next
    case False
    define a where "a = (if e = 0 then P - 1 else e - 1)"
    have P2: "2 \<le> P" using pb by (simp add: P_def) (metis power_increasing one_le_numeral power_one_right Suc_leI One_nat_def)
    have a: "0 \<le> a" "a \<le> P - 1" using e P2 by (simp_all add: a_def)
    then have "F * a \<le> F * (P - 1)" and Fa: "0 \<le> F * a" using h1 Fh by (simp_all add: mult_left_mono)
    then have "F * a \<le> 2 ^ 32 - F" unfolding right_diff_distrib FP by simp
    with Fa have b: "0 \<le> F * a + (F + v)" "F * a + (F + v) < 2 ^ 32"
      using False v(1) [folded h_def] Fh h1 by linarith+
    have "(F * e + v) mod 2 ^ 32 = (F * a + (F + v)) mod 2 ^ 32"
    proof (cases "e = 0")
      case True
      then have "F * a + (F + v) = v + 2 ^ 32 * 1" using FP by (simp add: a_def right_diff_distrib)
      then show ?thesis using True by (simp only: mod_mult_self2) simp
    next
      case False
      then have "F * a + (F + v) = F * e + v" by (simp add: a_def right_diff_distrib)
      then show ?thesis by (simp only:)
    qed
    then have "(F * e + v) mod 2 ^ 32 = F * a + (F + v)" using b by simp
    moreover have "(a + 1) mod P = e" using e by (simp add: a_def)
    ultimately show thesis
      using that [of a "F + v"] a(1) v(1) False Fh h1 by (simp add: h_def [symmetric])
  qed
  have nat: "unat ?u = 2 ^ (32 - pb) * nat a + nat r"
  proof -
    have "int (unat ?u) = int (2 ^ (32 - pb) * nat a + nat r)" using u ar by (simp add: F_def)
    then show ?thesis by (simp only: of_nat_eq_iff)
  qed
  have "nat r < 2 ^ (32 - pb)" using ar(3,4) by (simp add: F_def nat_less_iff)
  from parse_entry_nat [OF pb nat this]
  have "parse_entry (2 ^ (32 - pb)) (2 ^ (31 - pb)) (2 ^ pb) ?u =
      Inr (word_of_nat ((if nat r > 2 ^ (31 - pb) then nat a + 1 else nat a) mod 2 ^ pb))" .
  moreover have "int ((if nat r > 2 ^ (31 - pb) then nat a + 1 else nat a) mod 2 ^ pb) = e"
  proof -
    have "nat r > 2 ^ (31 - pb) \<longleftrightarrow> r > h" using ar(3) by (simp add: h_def zless_nat_eq_int_zless)
    then show ?thesis using res ar(2) by (auto simp: P_def zmod_int add.commute split: if_splits)
  qed
  moreover have "d mod 2 ^ pb = word_of_nat (unat d mod 2 ^ pb)"
    using pb unat_mod [of d "2 ^ pb"] by (intro unat_imp_word) (simp add: unat_2_power)
  moreover have "int (unat d mod 2 ^ pb) = e" by (simp add: e_def P_def zmod_int)
  ultimately show ?thesis by (metis of_nat_eq_iff)
qed

section \<open>Retrieval\<close>

lemma sum_indicator:
  assumes "i < (m :: nat)"
  shows "(\<Sum>k<m. (f k + (if k = i then d else 0)) * g k) = (\<Sum>k<m. f k * g k) + d * (g i :: u32)"
proof -
  have "(\<Sum>k<m. (f k + (if k = i then d else 0)) * g k) = (\<Sum>k<m. f k * g k) + (\<Sum>k<m. (if k = i then d * g k else 0))"
    unfolding sum.distrib [symmetric] by (intro sum.cong refl) (simp add: distrib_right)
  also have "(\<Sum>k<m. (if k = i then d * g k else 0)) = d * g i" using assms by (simp add: sum.delta)
  finally show ?thesis .
qed

text \<open>What the secrets and the noise contribute: the secret cancels.\<close>

lemma lwe_cancel:
  fixes s :: "nat \<Rightarrow> u32"
  shows "(\<Sum>k<m. ((\<Sum>t<dim. s t * A t k) + e k) * D k) - (\<Sum>t<dim. s t * (\<Sum>k<m. A t k * D k)) = (\<Sum>k<m. e k * D k)"
proof -
  have "(\<Sum>t<dim. s t * (\<Sum>k<m. A t k * D k)) = (\<Sum>t<dim. \<Sum>k<m. s t * A t k * D k)"
    by (simp add: sum_distrib_left mult.assoc)
  also have "\<dots> = (\<Sum>k<m. (\<Sum>t<dim. s t * A t k) * D k)"
    by (subst sum.swap) (simp add: sum_distrib_right)
  finally show ?thesis by (simp add: distrib_right sum.distrib)
qed

text \<open>Parameters as the protocol asks for them: the rows of \<open>B\<close> are LWE samples of the rows of \<open>S\<close>, those of
  \<open>C\<close> the secrets applied to \<open>H\<close>.\<close>

definition lwe_params :: "BaseParams \<Rightarrow> ClientParams \<Rightarrow> nat \<Rightarrow> (nat \<Rightarrow> nat \<Rightarrow> u32) \<Rightarrow> (nat \<Rightarrow> nat \<Rightarrow> u32) \<Rightarrow> bool" where
  "lwe_params bp cp queries S E \<longleftrightarrow>
     cp_B cp = matrix_of queries (mx_rows (bp_db bp))
       (\<lambda>q k. (\<Sum>t<mx_rows (bp_A bp). S q t * matrix_at (bp_A bp) t k) + E q k) \<and>
     cp_C cp = matrix_of queries (mx_cols (bp_db bp))
       (\<lambda>q j. \<Sum>t<mx_rows (bp_A bp). S q t * matrix_at (bp_H bp) t j) \<and>
     cp_db_w cp = mx_cols (bp_db bp)"

lemma BaseParams_new_eq:
  assumes db: "wide db" "mx_rows db = m" and dim: "0 < dim"
  obtains A where "BaseParams_new rng seed db m es pb dim = Inr
      \<lparr>bp_dim = dim, bp_m = m, bp_elem_size = es, bp_plaintext_bits = pb, bp_public_seed = seed, bp_A = A,
       bp_H = matrix_of dim (mx_cols db) (product A db), bp_db = db,
       bp_trans_db = matrix_of (mx_cols db) m (\<lambda>i j. matrix_at db j i)\<rparr>"
    and "wide A" "mx_rows A = dim" "mx_cols A = m"
proof -
  have "0 < m" using db by (simp add: wide_def)
  then obtain A where A: "new_from_seed rng seed dim m = Inr A" "wide A" "mx_rows A = dim" "mx_cols A = m"
    using dim by (auto intro: new_from_seed_wide)
  then show thesis
    using that [of A] db mult_transpose_eq [of A db] matrix_transpose_eq [OF db(1)]
    by (simp add: BaseParams_new_def)
qed

lemma Query_create_of:
  assumes B: "cp_B cp = matrix_of (Suc q) m f" and C: "cp_C cp = matrix_of (Suc q) w g"
    and pb: "0 < cp_plaintext_bits cp" "cp_plaintext_bits cp < 32"
  shows "Query_create cp i =
    (if i < m \<and> unat (f q i) + 2 ^ (32 - cp_plaintext_bits cp) < 2 ^ 32
     then Inr \<lparr>q_b = map (\<lambda>k. f q k + (if k = i then 2 ^ (32 - cp_plaintext_bits cp) else 0)) [0..<m], q_c = map (g q) [0..<w]\<rparr>
     else Inl ErrorOverflownAdd, cp\<lparr>cp_B := matrix_of q m f, cp_C := matrix_of q w g\<rparr>)"
proof -
  have u: "unat (2 ^ (32 - cp_plaintext_bits cp) :: u32) = 2 ^ (32 - cp_plaintext_bits cp)"
    using pb by (simp add: unat_2_power)
  have l: "(map (f q) [0..<m])[i := f q i + d] = map (\<lambda>k. f q k + (if k = i then d else 0)) [0..<m]" for d
    by (intro nth_equalityI) (simp_all add: nth_list_update)
  show ?thesis
    using pb by (simp add: Query_create_def B C is_empty_def pop_row_of scaling u l)
qed

text \<open>From zero parameters the query is the unit vector of the wanted row, scaled.\<close>

lemma Query_create_zero:
  assumes B: "cp_B cp = matrix_of (Suc q) m (\<lambda>i j. 0)" and C: "cp_C cp = matrix_of (Suc q) w (\<lambda>i j. 0)"
    and pb: "0 < cp_plaintext_bits cp" "cp_plaintext_bits cp < 32"
  shows "Query_create cp i =
    (if i < m then Inr \<lparr>q_b = (replicate m 0)[i := 2 ^ (32 - cp_plaintext_bits cp)], q_c = replicate w 0\<rparr>
     else Inl ErrorOverflownAdd, cp\<lparr>cp_B := matrix_of q m (\<lambda>i j. 0), cp_C := matrix_of q w (\<lambda>i j. 0)\<rparr>)"
proof -
  have "(2 :: nat) ^ (32 - cp_plaintext_bits cp) < 2 ^ 32" using pb by (intro power_strict_increasing) simp_all
  moreover have "map (\<lambda>k. 0 + (if k = i then d else 0)) [0..<m] = (replicate m 0)[i := d]" for d :: u32
    by (intro nth_equalityI) (simp_all add: nth_list_update)
  ultimately show ?thesis
    unfolding Query_create_of [OF B C pb] by (simp add: map_replicate_trivial)
qed

lemma Query_create_rows:
  assumes "cp_B cp = matrix_of k m f" "cp_C cp = matrix_of k w g"
    and "0 < cp_plaintext_bits cp" "cp_plaintext_bits cp < 32"
  shows "Query_create cp i =
    (if k = 0 then Inl ErrorQueryParamsReused
     else if i < m \<and> unat (f (k - 1) i) + 2 ^ (32 - cp_plaintext_bits cp) < 2 ^ 32
     then Inr \<lparr>q_b = map (\<lambda>j. f (k - 1) j + (if j = i then 2 ^ (32 - cp_plaintext_bits cp) else 0)) [0..<m],
               q_c = map (g (k - 1)) [0..<w]\<rparr>
     else Inl ErrorOverflownAdd,
     cp\<lparr>cp_B := matrix_of (k - 1) m f, cp_C := matrix_of (k - 1) w g\<rparr>)"
proof (cases k)
  case 0
  with assms have "cp = cp\<lparr>cp_B := matrix_of 0 m f, cp_C := matrix_of 0 w g\<rparr>" by simp
  with 0 assms show ?thesis by (simp add: Query_create_def is_empty_def grid_def)
next
  case (Suc q)
  with assms Query_create_of [of cp q m f w g i] show ?thesis by simp
qed

lemma queries_consume:
  assumes "cp_B cp = matrix_of k m f" "cp_C cp = matrix_of k w g"
    and "0 < cp_plaintext_bits cp" "cp_plaintext_bits cp < 32"
  shows "foldl (\<lambda>cp i. snd (Query_create cp i)) cp rows =
    cp\<lparr>cp_B := matrix_of (k - length rows) m f, cp_C := matrix_of (k - length rows) w g\<rparr>"
  using assms
proof (induction rows arbitrary: cp k)
  case (Cons r rows)
  from Query_create_rows [OF Cons.prems]
  have "snd (Query_create cp r) = cp\<lparr>cp_B := matrix_of (k - 1) m f, cp_C := matrix_of (k - 1) w g\<rparr>" by simp
  then show ?case using Cons.IH [of "snd (Query_create cp r)" "k - 1"] Cons.prems(3,4) by simp
qed simp

lemma parse_response_of:
  assumes pb: "0 < cp_plaintext_bits cp" "cp_plaintext_bits cp < 32"
    and len: "cp_db_w cp \<le> length response" "cp_db_w cp \<le> length (q_c q)"
    and r: "\<And>j. j < cp_db_w cp \<Longrightarrow> \<exists>v. response ! j - q_c q ! j = 2 ^ (32 - cp_plaintext_bits cp) * d j + word_of_int v \<and>
      - (2 ^ (31 - cp_plaintext_bits cp)) < v \<and> v \<le> 2 ^ (31 - cp_plaintext_bits cp)"
  shows "parse_response q cp response = Inr (map (\<lambda>j. d j mod 2 ^ cp_plaintext_bits cp) [0..<cp_db_w cp])"
proof -
  let ?pb = "cp_plaintext_bits cp"
  have "mapR (\<lambda>i. bindR (vec_index response i) (\<lambda>r. bindR (vec_index (q_c q) i) (\<lambda>c.
      parse_entry (2 ^ (32 - ?pb)) (2 ^ (31 - ?pb)) (2 ^ ?pb) (r - c)))) [0..<cp_db_w cp] =
    Inr (map (\<lambda>j. d j mod 2 ^ ?pb) [0..<cp_db_w cp])"
  proof (rule mapR_Inr)
    fix j
    assume "j \<in> set [0..<cp_db_w cp]"
    then have j: "j < cp_db_w cp" by simp
    then obtain v where "response ! j - q_c q ! j = 2 ^ (32 - ?pb) * d j + word_of_int v"
      "- (2 ^ (31 - ?pb)) < v" "v \<le> 2 ^ (31 - ?pb)" using r by blast
    then show "bindR (vec_index response j) (\<lambda>r. bindR (vec_index (q_c q) j) (\<lambda>c.
        parse_entry (2 ^ (32 - ?pb)) (2 ^ (31 - ?pb)) (2 ^ ?pb) (r - c))) = Inr (d j mod 2 ^ ?pb)"
      using parse_entry_noise [OF pb] j len by (simp add: vec_index_def)
  qed
  then show ?thesis using pb by (simp add: parse_response_def scaling)
qed

lemma retrieval:
  assumes db: "wide db" "mx_rows db = m" and dim: "0 < dim"
    and bp: "BaseParams_new rng seed db m es pb dim = Inr bp"
    and cp: "lwe_params bp cp (Suc q) S E" "cp_plaintext_bits cp = pb" and pb: "0 < pb" "pb < 32"
    and query: "Query_create cp i = (Inr query, cp')"
    and noise: "\<And>j. j < mx_cols db \<Longrightarrow> \<exists>v. (\<Sum>k<m. E q k * matrix_at db k j) = word_of_int v \<and>
      - (2 ^ (31 - pb)) < v \<and> v \<le> 2 ^ (31 - pb)"
  shows "bindR (Response_create bp query) (parse_response query cp') =
    Inr (map (\<lambda>j. matrix_at db i j mod 2 ^ pb) [0..<mx_cols db])"
proof -
  let ?w = "mx_cols db"
  obtain A where "BaseParams_new rng seed db m es pb dim = Inr
      \<lparr>bp_dim = dim, bp_m = m, bp_elem_size = es, bp_plaintext_bits = pb, bp_public_seed = seed, bp_A = A,
       bp_H = matrix_of dim (mx_cols db) (product A db), bp_db = db,
       bp_trans_db = matrix_of (mx_cols db) m (\<lambda>i j. matrix_at db j i)\<rparr>"
    and A: "wide A" "mx_rows A = dim" "mx_cols A = m"
    using BaseParams_new_eq [OF db dim] by blast
  with bp have b: "bp_A bp = A" "bp_H bp = matrix_of dim ?w (product A db)" "bp_db bp = db"
    "bp_trans_db bp = matrix_of ?w m (\<lambda>i j. matrix_at db j i)" by auto
  define f where "f = (\<lambda>q k. (\<Sum>t<dim. S q t * matrix_at A t k) + E q k)"
  define g where "g = (\<lambda>q j. \<Sum>t<dim. S q t * (\<Sum>k<m. matrix_at A t k * matrix_at db k j))"
  have B: "cp_B cp = matrix_of (Suc q) m f" and w: "cp_db_w cp = ?w"
    using cp(1) db(2) by (simp_all add: lwe_params_def b A f_def)
  have "cp_C cp = matrix_of (Suc q) ?w (\<lambda>q j. \<Sum>t<dim. S q t * matrix_at (matrix_of dim ?w (product A db)) t j)"
    using cp(1) by (simp add: lwe_params_def b A)
  also have "\<dots> = matrix_of (Suc q) ?w g"
    by (rule matrix_of_cong) (simp add: g_def product_def A)
  finally have C: "cp_C cp = matrix_of (Suc q) ?w g" .
  define b where "b = map (\<lambda>k. f q k + (if k = i then 2 ^ (32 - pb) else 0)) [0..<m]"
  have i: "i < m" and qq: "query = \<lparr>q_b = b, q_c = map (g q) [0..<?w]\<rparr>"
    and cp': "cp' = cp\<lparr>cp_B := matrix_of q m f, cp_C := matrix_of q ?w g\<rparr>"
    using query Query_create_of [OF B C, of i] cp(2) pb by (auto simp: b_def split: if_splits)
  define response where "response = map (\<lambda>j. \<Sum>k<m. matrix_at db k j * b ! k) [0..<?w]"
  have resp: "Response_create bp query = Inr response"
    using mult_by_vector_of [of b m ?w "\<lambda>i j. matrix_at db j i"]
    by (simp add: Response_create_def b qq response_def b_def)
  have "parse_response query cp' response = Inr (map (\<lambda>j. matrix_at db i j mod 2 ^ pb) [0..<?w])"
  proof -
    have "response ! j - g q j = 2 ^ (32 - pb) * matrix_at db i j + (\<Sum>k<m. E q k * matrix_at db k j)" if "j < ?w" for j
    proof -
      have "response ! j = (\<Sum>k<m. (f q k + (if k = i then 2 ^ (32 - pb) else 0)) * matrix_at db k j)"
        using that by (simp add: response_def b_def mult.commute)
      also have "\<dots> = (\<Sum>k<m. f q k * matrix_at db k j) + 2 ^ (32 - pb) * matrix_at db i j"
        by (rule sum_indicator [OF i])
      finally show ?thesis
        using lwe_cancel [of "S q" "matrix_at A" dim "E q" "\<lambda>k. matrix_at db k j" m] by (simp add: f_def g_def)
    qed
    then show ?thesis
      using parse_response_of [of cp' response query "matrix_at db i"] noise cp(2) pb w
      by (simp add: cp' qq response_def)
  qed
  then show ?thesis by (simp add: resp)
qed

section \<open>Rows of the database\<close>

definition row_width :: "nat \<Rightarrow> nat \<Rightarrow> nat" where
  "row_width es pb = es div pb + (if es mod pb \<noteq> 0 then 1 else 0)"

lemma row_width_bounds:
  assumes "0 < pb" "0 < es"
  shows "0 < row_width es pb" "(row_width es pb - 1) * pb < es" "es \<le> row_width es pb * pb"
    "es mod pb \<noteq> 0 \<Longrightarrow> (row_width es pb - 1) * pb + es mod pb = es"
    "es mod pb = 0 \<Longrightarrow> row_width es pb * pb = es"
proof -
  have d: "es div pb * pb + es mod pb = es" by simp
  have m: "es mod pb < pb" using assms by simp
  show "0 < row_width es pb"
    using assms d by (cases "es mod pb = 0"; cases "es div pb") (simp_all add: row_width_def)
  show "es \<le> row_width es pb * pb"
  proof (cases "es mod pb = 0")
    case False
    then have "row_width es pb * pb = es div pb * pb + pb" by (simp add: row_width_def)
    then show ?thesis using d m by linarith
  next
    case True
    then have "row_width es pb * pb = es div pb * pb" by (simp add: row_width_def)
    then show ?thesis using d True by linarith
  qed
  show "es mod pb \<noteq> 0 \<Longrightarrow> (row_width es pb - 1) * pb + es mod pb = es"
    using d by (simp add: row_width_def)
  show z: "es mod pb = 0 \<Longrightarrow> row_width es pb * pb = es" using d by (simp add: row_width_def)
  show "(row_width es pb - 1) * pb < es"
  proof (cases "es mod pb = 0")
    case True
    then show ?thesis using z assms \<open>0 < row_width es pb\<close> by (simp add: diff_mult_distrib)
  next
    case False
    then have "row_width es pb - 1 = es div pb" by (simp add: row_width_def)
    moreover have "es div pb * pb < es" using d False by linarith
    ultimately show ?thesis by (simp only:)
  qed
qed

text \<open>The words of a row hold the bits of the element, \<open>pb\<close> in each.\<close>

lemma row_of_bits_eq:
  assumes pb: "0 < pb" "pb < 32" and es: "0 < length bits"
  obtains ws where "row_of_bits (row_width (length bits) pb) pb bits = Inr ws"
    and "length ws = row_width (length bits) pb"
    and "\<And>j k. j < row_width (length bits) pb \<Longrightarrow> bit (ws ! j) k \<longleftrightarrow> k < pb \<and> j * pb + k < length bits \<and> bits ! (j * pb + k)"
proof -
  let ?n = "length bits" and ?w = "row_width (length bits) pb"
  have piece: "\<exists>x. (let end_bound = (j + 1) * pb in
        if end_bound < ?n then bindR (slice_range bits (j * pb) end_bound) bits_to_u32_le
        else bindR (slice_range bits (j * pb) ?n) bits_to_u32_le) = Inr x \<and>
      (\<forall>k. bit x k \<longleftrightarrow> k < pb \<and> j * pb + k < ?n \<and> bits ! (j * pb + k))" (is "\<exists>x. ?F j = Inr x \<and> _") if j: "j < ?w" for j
  proof -
    have "j * pb \<le> (?w - 1) * pb" using j by (intro mult_le_mono1) simp
    from le_less_trans [OF this row_width_bounds(2) [OF pb(1) es]] have s: "j * pb < ?n" .
    let ?e = "min ((j + 1) * pb) ?n"
    have F: "?F j = bindR (slice_range bits (j * pb) ?e) bits_to_u32_le"
      by (simp add: Let_def min_def)
    let ?c = "take (?e - j * pb) (drop (j * pb) bits)"
    have sl: "slice_range bits (j * pb) ?e = Inr ?c" using s by (simp add: slice_range_def)
    have lc: "length ?c = min pb (?n - j * pb)" using s by (auto simp: min_def)
    then have "length ?c \<le> 32" using pb by simp
    then obtain x where x: "bits_to_u32_le ?c = Inr x" "\<And>k. bit x k \<longleftrightarrow> k < length ?c \<and> ?c ! k"
      using bits_to_u32_le_eq [of ?c] by blast
    have "bit x k \<longleftrightarrow> k < pb \<and> j * pb + k < ?n \<and> bits ! (j * pb + k)" for k
    proof -
      have "k < length ?c \<longleftrightarrow> k < pb \<and> j * pb + k < ?n" unfolding lc by auto
      moreover have "k < length ?c \<Longrightarrow> ?c ! k = bits ! (j * pb + k)" by simp
      ultimately show ?thesis using x(2) by blast
    qed
    then show ?thesis using F sl x(1) by auto
  qed
  then obtain f where f: "\<And>j. j < ?w \<Longrightarrow> ?F j = Inr (f j)"
    "\<And>j k. j < ?w \<Longrightarrow> bit (f j) k \<longleftrightarrow> k < pb \<and> j * pb + k < ?n \<and> bits ! (j * pb + k)"
    by metis
  show thesis
  proof (rule that)
    show "row_of_bits ?w pb bits = Inr (map f [0..<?w])"
      unfolding row_of_bits_def by (rule mapR_Inr) (use f(1) in simp)
  qed (simp_all add: f(2))
qed

lemma u32_to_bits_le_eq:
  assumes "n \<le> 32"
  shows "u32_to_bits_le x n = Inr (map (bit x) [0..<n])"
proof -
  have "foldl (\<lambda>bits b. bits @ u8_to_bits_le b) [] bs = bytes_to_bits_le bs" for bs
    unfolding bytes_to_bits_le_def foldl_map ..
  then have u: "u32_to_bits_le x n = slice_range (bytes_to_bits_le (to_le_bytes x)) 0 n"
    by (simp add: u32_to_bits_le_def)
  have l: "length (to_le_bytes x) = 4" by (simp add: to_le_bytes_def)
  have "take n (bytes_to_bits_le (to_le_bytes x)) = map (bit x) [0..<n]"
  proof (rule nth_equalityI)
    fix k
    assume "k < length (take n (bytes_to_bits_le (to_le_bytes x)))"
    then have k: "k < n" "k < 32" using l by simp_all
    have d: "k div 8 < 4" "k mod 8 < 8" "8 * (k div 8) + k mod 8 = k" using k by simp_all
    have "take n (bytes_to_bits_le (to_le_bytes x)) ! k \<longleftrightarrow> bit (to_le_bytes x ! (k div 8)) (k mod 8)"
      using k l nth_bytes_to_bits [of k "to_le_bytes x"] by simp
    also have "to_le_bytes x ! (k div 8) = ucast (drop_bit (8 * (k div 8)) x)"
      unfolding to_le_bytes_def using d(1) by (subst nth_map) simp_all
    also have "bit (ucast (drop_bit (8 * (k div 8)) x) :: byte) (k mod 8) \<longleftrightarrow> bit x k"
      using d by (simp add: bit_ucast_iff bit_drop_bit_eq del: mult_div_mod_eq)
    finally show "take n (bytes_to_bits_le (to_le_bytes x)) ! k = map (bit x) [0..<n] ! k" using k by simp
  qed (use l assms in simp)
  then show ?thesis using l assms by (simp add: u slice_range_def)
qed

text \<open>Printing a row: all bits of the element when its size is no multiple of \<open>pb\<close>, and all but the last
  \<open>pb\<close> bits when it is.\<close>

lemma bytes_from_row:
  assumes pb: "0 < pb" "pb < 32" and es: "0 < length bits" and len: "length ws = row_width (length bits) pb"
    and ws: "\<And>j k. j < length ws \<Longrightarrow> bit (ws ! j) k \<longleftrightarrow> k < pb \<and> j * pb + k < length bits \<and> bits ! (j * pb + k)"
  shows "bytes_from_u32_slice ws pb (length bits) =
    Inr (bits_to_bytes_le (take ((length ws - 1) * pb + length bits mod pb) bits))"
proof -
  let ?n = "length bits" and ?w = "length ws" and ?r = "length bits mod pb"
  note w = row_width_bounds [OF pb(1) es, folded len]
  have r: "?r < pb" using pb by simp
  have whole: "(?w - 1) * pb + ?r \<le> ?n"
    using w(2,4) by (cases "?r = 0") simp_all
  have "mapR (\<lambda>i. if i \<noteq> ?w - 1 then u32_to_bits_le (ws ! i) pb else u32_to_bits_le (ws ! i) ?r) [0..<?w] =
      Inr (map (\<lambda>i. map (bit (ws ! i)) [0..<if i \<noteq> ?w - 1 then pb else ?r]) [0..<?w])"
    using pb r by (intro mapR_Inr) (simp add: u32_to_bits_le_eq)
  moreover have "concat (map (\<lambda>i. map (bit (ws ! i)) [0..<if i \<noteq> ?w - 1 then pb else ?r]) [0..<?w]) =
      take ((?w - 1) * pb + ?r) bits"
  proof -
    have u: "[0..<?w] = [0..<?w - 1] @ [?w - 1]" using w(1) by (metis Suc_pred' upt_Suc_append zero_le)
    have "concat (map (\<lambda>i. map (bit (ws ! i)) [0..<if i \<noteq> ?w - 1 then pb else ?r]) [0..<?w]) =
        grid (?w - 1) pb (\<lambda>i. bit (ws ! i)) @ map (bit (ws ! (?w - 1))) [0..<?r]"
    proof -
      have e: "map (\<lambda>i. map (bit (ws ! i)) [0..<if i \<noteq> ?w - 1 then pb else ?r]) [0..<?w - 1] =
          map (\<lambda>i. map (bit (ws ! i)) [0..<pb]) [0..<?w - 1]" by (intro map_cong refl) auto
      show ?thesis unfolding u map_append concat_append grid_def e by simp
    qed
    also have "grid (?w - 1) pb (\<lambda>i. bit (ws ! i)) = take ((?w - 1) * pb) bits"
    proof (rule nth_equalityI)
      fix k
      assume "k < length (grid (?w - 1) pb (\<lambda>i. bit (ws ! i)))"
      then have k: "k < (?w - 1) * pb" by simp
      then have i: "k div pb < ?w - 1" "k mod pb < pb" using pb by (simp_all add: less_mult_imp_div_less)
      have d: "k div pb * pb + k mod pb = k" by simp
      have "k < ?n" using k w(2) by linarith
      then show "grid (?w - 1) pb (\<lambda>i. bit (ws ! i)) ! k = take ((?w - 1) * pb) bits ! k"
        using nth_grid [OF i, of "\<lambda>i. bit (ws ! i)"] ws [of "k div pb" "k mod pb"] i k by (simp add: d)
    qed (use w(2) in simp)
    also have "map (bit (ws ! (?w - 1))) [0..<?r] = take ?r (drop ((?w - 1) * pb) bits)"
      using ws [of "?w - 1"] w(1) r whole by (intro nth_equalityI) auto
    finally show ?thesis by (simp add: take_add)
  qed
  ultimately show ?thesis using pb by (simp add: bytes_from_u32_slice_def Let_def)
qed

text \<open>The database holds the bits of the decoded elements, \<open>pb\<close> in each word.\<close>

lemma new_from_vals_eq:
  assumes pb: "0 < pb" "pb < 32" and m: "0 < m" and es: "0 < es" and n: "length raws = m"
    and raw: "\<And>r. r \<in> set raws \<Longrightarrow> 8 * length r = es \<and> decode (encode r) = Some r"
  obtains f where "new_from_vals decode (map encode raws) m es pb = Inr (matrix_of m (row_width es pb) f)"
    and "\<And>i j k. i < m \<Longrightarrow> j < row_width es pb \<Longrightarrow>
      bit (f i j) k \<longleftrightarrow> k < pb \<and> j * pb + k < es \<and> bytes_to_bits_le (raws ! i) ! (j * pb + k)"
proof -
  let ?w = "row_width es pb"
  have w: "0 < ?w" using row_width_bounds(1) [OF pb(1) es] .
  have row: "\<exists>ws. row_of_bits ?w pb (bytes_to_bits_le (raws ! i)) = Inr ws \<and> length ws = ?w \<and>
      (\<forall>j k. j < ?w \<longrightarrow> bit (ws ! j) k = (k < pb \<and> j * pb + k < es \<and> bytes_to_bits_le (raws ! i) ! (j * pb + k)))"
    if "i < m" for i
  proof -
    have "length (bytes_to_bits_le (raws ! i)) = es" using raw [of "raws ! i"] that n by simp
    then show ?thesis using row_of_bits_eq [OF pb, of "bytes_to_bits_le (raws ! i)"] es by metis
  qed
  then obtain g where g: "\<And>i. i < m \<Longrightarrow> row_of_bits ?w pb (bytes_to_bits_le (raws ! i)) = Inr (g i)"
    "\<And>i. i < m \<Longrightarrow> length (g i) = ?w"
    "\<And>i j k. i < m \<Longrightarrow> j < ?w \<Longrightarrow> bit (g i ! j) k = (k < pb \<and> j * pb + k < es \<and> bytes_to_bits_le (raws ! i) ! (j * pb + k))"
    by metis
  have "mapR (\<lambda>i. bindR (vec_index (map encode raws) i) (\<lambda>data. case decode data of None \<Rightarrow> Inl DecodeError
      | Some bs \<Rightarrow> row_of_bits ?w pb (bytes_to_bits_le bs))) [0..<m] = Inr (map g [0..<m])"
    using n raw g(1) by (intro mapR_Inr) (simp add: vec_index_def)
  moreover have "concat (map g [0..<m]) = grid m ?w (\<lambda>i j. g i ! j)"
  proof -
    have "g i = map ((!) (g i)) [0..<?w]" if "i < m" for i using map_nth [of "g i"] g(2) [OF that] by metis
    then show ?thesis unfolding grid_def by (intro arg_cong [where f = concat] map_cong refl) simp
  qed
  ultimately have "new_from_vals decode (map encode raws) m es pb = Inr (matrix_of m ?w (\<lambda>i j. g i ! j))"
    using pb m w with_vector_grid [of m ?w "\<lambda>i j. g i ! j"]
    unfolding new_from_vals_def Let_def row_width_def [symmetric] by simp
  then show thesis using g(3) by (rule that)
qed

text \<open>A run with the parameters main makes: the noise being zero, every element comes back, up to what
  printing keeps of it.\<close>

lemma frodo_run_eq:
  assumes pb: "0 < pb" "pb < 32" and m: "0 < m" and dim: "0 < dim" and es: "0 < es" and n: "length raws = m"
    and raw: "\<And>r. r \<in> set raws \<Longrightarrow> 8 * length r = es \<and> decode (encode r) = Some r"
    and os: "accepting os" and i: "i < m"
  shows "frodo_run decode encode rng os seed (map encode raws) m es pb dim i =
    Some (Inr (encode (bits_to_bytes_le (take ((row_width es pb - 1) * pb + es mod pb) (bytes_to_bits_le (raws ! i))))))"
proof -
  let ?w = "row_width es pb"
  obtain f where db: "new_from_vals decode (map encode raws) m es pb = Inr (matrix_of m ?w f)"
    and f: "\<And>i j k. i < m \<Longrightarrow> j < ?w \<Longrightarrow>
      bit (f i j) k \<longleftrightarrow> k < pb \<and> j * pb + k < es \<and> bytes_to_bits_le (raws ! i) ! (j * pb + k)"
    using new_from_vals_eq [OF pb m es n raw] by blast
  have w: "0 < ?w" using row_width_bounds(1) [OF pb(1) es] .
  let ?db = "matrix_of m ?w f"
  have wide: "wide ?db" "mx_rows ?db = m" using m w by simp_all
  obtain A where A: "BaseParams_new rng seed ?db m es pb dim = Inr
      \<lparr>bp_dim = dim, bp_m = m, bp_elem_size = es, bp_plaintext_bits = pb, bp_public_seed = seed, bp_A = A,
       bp_H = matrix_of dim (mx_cols ?db) (product A ?db), bp_db = ?db,
       bp_trans_db = matrix_of (mx_cols ?db) m (\<lambda>i j. matrix_at ?db j i)\<rparr>" (is "_ = Inr ?bp") "mx_rows A = dim"
    using BaseParams_new_eq [OF wide dim, of rng seed es pb] by blast
  define bp where "bp = ?bp"
  have bp: "BaseParams_new rng seed ?db m es pb dim = Inr bp" "bp_public_seed bp = seed"
    "bp_db bp = ?db" "wide (bp_H bp)" "mx_rows (bp_H bp) = dim" "mx_cols (bp_H bp) = ?w" "mx_rows (bp_A bp) = dim"
    using A dim w by (simp_all add: bp_def)
  define cp where "cp = \<lparr>cp_dim = dim, cp_m = m, cp_plaintext_bits = pb, cp_db_w = ?w,
       cp_B = matrix_of 1 m (\<lambda>i j. 0), cp_C = matrix_of 1 ?w (\<lambda>i j. 0)\<rparr>"
  have new: "ClientParams_new rng os m dim pb ?w seed (bp_H bp) 1 = Some (Inr cp)"
    using ClientParams_new_zero [OF os, of 1 dim m "bp_H bp" rng pb ?w seed] dim m bp by (simp add: cp_def)
  obtain q cp' where q: "Query_create cp i = (Inr q, cp')"
    using Query_create_zero [of cp 0 m ?w i] pb i by (simp add: cp_def)
  have lwe: "lwe_params bp cp (Suc 0) (\<lambda>_ _. 0) (\<lambda>_ _. 0)" "cp_plaintext_bits cp = pb"
    using bp by (simp_all add: lwe_params_def cp_def)
  have "bindR (Response_create bp q) (parse_response q cp') = Inr (map (\<lambda>j. matrix_at ?db i j mod 2 ^ pb) [0..<mx_cols ?db])"
    by (rule retrieval [OF wide dim bp(1) lwe pb q]) (simp add: exI [of _ 0])
  also have "map (\<lambda>j. matrix_at ?db i j mod 2 ^ pb) [0..<mx_cols ?db] = map (f i) [0..<?w]"
  proof -
    have "f i j mod 2 ^ pb = f i j" if "j < ?w" for j
      using f [OF i that] by (intro bit_eqI) (simp add: bit_take_bit_iff flip: take_bit_eq_mod)
    then show ?thesis using i by simp
  qed
  finally have val: "bindR (Response_create bp q) (parse_response q cp') = Inr (map (f i) [0..<?w])" .
  have len: "length (bytes_to_bits_le (raws ! i)) = es" using raw [of "raws ! i"] i n by simp
  have "bytes_from_u32_slice (map (f i) [0..<?w]) pb es =
      Inr (bits_to_bytes_le (take ((?w - 1) * pb + es mod pb) (bytes_to_bits_le (raws ! i))))"
    using bytes_from_row [OF pb, of "bytes_to_bits_le (raws ! i)" "map (f i) [0..<?w]", unfolded len] es f i by simp
  then show ?thesis
    using val unfolding frodo_run_def db sum.case bp(1,2) matrix_of_simps new bind.bind_lunit q prod.case
    by (cases "Response_create bp q") (simp_all add: base64_from_u32_slice_def)
qed

text \<open>What printing keeps is the element, unless its size is a multiple of \<open>pb\<close>.\<close>

lemma printed_whole:
  assumes "0 < pb" "0 < es" "8 * length raw = es" "es mod pb \<noteq> 0"
  shows "bits_to_bytes_le (take ((row_width es pb - 1) * pb + es mod pb) (bytes_to_bits_le raw)) = raw"
  using row_width_bounds(4) [OF assms(1,2,4)] assms(3) bits_bytes_roundtrip [of raw] by simp

lemma printed_short:
  assumes "0 < pb" "0 < es" "8 * length raw = es" "es mod pb = 0"
  shows "bits_to_bytes_le (take ((row_width es pb - 1) * pb + es mod pb) (bytes_to_bits_le raw)) =
    bits_to_bytes_le (take (es - pb) (bytes_to_bits_le raw))"
proof -
  have "(row_width es pb - 1) * pb = es - pb"
    using row_width_bounds(5) [OF assms(1,2,4)] by (simp add: diff_mult_distrib)
  then show ?thesis using assms(4) by simp
qed

lemma card_words:
  assumes b: "b < 2 ^ 32"
  shows "card {v :: u32. unat v \<in> {a..b}} = Suc b - a"
proof -
  define P where "P = {a..b}"
  have "inj_on (word_of_nat :: nat \<Rightarrow> u32) P"
  proof (rule inj_onI)
    fix x y
    assume "x \<in> P" "y \<in> P" "word_of_nat x = (word_of_nat y :: u32)"
    then have "unat (word_of_nat x :: u32) = unat (word_of_nat y :: u32)" "x < 2 ^ 32" "y < 2 ^ 32" using b by (auto simp: P_def)
    then show "x = y" by (simp add: unsigned_of_nat take_bit_eq_mod)
  qed
  moreover have "{v :: u32. unat v \<in> P} = word_of_nat ` P"
  proof (rule set_eqI)
    fix v :: u32
    have "unat v \<in> P \<Longrightarrow> v \<in> word_of_nat ` P" by (rule image_eqI [of _ _ "unat v"]) simp_all
    moreover have "unat (word_of_nat x :: u32) = x" if "x \<in> P" for x
      using that b by (simp add: P_def unsigned_of_nat take_bit_eq_mod)
    ultimately show "v \<in> {v :: u32. unat v \<in> P} \<longleftrightarrow> v \<in> word_of_nat ` P" by auto
  qed
  ultimately have "card {v :: u32. unat v \<in> P} = card P" by (simp add: card_image)
  then show ?thesis by (simp add: P_def)
qed

lemma ternary_counts:
  "card {v. v \<le> TERNARY_REJECTION_SAMPLING_MAX \<and> ternary_value v = 0} = 1431655765"
  "card {v. v \<le> TERNARY_REJECTION_SAMPLING_MAX \<and> ternary_value v = 1} = 1431655764"
  "card {v. v \<le> TERNARY_REJECTION_SAMPLING_MAX \<and> ternary_value v = - 1} = 1431655764"
proof -
  have t2: "unat (TERNARY_INTERVAL_SIZE * 2) = 2 * 1431655764" by (simp add: TERNARY_INTERVAL_SIZE_def)
  note le = word_le_nat_alt ternary_interval ternary_max t2
  have "{v. v \<le> TERNARY_REJECTION_SAMPLING_MAX \<and> ternary_value v = 0} = {v. unat v \<in> {0..1431655764}}"
    by (auto simp: ternary_value_def le)
  then show "card {v. v \<le> TERNARY_REJECTION_SAMPLING_MAX \<and> ternary_value v = 0} = 1431655765"
    using card_words [of 1431655764 0] by (simp only:) simp
  have "{v. v \<le> TERNARY_REJECTION_SAMPLING_MAX \<and> ternary_value v = 1} = {v. unat v \<in> {1431655765..2863311528}}"
    by (auto simp: ternary_value_def le)
  then show "card {v. v \<le> TERNARY_REJECTION_SAMPLING_MAX \<and> ternary_value v = 1} = 1431655764"
    using card_words [of 2863311528 1431655765] by (simp only:) simp
  have "{v. v \<le> TERNARY_REJECTION_SAMPLING_MAX \<and> ternary_value v = - 1} = {v. unat v \<in> {2863311529..4294967292}}"
    by (auto simp: ternary_value_def le)
  then show "card {v. v \<le> TERNARY_REJECTION_SAMPLING_MAX \<and> ternary_value v = - 1} = 1431655764"
    using card_words [of 4294967292 2863311529] by (simp only:) simp
qed

text \<open>main: 4096 elements of 256 bits, 12 bits in each word; it gets back the first element.\<close>

lemma frodo_main_eq:
  assumes os: "accepting os" and codec: "\<And>r. length r = 32 \<Longrightarrow> decode (encode r) = Some r"
  shows "frodo_main decode encode rng os seed fill = Some (Inr (encode (map (fill 0) [0..<32])))"
proof -
  let ?raws = "map (\<lambda>i. map (fill i) [0..<32]) [0..<2 ^ 12]"
  have g: "generate_db_elems encode fill (2 ^ 12) ((2 ^ 8 + 7) div 8) = map encode ?raws"
    by (simp add: generate_db_elems_def)
  have "frodo_run decode encode rng os seed (map encode ?raws) (2 ^ 12) (2 ^ 8) 12 512 0 =
    Some (Inr (encode (bits_to_bytes_le (take ((row_width (2 ^ 8) 12 - 1) * 12 + 2 ^ 8 mod 12) (bytes_to_bits_le (?raws ! 0))))))"
    by (rule frodo_run_eq) (use os codec in auto)
  moreover have "bits_to_bytes_le (take ((row_width (2 ^ 8) 12 - 1) * 12 + 2 ^ 8 mod 12) (bytes_to_bits_le (?raws ! 0))) = ?raws ! 0"
    by (rule printed_whole) simp_all
  moreover have "?raws ! 0 = map (fill 0) [0..<32]" by (subst nth_map) simp_all
  ultimately show ?thesis unfolding frodo_main_def Let_def g by (simp only:)
qed

end
