(* ===== verification/Server_State.thy ===== *)
theory Server_State
  imports Record_Protocol
begin

text \<open>
  The verifier (nodes/Server.cpp, Server.hpp, KeyShare.cpp, ssl/SurfMode.hpp): its state, the actions its
  handlers are made of, and the messages it reads and writes.  A handler returns \<open>Returned\<close>, \<open>Refused\<close>
  (false in the source) or \<open>Aborted\<close> (std::abort, or a null circuit that is dereferenced) together with the
  state it leaves behind, so that what a failed handler has already changed is kept.  The prover is not
  modelled: what it sends is the stream the connection brings, and the outcome of a joint computation is
  a function of the environment, indexed by the number of steps so far.  Every write and every joint
  computation is recorded in a trace.
\<close>

section \<open>Modes\<close>

datatype SurfMode = Masked | TrueMode | Rotate

text \<open>The first character of an environment variable decides; both set is an error.\<close>

definition mode_from_env :: "string option \<Rightarrow> string option \<Rightarrow> SurfMode option" where
  "mode_from_env t r =
     (let is_set = (\<lambda>v. case v of Some (c # cs) \<Rightarrow> c = CHR ''1'' | _ \<Rightarrow> False)
      in if is_set t \<and> is_set r then None
         else Some (if is_set t then TrueMode else if is_set r then Rotate else Masked))"

definition is_capture :: "SurfMode \<Rightarrow> bool" where
  "is_capture m \<longleftrightarrow> m \<noteq> Masked"

section \<open>Key shares\<close>

text \<open>What KeyShare uses of BoringSSL: which groups exist, the public point of a private key, addition of
  serialised points (None when one of them is no point), and the coordinates of a product.\<close>

record ec_ops =
  ec_supported :: "16 word \<Rightarrow> bool"
  ec_public :: "16 word \<Rightarrow> bytes \<Rightarrow> bytes"
  ec_add :: "16 word \<Rightarrow> bytes \<Rightarrow> bytes \<Rightarrow> bytes option"
  ec_decap :: "16 word \<Rightarrow> bytes \<Rightarrow> bytes \<Rightarrow> (bytes \<times> bytes) option"

record KeyShare =
  kh_share :: "(16 word \<times> bytes) option"
  kh_public_key :: bytes
  kh_additive_share :: bytes
  kh_out_secret :: bytes
  kh_out_other_secret :: bytes

definition kh_group_id :: "KeyShare \<Rightarrow> 16 word" where
  "kh_group_id k = (case kh_share k of None \<Rightarrow> 0 | Some (g, priv) \<Rightarrow> g)"

text \<open>\<open>priv\<close> is the private key that is drawn.\<close>

definition create_new_public_key :: "ec_ops \<Rightarrow> bytes \<Rightarrow> 16 word \<Rightarrow> KeyShare \<Rightarrow> bool \<times> KeyShare" where
  "create_new_public_key ec priv curve_id k =
     (if curve_id = 29 \<or> curve_id = 0x11ec \<or> curve_id = 0x6399 then (False, k)
      else if \<not> ec_supported ec curve_id then (False, k\<lparr>kh_share := None\<rparr>)
      else let k = k\<lparr>kh_share := Some (curve_id, priv)\<rparr>
      in case initialise_cbb_for_ec_point_data curve_id (ec_public ec curve_id priv) of
           None \<Rightarrow> (False, k)
         | Some pk \<Rightarrow> (True, k\<lparr>kh_public_key := pk\<rparr>))"

definition uncompressed :: "bytes \<Rightarrow> bool" where
  "uncompressed p \<longleftrightarrow> p \<noteq> [] \<and> p ! 0 = 4"

definition kh_create_new_share :: "ec_ops \<Rightarrow> bytes \<Rightarrow> 16 word \<Rightarrow> bytes \<Rightarrow> KeyShare \<Rightarrow> bool \<times> KeyShare" where
  "kh_create_new_share ec priv curve_id peer_key k =
     (case create_new_public_key ec priv curve_id k of
        (False, k) \<Rightarrow> (False, k)
      | (True, k) \<Rightarrow>
          (case do {
             check (uncompressed peer_key);
             (our_curve_id, our_pk) \<leftarrow> deinitialise_cbb_for_ec_point_data (kh_public_key k);
             check (uncompressed our_pk);
             check (our_curve_id = curve_id);
             result \<leftarrow> ec_add ec curve_id our_pk peer_key;
             initialise_cbb_for_ec_point_data our_curve_id result } of
             None \<Rightarrow> (False, k)
           | Some out \<Rightarrow> (True, k\<lparr>kh_additive_share := out\<rparr>)))"

definition kh_finish :: "ec_ops \<Rightarrow> bytes \<Rightarrow> KeyShare \<Rightarrow> bool \<times> KeyShare" where
  "kh_finish ec key k =
     (case kh_share k of
        None \<Rightarrow> (False, k)
      | Some (g, priv) \<Rightarrow>
          (case ec_decap ec g priv key of
             None \<Rightarrow> (False, k)
           | Some (x, y) \<Rightarrow> (True, k\<lparr>kh_out_secret := x, kh_out_other_secret := y\<rparr>)))"

section \<open>States\<close>

datatype ServerState =
    S_ACCEPT | S_HANDSHAKE | S_HANDSHAKE_DONE | S_CIRCUIT_PREPROC | S_MASK_COMMIT | S_READING_KS
  | S_MAKING_KS | S_WRITING_KS | S_PSK_BINDER | S_READING_SKS | S_FINISHING_TPH | S_WRITING_HS_RECV
  | S_ECTF_WAIT | S_ECTF_DONE | S_KS_WAIT | S_KS_DONE | S_CERT_WAIT | S_CERT_RECV | S_DERIVE_TS
  | S_GCM_SHARE_DERIVE | S_GCM_SHARE_DONE | S_DERIVE_RES | S_RES_DONE | S_DERIVE_PSK | S_PSK_DONE
  | S_SHUTDOWN | S_DONE | S_SIZE

definition server_states :: "ServerState list" where
  "server_states =
     [S_ACCEPT, S_HANDSHAKE, S_HANDSHAKE_DONE, S_CIRCUIT_PREPROC, S_MASK_COMMIT, S_READING_KS,
      S_MAKING_KS, S_WRITING_KS, S_PSK_BINDER, S_READING_SKS, S_FINISHING_TPH, S_WRITING_HS_RECV,
      S_ECTF_WAIT, S_ECTF_DONE, S_KS_WAIT, S_KS_DONE, S_CERT_WAIT, S_CERT_RECV, S_DERIVE_TS,
      S_GCM_SHARE_DERIVE, S_GCM_SHARE_DONE, S_DERIVE_RES, S_RES_DONE, S_DERIVE_PSK, S_PSK_DONE,
      S_SHUTDOWN, S_DONE, S_SIZE]"

primrec state_num :: "ServerState \<Rightarrow> nat" where
  "state_num S_ACCEPT = 0"
| "state_num S_HANDSHAKE = 1"
| "state_num S_HANDSHAKE_DONE = 2"
| "state_num S_CIRCUIT_PREPROC = 3"
| "state_num S_MASK_COMMIT = 4"
| "state_num S_READING_KS = 5"
| "state_num S_MAKING_KS = 6"
| "state_num S_WRITING_KS = 7"
| "state_num S_PSK_BINDER = 8"
| "state_num S_READING_SKS = 9"
| "state_num S_FINISHING_TPH = 10"
| "state_num S_WRITING_HS_RECV = 11"
| "state_num S_ECTF_WAIT = 12"
| "state_num S_ECTF_DONE = 13"
| "state_num S_KS_WAIT = 14"
| "state_num S_KS_DONE = 15"
| "state_num S_CERT_WAIT = 16"
| "state_num S_CERT_RECV = 17"
| "state_num S_DERIVE_TS = 18"
| "state_num S_GCM_SHARE_DERIVE = 19"
| "state_num S_GCM_SHARE_DONE = 20"
| "state_num S_DERIVE_RES = 21"
| "state_num S_RES_DONE = 22"
| "state_num S_DERIVE_PSK = 23"
| "state_num S_PSK_DONE = 24"
| "state_num S_SHUTDOWN = 25"
| "state_num S_DONE = 26"
| "state_num S_SIZE = 27"

definition next_state :: "ServerState \<Rightarrow> ServerState" where
  "next_state state =
     (case state of
        S_DONE \<Rightarrow> state
      | S_READING_SKS \<Rightarrow> S_FINISHING_TPH
      | _ \<Rightarrow> server_states ! (state_num state + 1))"

definition should_stop :: "ServerState \<Rightarrow> ServerState \<Rightarrow> bool" where
  "should_stop current stop \<longleftrightarrow> state_num current \<ge> state_num stop"

section \<open>The server\<close>

datatype circuit =
    C_HS0 | C_HS1 | C_TRAFFIC | C_GCM | C_RES | C_PSK | C_PSK_8 | C_PSK_0 | C_BINDER | C_GCM_VFY | C_KS_BLOCK
  | C_AES_ENC | C_GCM_TAG | C_ROTATE

text \<open>Outputs of joint computations; the fields that the handlers read.\<close>

record HandshakeCircuitOut =
  ho_CHTS_share :: bytes
  ho_SHTS_share :: bytes
  ho_MS_share :: bytes

record RotateCircuitOut =
  ro_next_share :: bytes
  ro_key_share :: bytes
  ro_iv :: bytes

text \<open>What the outside sees: writes, and joint computations with the verifier's input and output.\<close>

datatype event =
    Sent bytes
  | Ran_ectf bytes bytes "bytes option"
  | Ran_handshake "bytes \<times> bytes" "HandshakeCircuitOut option"
  | Ran_traffic bytes "TrafficCircuitOut option"
  | Ran_gcm_share bytes "bytes option"
  | Ran_resumption bytes "bytes option"
  | Ran_psk "circuit \<times> bytes" "bytes option"
  | Ran_binder bytes "bytes option"
  | Ran_rotate "bool \<times> bytes" "RotateCircuitOut option"
  | Ran_aes_enc AESEncBatchCircuitIn "AESEncBatchCircuitOut option"
  | Ran_gcm_tag GCMTagCircuitIn "GCMTagCircuitOut option"
  | Ran_gcm_vfy GCMVfyCircuitIn "GCMVfyCircuitOut option"
  | Ran_gcm_vfy_commit GCMVfyCommitCircuitIn "GCMVfyCommitCircuitOut option"
  | Ran_ks_batch KSBatchCircuitIn "KSBatchCircuitOut option"

record server =
  sv_state :: ServerState
  sv_mode :: SurfMode
  sv_true_surf :: bool
  sv_retain_ct :: bool
  sv_should_attest :: bool
  sv_is_resumption_run :: bool
  sv_resumed_handshake :: bool
  sv_psk_skipped :: bool
  sv_version :: "16 word"
  sv_cipher_suite :: "16 word"
  sv_key_shares :: "KeyShare list"
  sv_active_key_share :: nat
  sv_additive_share :: bytes
  sv_client_public_key :: bytes
  sv_buffer :: bytes
  sv_x_secret :: bytes
  sv_transcript :: bytes
  sv_server_key_comm :: bytes
  sv_handshake_key_shares :: HandshakeCircuitOut
  sv_traffic_key_shares :: TrafficCircuitOut
  sv_client_gcm_powers :: bytes
  sv_server_gcm_powers :: bytes
  sv_RMS_share :: bytes
  sv_PSK_share :: bytes
  sv_mask_commitment :: bytes
  sv_key_commitment :: bytes
  sv_epoch :: "32 word"
  sv_key_committed :: bool
  sv_key_released :: bool
  sv_attested_ct :: "(64 word \<times> bytes) list"
  sv_encrypted_ct :: "bytes list"
  sv_encrypt_aad :: bytes
  sv_encrypt_ct_len :: nat
  sv_encrypted_seqs :: "64 word list"
  sv_verified_seqs :: "64 word list"
  sv_circuits :: "circuit \<Rightarrow> bool"
  sv_rx :: ssl
  sv_steps :: nat
  sv_trace :: "event list"

text \<open>The environment of a run: the connection that is accepted (with all that its prover is going to
  send), the outcomes of I/O, private keys, and the joint computations.\<close>

record env =
  e_connection :: "ssl option"
  e_ssl_accept :: bool
  e_write :: "nat \<Rightarrow> bool"
  e_read_ready :: "nat \<Rightarrow> bool"
  e_built :: "nat \<Rightarrow> bool"
  e_preproc :: "nat \<Rightarrow> bool"
  e_ks_empty :: "nat \<Rightarrow> bool"
  e_private :: "nat \<Rightarrow> bytes"
  e_ec :: ec_ops
  e_ectf :: "nat \<Rightarrow> bytes \<times> bytes \<times> 16 word \<Rightarrow> bytes option"
  e_handshake :: "nat \<Rightarrow> bytes \<times> bytes \<Rightarrow> HandshakeCircuitOut option"
  e_traffic :: "nat \<Rightarrow> bytes \<Rightarrow> TrafficCircuitOut option"
  e_gcm_share :: "nat \<Rightarrow> bytes \<Rightarrow> bytes option"
  e_resumption :: "nat \<Rightarrow> bytes \<Rightarrow> bytes option"
  e_psk :: "nat \<Rightarrow> circuit \<times> bytes \<Rightarrow> bytes option"
  e_binder :: "nat \<Rightarrow> bytes \<Rightarrow> bytes option"
  e_rotate :: "nat \<Rightarrow> bool \<times> bytes \<Rightarrow> RotateCircuitOut option"
  e_aes_enc :: "nat \<Rightarrow> AESEncBatchCircuitIn \<Rightarrow> AESEncBatchCircuitOut option"
  e_gcm_tag :: "nat \<Rightarrow> GCMTagCircuitIn \<Rightarrow> GCMTagCircuitOut option"
  e_gcm_vfy :: "nat \<Rightarrow> GCMVfyCircuitIn \<Rightarrow> GCMVfyCircuitOut option"
  e_gcm_vfy_commit :: "nat \<Rightarrow> GCMVfyCommitCircuitIn \<Rightarrow> GCMVfyCommitCircuitOut option"
  e_ks_batch :: "nat \<Rightarrow> KSBatchCircuitIn \<Rightarrow> KSBatchCircuitOut option"

section \<open>Actions\<close>

datatype 'a outcome = Returned 'a | Refused | Aborted

type_synonym 'a action = "server \<Rightarrow> 'a outcome \<times> server"

definition returnS :: "'a \<Rightarrow> 'a action" where
  "returnS x = (\<lambda>s. (Returned x, s))"

definition bindS :: "'a action \<Rightarrow> ('a \<Rightarrow> 'b action) \<Rightarrow> 'b action" where
  "bindS m f = (\<lambda>s. case m s of
       (Returned x, t) \<Rightarrow> f x t
     | (Refused, t) \<Rightarrow> (Refused, t)
     | (Aborted, t) \<Rightarrow> (Aborted, t))"

definition thenS :: "unit action \<Rightarrow> 'b action \<Rightarrow> 'b action" where
  "thenS m n = bindS m (\<lambda>_. n)"

definition checkS :: "bool \<Rightarrow> unit action" where
  "checkS c = (\<lambda>s. (if c then Returned () else Refused, s))"

definition assertS :: "bool \<Rightarrow> unit action" where
  "assertS c = (\<lambda>s. (if c then Returned () else Aborted, s))"

definition optionS :: "'a option \<Rightarrow> 'a action" where
  "optionS x = (\<lambda>s. (case x of Some y \<Rightarrow> Returned y | None \<Rightarrow> Refused, s))"

definition withS :: "(server \<Rightarrow> 'a action) \<Rightarrow> 'a action" where
  "withS f = (\<lambda>s. f s s)"

definition modifyS :: "(server \<Rightarrow> server) \<Rightarrow> unit action" where
  "modifyS f = (\<lambda>s. (Returned (), f s))"

primrec eachS :: "('a \<Rightarrow> unit action) \<Rightarrow> 'a list \<Rightarrow> unit action" where
  "eachS f [] = returnS ()"
| "eachS f (x # xs) = thenS (f x) (eachS f xs)"

definition stepS :: "(nat \<Rightarrow> 'a action) \<Rightarrow> 'a action" where
  "stepS f = (\<lambda>s. f (sv_steps s) (s\<lparr>sv_steps := Suc (sv_steps s)\<rparr>))"

definition recordS :: "event \<Rightarrow> unit action" where
  "recordS e = modifyS (\<lambda>s. s\<lparr>sv_trace := sv_trace s @ [e]\<rparr>)"

text \<open>A joint computation: the verifier's input, its output, and the entry in the trace.\<close>

definition jointS :: "(nat \<Rightarrow> 'i \<Rightarrow> 'o option) \<Rightarrow> ('i \<Rightarrow> 'o option \<Rightarrow> event) \<Rightarrow> 'i \<Rightarrow> 'o action" where
  "jointS run ev i = stepS (\<lambda>k. thenS (recordS (ev i (run k i))) (optionS (run k i)))"

definition advance :: "unit action" where
  "advance = modifyS (\<lambda>s. s\<lparr>sv_state := next_state (sv_state s)\<rparr>)"

definition goto :: "ServerState \<Rightarrow> unit action" where
  "goto st = modifyS (\<lambda>s. s\<lparr>sv_state := st\<rparr>)"

definition need_circuit :: "circuit \<Rightarrow> unit action" where
  "need_circuit c = withS (\<lambda>s. checkS (sv_circuits s c))"

definition deref_circuit :: "circuit \<Rightarrow> unit action" where
  "deref_circuit c = withS (\<lambda>s. assertS (sv_circuits s c))"

section \<open>Reading and writing\<close>

definition idle_rx :: ssl where
  "idle_rx = \<lparr>pending_app_data = [], incoming = []\<rparr>"

text \<open>Waiting for the socket is transparent: the read ends with all bytes, or fails when the peer has
  closed the connection.\<close>

definition read_exact_blocking :: "nat \<Rightarrow> bytes action" where
  "read_exact_blocking len = (\<lambda>s.
     case ssl_read_loop len (sv_rx s) [] of
       Some (bs, rx) \<Rightarrow> (Returned bs, s\<lparr>sv_rx := rx\<rparr>)
     | None \<Rightarrow> (Refused, s\<lparr>sv_rx := idle_rx\<rparr>))"

definition pending :: "server \<Rightarrow> nat" where
  "pending s = length (pending_app_data (sv_rx s))"

text \<open>One read into the buffer: the rest of a record, or its first bytes.\<close>

definition read_buffer :: "nat action" where
  "read_buffer = (\<lambda>s.
     case SSL_read (length (sv_buffer s)) (sv_rx s) of
       Some (bs, rx) \<Rightarrow> (Returned (length bs), s\<lparr>sv_rx := rx, sv_buffer := bs @ drop (length bs) (sv_buffer s)\<rparr>)
     | None \<Rightarrow> (Refused, s))"

definition socket_write :: "env \<Rightarrow> bytes \<Rightarrow> unit action" where
  "socket_write E bs =
     thenS (checkS (length bs \<le> SSL3_RT_MAX_PLAIN_LENGTH \<and> length bs \<noteq> 0))
     (stepS (\<lambda>k. thenS (checkS (e_write E k)) (recordS (Sent bs))))"

definition read_single_header :: "byte action" where
  "read_single_header =
     bindS (read_exact_blocking 1) (\<lambda>buf.
     bindS (optionS (CBS_get_u8 buf)) (\<lambda>(b, rest).
     thenS (checkS (is_valid_header b)) (returnS b)))"

definition read_single_u16 :: "16 word action" where
  "read_single_u16 = bindS (read_exact_blocking 2) (\<lambda>buf. bindS (optionS (CBS_get_u16 buf)) (\<lambda>(v, rest). returnS v))"

definition read_single_u64 :: "64 word action" where
  "read_single_u64 = bindS (read_exact_blocking 8) (\<lambda>buf. bindS (optionS (CBS_get_u64 buf)) (\<lambda>(v, rest). returnS v))"

definition write_single_header :: "env \<Rightarrow> MessageHeaders \<Rightarrow> unit action" where
  "write_single_header E h = socket_write E [header_byte h]"

definition expect_header :: "MessageHeaders \<Rightarrow> unit action" where
  "expect_header h = bindS read_single_header (\<lambda>b. checkS (b = header_byte h))"

text \<open>Big-endian integers, as the handlers assemble them from the bytes they read.\<close>

definition seq_of :: "bytes \<Rightarrow> 64 word" where
  "seq_of buf = foldl (\<lambda>seq i. push_bit 8 seq OR ucast (buf ! i)) 0 [0..<8]"

definition len32_of :: "bytes \<Rightarrow> 32 word" where
  "len32_of buf = push_bit 24 (ucast (buf ! 0)) OR push_bit 16 (ucast (buf ! 1)) OR push_bit 8 (ucast (buf ! 2)) OR ucast (buf ! 3)"

definition len16_of :: "bytes \<Rightarrow> 16 word" where
  "len16_of buf = push_bit 8 (ucast (buf ! 0)) OR ucast (buf ! 1)"

definition SSL3_RT_HEADER_LENGTH :: "16 word" where
  "SSL3_RT_HEADER_LENGTH = 5"

section \<open>Sequences of actions\<close>

lemma thenS_modifyS [simp]: "thenS (modifyS f) m s = m (f s)"
  by (simp add: thenS_def bindS_def modifyS_def)

lemma thenS_returnS [simp]: "thenS (returnS x) m s = m s"
  by (simp add: thenS_def bindS_def returnS_def)

end
