(* ===== verification/Server_Ops.thy ===== *)
theory Server_Ops
  imports Server_State
begin

text \<open>
  The operations on records that the verifier performs for the prover (nodes/Server.cpp): key commitment
  and release, rotation, verification of a tag, derivation of keystream, encryption and tag of a request;
  and the two loops that dispatch them, one while it waits for the header of the next phase, one after
  the handshake.
\<close>

section \<open>Key commitment, release, rotation\<close>

definition read_key_commitment :: "unit action" where
  "read_key_commitment =
     thenS (withS (\<lambda>s. checkS (sv_true_surf s \<and> \<not> sv_key_committed s \<and> \<not> sv_key_released s)))
     (bindS (read_exact_blocking 32) (\<lambda>d.
      modifyS (\<lambda>s. s\<lparr>sv_key_commitment := d, sv_key_committed := True\<rparr>)))"

text \<open>The flag is set before the share is written.\<close>

definition release_key :: "env \<Rightarrow> unit action" where
  "release_key E =
     thenS (withS (\<lambda>s. checkS (sv_true_surf s \<and> sv_key_committed s \<and> \<not> sv_key_released s)))
     (thenS (modifyS (\<lambda>s. s\<lparr>sv_key_released := True\<rparr>))
     (withS (\<lambda>s. socket_write E (tk_server_key_share (sv_traffic_key_shares s)))))"

definition set_rotated :: "bool \<Rightarrow> RotateCircuitOut \<Rightarrow> TrafficCircuitOut \<Rightarrow> TrafficCircuitOut" where
  "set_rotated is_client out k =
     (if is_client
      then k\<lparr>tk_CATS_share := ro_next_share out, tk_client_key_share := ro_key_share out, tk_client_iv := ro_iv out\<rparr>
      else k\<lparr>tk_SATS_share := ro_next_share out, tk_server_key_share := ro_key_share out, tk_server_iv := ro_iv out\<rparr>)"

definition rotate_apply :: "env \<Rightarrow> bool \<Rightarrow> RotateCircuitOut \<Rightarrow> unit action" where
  "rotate_apply E is_client out =
     thenS (modifyS (\<lambda>s. s\<lparr>sv_traffic_key_shares := set_rotated is_client out (sv_traffic_key_shares s)\<rparr>))
     (bindS (jointS (e_gcm_share E) Ran_gcm_share (ro_key_share out)) (\<lambda>gcm.
      modifyS (\<lambda>s. if is_client
        then s\<lparr>sv_client_gcm_powers := gcm, sv_encrypted_seqs := [], sv_encrypted_ct := [], sv_encrypt_ct_len := 0\<rparr>
        else s\<lparr>sv_server_gcm_powers := gcm, sv_verified_seqs := [], sv_key_committed := False, sv_key_released := False,
               sv_key_commitment := replicate 32 0, sv_epoch := sv_epoch s + 1\<rparr>)))"

definition rotate_key_op :: "env \<Rightarrow> unit action" where
  "rotate_key_op E =
     thenS (withS (\<lambda>s. checkS (sv_mode s = Rotate \<and> sv_circuits s C_ROTATE \<and> sv_circuits s C_GCM)))
     (bindS (read_exact_blocking 1) (\<lambda>buf.
      let dir = buf ! 0; is_client = (dir = 0) in
      thenS (checkS (dir \<le> 1))
      (thenS (withS (\<lambda>s. checkS (is_client \<or> sv_key_released s)))
      (bindS (withS (\<lambda>s. jointS (e_rotate E) Ran_rotate (is_client,
           if is_client then tk_CATS_share (sv_traffic_key_shares s) else tk_SATS_share (sv_traffic_key_shares s))))
       (rotate_apply E is_client)))))"

section \<open>Verification of a tag\<close>

text \<open>The message behind the header: sequence number, additional data, ciphertext, tag.\<close>

definition read_vfy_message :: "(64 word \<times> bytes \<times> bytes \<times> bytes) action" where
  "read_vfy_message =
     bindS (read_exact_blocking 8) (\<lambda>seq_buf.
     bindS (read_exact_blocking 2) (\<lambda>aad_len_buf.
     let aad_len = len16_of aad_len_buf in
     thenS (checkS (aad_len = SSL3_RT_HEADER_LENGTH))
     (bindS (read_exact_blocking (unat aad_len)) (\<lambda>aad.
      bindS (read_exact_blocking 4) (\<lambda>ct_len_buf.
      let ct_len = unat (len32_of ct_len_buf) in
      thenS (checkS (ct_len \<noteq> 0 \<and> ct_len \<le> SSL3_RT_MAX_PLAIN_LENGTH + 1))
      (bindS (read_exact_blocking ct_len) (\<lambda>ciphertext.
       bindS (read_exact_blocking 16) (\<lambda>server_tag.
       returnS (seq_of seq_buf, aad, ciphertext, server_tag)))))))))"

definition accept_committed :: "env \<Rightarrow> 64 word \<Rightarrow> bytes \<Rightarrow> GCMVfyCommitCircuitOut \<Rightarrow> unit action" where
  "accept_committed E seq ciphertext out =
     thenS (checkS (\<not> gv_cheated out))
     (thenS (checkS (gv_key_opened out))
     (withS (\<lambda>s.
        if \<not> gv_tag_passed out
        then (if sv_mode s = Rotate then write_single_header E H_TAG_REJECT else checkS False)
        else thenS (modifyS (\<lambda>s.
               (if sv_retain_ct s then s\<lparr>sv_attested_ct := sv_attested_ct s @ [(seq, ciphertext)]\<rparr> else s)
                 \<lparr>sv_verified_seqs := sv_verified_seqs s @ [seq]\<rparr>))
             (if sv_mode s = Rotate then write_single_header E H_TAG_OK else returnS ()))))"

definition accept_masked :: "64 word \<Rightarrow> GCMVfyCircuitOut \<Rightarrow> unit action" where
  "accept_masked seq out =
     thenS (checkS (\<not> gv_cheated out))
     (thenS (checkS (gv_tag_passed out))
     (modifyS (\<lambda>s. s\<lparr>sv_verified_seqs := sv_verified_seqs s @ [seq]\<rparr>)))"

definition judge_tag :: "env \<Rightarrow> 64 word \<Rightarrow> bytes \<Rightarrow> GCMVfyCircuitIn \<Rightarrow> unit action" where
  "judge_tag E seq ciphertext input = withS (\<lambda>s.
     if sv_true_surf s
     then bindS (jointS (e_gcm_vfy_commit E) Ran_gcm_vfy_commit (with_commitment input (replicate 16 0) (sv_key_commitment s)))
            (accept_committed E seq ciphertext)
     else bindS (jointS (e_gcm_vfy E) Ran_gcm_vfy input) (accept_masked seq))"

definition verify_gcm_tag :: "env \<Rightarrow> unit action" where
  "verify_gcm_tag E =
     thenS (withS (\<lambda>s. checkS (sv_true_surf s \<longrightarrow> sv_key_committed s \<and> \<not> sv_key_released s)))
     (bindS read_vfy_message (\<lambda>(seq, aad, ciphertext, server_tag).
      bindS (withS (\<lambda>s. optionS (vfy_input_verifier (sv_traffic_key_shares s) (sv_server_gcm_powers s) seq aad ciphertext server_tag)))
        (\<lambda>input. thenS (need_circuit C_GCM_VFY) (judge_tag E seq ciphertext input))))"

section \<open>Keystream\<close>

definition read_record_dims :: "RecordDims action" where
  "read_record_dims =
     bindS (read_exact_blocking 12) (\<lambda>ent.
     let ct_len = len32_of (drop 8 ent) in
     thenS (checkS (unat ct_len \<noteq> 0 \<and> unat ct_len \<le> SSL3_RT_MAX_PLAIN_LENGTH + 1))
     (returnS \<lparr>rd_seq = seq_of ent, rd_ct_len = ct_len\<rparr>))"

primrec read_dims :: "nat \<Rightarrow> RecordDims list action" where
  "read_dims 0 = returnS []"
| "read_dims (Suc n) = bindS read_record_dims (\<lambda>r. bindS (read_dims n) (\<lambda>rs. returnS (r # rs)))"

definition ks_batch_op :: "env \<Rightarrow> RecordDims list \<Rightarrow> nat \<Rightarrow> nat \<Rightarrow> unit action" where
  "ks_batch_op E recs nblocks batch =
     thenS (stepS (\<lambda>k. checkS (e_ks_empty E k \<longrightarrow> e_preproc E k)))
     (bindS (withS (\<lambda>s. optionS (ks_batch_verifier (sv_traffic_key_shares s) (sv_mask_commitment s) recs nblocks batch))) (\<lambda>i.
      bindS (jointS (e_ks_batch E) Ran_ks_batch i) (\<lambda>out. checkS (ks_ok out))))"

definition derive_keystream_blocks :: "env \<Rightarrow> unit action" where
  "derive_keystream_blocks E =
     thenS (need_circuit C_KS_BLOCK)
     (bindS (read_exact_blocking 4) (\<lambda>nrec_buf.
      let nrec = unat (len32_of nrec_buf) in
      thenS (checkS (nrec \<noteq> 0 \<and> nrec \<le> kNumMasks))
      (bindS (read_dims nrec) (\<lambda>recs.
       thenS (withS (\<lambda>s. checkS (\<forall>r \<in> set recs. rd_seq r \<in> set (sv_verified_seqs s))))
       (let nblocks = total_blocks recs
        in if nblocks = 0 then returnS ()
           else eachS (ks_batch_op E recs nblocks) [0..<(nblocks + KS_BATCH_N - 1) div KS_BATCH_N])))))"

section \<open>Encryption of a request and its tag\<close>

definition enc_batch_op :: "env \<Rightarrow> 64 word \<Rightarrow> nat \<Rightarrow> nat \<Rightarrow> unit action" where
  "enc_batch_op E seq nblocks batch =
     bindS (withS (\<lambda>s. jointS (e_aes_enc E) Ran_aes_enc (enc_batch_verifier (sv_traffic_key_shares s) seq nblocks batch))) (\<lambda>out.
     thenS (checkS (ae_ok out))
     (modifyS (\<lambda>s. s\<lparr>sv_encrypted_ct :=
        foldl (\<lambda>ct j. ct[batch * AES_ENC_N + j := ae_ct out ! j]) (sv_encrypted_ct s) [0..<AES_ENC_N]\<rparr>)))"

definition encrypt_blocks :: "env \<Rightarrow> unit action" where
  "encrypt_blocks E =
     thenS (need_circuit C_AES_ENC)
     (bindS (read_exact_blocking 8) (\<lambda>seq_buf.
      let seq = seq_of seq_buf in
      thenS (withS (\<lambda>s. checkS (seq \<notin> set (sv_encrypted_seqs s))))
      (bindS (read_exact_blocking 4) (\<lambda>len_buf.
       let pt_len = unat (len32_of len_buf);
           nblocks = (pt_len + 15) div 16;
           nbatches = (nblocks + AES_ENC_N - 1) div AES_ENC_N in
       thenS (checkS (pt_len \<noteq> 0 \<and> pt_len \<le> SSL3_RT_MAX_PLAIN_LENGTH))
       (thenS (modifyS (\<lambda>s. s\<lparr>sv_encrypted_ct := replicate (nbatches * AES_ENC_N) (replicate 16 0)\<rparr>))
       (thenS (eachS (enc_batch_op E seq nblocks) [0..<nbatches])
       (modifyS (\<lambda>s. s\<lparr>sv_encrypt_ct_len := pt_len, sv_encrypted_seqs := sv_encrypted_seqs s @ [seq]\<rparr>))))))))"

definition make_gcm_tag :: "env \<Rightarrow> unit action" where
  "make_gcm_tag E =
     thenS (need_circuit C_GCM_TAG)
     (bindS (read_exact_blocking 2) (\<lambda>aad_len_buf.
      let aad_len = len16_of aad_len_buf in
      thenS (checkS (aad_len = SSL3_RT_HEADER_LENGTH))
      (thenS (modifyS (\<lambda>s. s\<lparr>sv_encrypt_aad := replicate (unat aad_len) 0\<rparr>))
      (bindS (read_exact_blocking (unat aad_len)) (\<lambda>aad.
       thenS (modifyS (\<lambda>s. s\<lparr>sv_encrypt_aad := aad\<rparr>))
       (bindS (read_exact_blocking 4) (\<lambda>ct_len_buf.
        let ct_len = unat (len32_of ct_len_buf) in
        thenS (withS (\<lambda>s. checkS (ct_len = sv_encrypt_ct_len s \<and> sv_encrypted_ct s \<noteq> [])))
        (bindS (withS (\<lambda>s. optionS (tag_input_verifier (sv_traffic_key_shares s) (sv_client_gcm_powers s)
             (last (sv_encrypted_seqs s)) aad (held_ciphertext (sv_encrypted_ct s) ct_len)))) (\<lambda>input.
         bindS (jointS (e_gcm_tag E) Ran_gcm_tag input) (\<lambda>out.
         checkS (\<not> gt_cheated out)))))))))))"

section \<open>Dispatch\<close>

definition serve_op :: "env \<Rightarrow> byte \<Rightarrow> unit action option" where
  "serve_op E b =
     (if b = header_byte H_AES_ENC then Some (encrypt_blocks E)
      else if b = header_byte H_GCM_TAG then Some (make_gcm_tag E)
      else if b = header_byte H_GCM_VERIFY then Some (verify_gcm_tag E)
      else if b = header_byte H_KS_DERIVE then Some (derive_keystream_blocks E)
      else if b = header_byte H_KEY_COMMIT then Some read_key_commitment
      else if b = header_byte H_KEY_RELEASE then Some (release_key E)
      else if b = header_byte H_ROTATE_KEY then Some (rotate_key_op E)
      else None)"

section \<open>How actions change the server\<close>

text \<open>\<open>evolves R m\<close>: whatever \<open>m\<close> does, the state it leaves is related to the one it found.\<close>

definition evolves :: "(server \<Rightarrow> server \<Rightarrow> bool) \<Rightarrow> 'a action \<Rightarrow> bool" where
  "evolves R m \<longleftrightarrow> (\<forall>s. R s (snd (m s)))"

definition rx_len :: "ssl \<Rightarrow> nat" where
  "rx_len rx = length (ssl_content rx)"

text \<open>A preorder on servers that allows reading, counting steps, writing and recording certain events.\<close>

locale evolution =
  fixes R :: "server \<Rightarrow> server \<Rightarrow> bool" and ok :: "event \<Rightarrow> bool"
  assumes R_refl: "R s s"
    and R_trans: "R s t \<Longrightarrow> R t u \<Longrightarrow> R s u"
    and read: "rx_len rx \<le> rx_len (sv_rx s) \<Longrightarrow> R s (s\<lparr>sv_rx := rx\<rparr>)"
    and step: "R s (s\<lparr>sv_steps := n\<rparr>)"
    and recorded: "ok e \<Longrightarrow> R s (s\<lparr>sv_trace := sv_trace s @ [e]\<rparr>)"
    and sending: "ok (Sent bs)"
begin

lemma evolves_returnS: "evolves R (returnS x)"
  by (simp add: evolves_def returnS_def R_refl)

lemma evolves_checkS: "evolves R (checkS c)"
  by (simp add: evolves_def checkS_def R_refl)

lemma evolves_assertS: "evolves R (assertS c)"
  by (simp add: evolves_def assertS_def R_refl)

lemma evolves_optionS: "evolves R (optionS x)"
  by (simp add: evolves_def optionS_def R_refl)

lemma evolves_modifyS: "(\<And>s. R s (f s)) \<Longrightarrow> evolves R (modifyS f)"
  by (simp add: evolves_def modifyS_def)

lemma evolves_withS: "(\<And>s. evolves R (f s)) \<Longrightarrow> evolves R (withS f)"
  by (simp add: evolves_def withS_def)

lemma evolves_bindS:
  assumes m: "evolves R m" and f: "\<And>x. evolves R (f x)"
  shows "evolves R (bindS m f)"
  unfolding evolves_def
proof
  fix s
  show "R s (snd (bindS m f s))"
  proof (cases "m s")
    case (Pair r t)
    then have "R s t" using m by (metis evolves_def snd_conv)
    moreover have "R t (snd (f x t))" for x using f by (simp add: evolves_def)
    ultimately show ?thesis using Pair R_trans by (cases r) (auto simp: bindS_def)
  qed
qed

lemma evolves_thenS: "evolves R m \<Longrightarrow> evolves R n \<Longrightarrow> evolves R (thenS m n)"
  unfolding thenS_def by (rule evolves_bindS)

lemma evolves_eachS: "(\<And>x. evolves R (f x)) \<Longrightarrow> evolves R (eachS f xs)"
  by (induction xs) (simp_all add: evolves_returnS evolves_thenS)

lemma evolves_stepS: "(\<And>k. evolves R (f k)) \<Longrightarrow> evolves R (stepS f)"
  unfolding evolves_def stepS_def using R_trans [OF step] by blast

lemma evolves_recordS: "ok e \<Longrightarrow> evolves R (recordS e)"
  unfolding recordS_def by (rule evolves_modifyS) (rule recorded)

lemma evolves_jointS: "(\<And>x. ok (ev i x)) \<Longrightarrow> evolves R (jointS run ev i)"
  unfolding jointS_def by (intro evolves_stepS evolves_thenS evolves_recordS evolves_optionS)

lemma evolves_read_exact: "evolves R (read_exact_blocking n)"
  unfolding evolves_def
proof
  fix s
  show "R s (snd (read_exact_blocking n s))"
  proof (cases "ssl_read_loop n (sv_rx s) []")
    case None
    then show ?thesis using read [of idle_rx s]
      by (simp add: read_exact_blocking_def rx_len_def idle_rx_def ssl_content_def)
  next
    case (Some r)
    then have "n \<le> length (ssl_content (sv_rx s))"
      using ssl_read_loop_short [of "sv_rx s" n "[]"] by (cases "length (ssl_content (sv_rx s)) < n") auto
    then obtain rx where "ssl_read_loop n (sv_rx s) [] = Some (take n (ssl_content (sv_rx s)), rx)"
      "ssl_content rx = drop n (ssl_content (sv_rx s))"
      using ssl_read_loop_enough [of n "sv_rx s" "[]"] by auto
    then show ?thesis using read [of rx s] by (simp add: read_exact_blocking_def rx_len_def)
  qed
qed

lemmas evolves_rules = evolves_returnS evolves_checkS evolves_assertS evolves_optionS evolves_withS
  evolves_bindS evolves_thenS evolves_eachS evolves_stepS evolves_recordS evolves_jointS evolves_read_exact

lemma evolves_socket_write: "evolves R (socket_write E bs)"
  unfolding socket_write_def by (intro evolves_rules sending)

lemma evolves_write_header: "evolves R (write_single_header E h)"
  unfolding write_single_header_def by (rule evolves_socket_write)

lemma evolves_read_header: "evolves R read_single_header"
  unfolding read_single_header_def by (intro evolves_rules) (auto intro!: evolves_rules split: prod.splits)

lemma evolves_expect_header: "evolves R (expect_header h)"
  unfolding expect_header_def by (intro evolves_rules evolves_read_header)

lemma evolves_need_circuit: "evolves R (need_circuit c)"
  unfolding need_circuit_def by (intro evolves_rules)

lemma evolves_deref_circuit: "evolves R (deref_circuit c)"
  unfolding deref_circuit_def by (intro evolves_rules)

lemmas evolves_ops = evolves_rules evolves_socket_write evolves_write_header evolves_read_header
  evolves_expect_header evolves_need_circuit evolves_deref_circuit

end

text \<open>The operations on records change only a part of the server.\<close>

definition record_part_only :: "server \<Rightarrow> server \<Rightarrow> bool" where
  "record_part_only s t \<longleftrightarrow> t = s\<lparr>sv_traffic_key_shares := sv_traffic_key_shares t,
     sv_client_gcm_powers := sv_client_gcm_powers t, sv_server_gcm_powers := sv_server_gcm_powers t,
     sv_key_commitment := sv_key_commitment t, sv_epoch := sv_epoch t, sv_key_committed := sv_key_committed t,
     sv_key_released := sv_key_released t, sv_attested_ct := sv_attested_ct t, sv_encrypted_ct := sv_encrypted_ct t,
     sv_encrypt_aad := sv_encrypt_aad t, sv_encrypt_ct_len := sv_encrypt_ct_len t,
     sv_encrypted_seqs := sv_encrypted_seqs t, sv_verified_seqs := sv_verified_seqs t\<rparr>"

lemma record_part_onlyE:
  assumes "record_part_only s t"
  obtains k c v d e kc kr a ct aad n es vs where "t = s\<lparr>sv_traffic_key_shares := k,
     sv_client_gcm_powers := c, sv_server_gcm_powers := v, sv_key_commitment := d, sv_epoch := e, sv_key_committed := kc,
     sv_key_released := kr, sv_attested_ct := a, sv_encrypted_ct := ct, sv_encrypt_aad := aad, sv_encrypt_ct_len := n,
     sv_encrypted_seqs := es, sv_verified_seqs := vs\<rparr>"
  using that [OF assms [unfolded record_part_only_def]] .

locale record_evolution = evolution +
  assumes records: "record_part_only s t \<Longrightarrow> R s t"
    and every: "ok e"
begin

lemma evolves_record_update: "(\<And>s. record_part_only s (f s)) \<Longrightarrow> evolves R (modifyS f)"
  by (intro evolves_modifyS records)

lemma evolves_read_vfy_message: "evolves R read_vfy_message"
  unfolding read_vfy_message_def Let_def by (intro evolves_ops)

lemma evolves_read_dims: "evolves R (read_dims n)"
  by (induction n) (auto simp: read_record_dims_def Let_def intro!: evolves_ops)

lemmas evolves_record_ops = evolves_ops every evolves_record_update evolves_read_vfy_message evolves_read_dims

lemma evolves_serve_op:
  assumes "serve_op E b = Some op"
  shows "evolves R op"
proof -
  have "evolves R (encrypt_blocks E)" "evolves R (make_gcm_tag E)"
    unfolding encrypt_blocks_def enc_batch_op_def make_gcm_tag_def Let_def
    by (intro evolves_record_ops; simp add: record_part_only_def)+
  moreover have "evolves R (verify_gcm_tag E)"
    unfolding verify_gcm_tag_def judge_tag_def accept_masked_def accept_committed_def
    by (intro evolves_record_ops; auto simp: record_part_only_def intro!: evolves_record_ops)
  moreover have "evolves R (derive_keystream_blocks E)"
    unfolding derive_keystream_blocks_def ks_batch_op_def Let_def by (auto intro!: evolves_record_ops)
  moreover have "evolves R read_key_commitment" "evolves R (release_key E)"
    unfolding read_key_commitment_def release_key_def
    by (intro evolves_record_ops; simp add: record_part_only_def)+
  moreover have "evolves R (rotate_key_op E)"
    unfolding rotate_key_op_def rotate_apply_def Let_def by (intro evolves_record_ops; simp add: record_part_only_def)
  ultimately show ?thesis using assms by (auto simp: serve_op_def split: if_splits)
qed

end

text \<open>What every action respects: nothing is put back into the stream, the mode stays, the trace grows.\<close>

definition later :: "server \<Rightarrow> server \<Rightarrow> bool" where
  "later s t \<longleftrightarrow> rx_len (sv_rx t) \<le> rx_len (sv_rx s) \<and> sv_mode t = sv_mode s \<and> sv_true_surf t = sv_true_surf s \<and>
     sv_retain_ct t = sv_retain_ct s \<and> sv_should_attest t = sv_should_attest s \<and>
     (\<exists>es. sv_trace t = sv_trace s @ es)"

interpretation later: record_evolution later "\<lambda>_. True"
proof unfold_locales
  show "later s t" if "record_part_only s t" for s t
    using that by (rule record_part_onlyE) (simp add: later_def)
qed (auto simp: later_def)

lemma read_header_consumes:
  assumes "read_single_header s = (Returned b, t)"
  shows "rx_len (sv_rx t) < rx_len (sv_rx s)" "is_valid_header b" "\<exists>rx. t = s\<lparr>sv_rx := rx\<rparr>"
proof -
  obtain buf u where r: "read_exact_blocking 1 s = (Returned buf, u)"
    using assms by (auto simp: read_single_header_def bindS_def split: prod.splits outcome.splits)
  then obtain rx where loop: "ssl_read_loop 1 (sv_rx s) [] = Some (buf, rx)" and u: "u = s\<lparr>sv_rx := rx\<rparr>"
    by (auto simp: read_exact_blocking_def split: option.splits)
  have "1 \<le> length (ssl_content (sv_rx s))"
    using loop ssl_read_loop_short [of "sv_rx s" 1 "[]"] by (metis not_less option.distinct(1))
  from ssl_read_loop_enough [OF this, of "[]"] loop
  have "rx_len rx < rx_len (sv_rx s)" using \<open>1 \<le> _\<close> by (auto simp: rx_len_def)
  moreover have "t = u \<and> is_valid_header b"
    using assms r by (auto simp: read_single_header_def bindS_def thenS_def optionS_def checkS_def returnS_def
        split: prod.splits outcome.splits option.splits if_splits)
  ultimately show "rx_len (sv_rx t) < rx_len (sv_rx s)" "is_valid_header b" "\<exists>rx. t = s\<lparr>sv_rx := rx\<rparr>"
    using u by auto
qed

section \<open>The loops\<close>

text \<open>Every round consumes a header, so both loops end.\<close>

function attest :: "env \<Rightarrow> unit action" where
  "attest E s =
     (case read_single_header s of
        (Returned b, t) \<Rightarrow>
          if b = header_byte H_STOP then (Returned (), t)
          else (case serve_op E b of
                  None \<Rightarrow> (Refused, t)
                | Some op \<Rightarrow>
                    (case op t of
                       (Returned _, u) \<Rightarrow> attest E u
                     | (Refused, u) \<Rightarrow> (Refused, u)
                     | (Aborted, u) \<Rightarrow> (Aborted, u)))
      | (Refused, t) \<Rightarrow> (Refused, t)
      | (Aborted, t) \<Rightarrow> (Aborted, t))"
  by pat_completeness auto

lemma round_consumes:
  assumes "read_single_header s = (Returned b, t)" "serve_op E b = Some op" "op t = (r, u)"
  shows "rx_len (sv_rx u) < rx_len (sv_rx s)"
proof -
  have "later t u" using later.evolves_serve_op [OF assms(2)] assms(3) by (metis evolves_def snd_conv)
  then show ?thesis using read_header_consumes(1) [OF assms(1)] by (simp add: later_def)
qed

termination attest
  by (relation "measure (\<lambda>(E, s). rx_len (sv_rx s))") (auto intro: round_consumes [OF sym _ sym])

function read_header_draining_encryption :: "env \<Rightarrow> byte action" where
  "read_header_draining_encryption E s =
     (case read_single_header s of
        (Returned b, t) \<Rightarrow>
          (case serve_op E b of
             None \<Rightarrow> (Returned b, t)
           | Some op \<Rightarrow>
               (case op t of
                  (Returned _, u) \<Rightarrow> read_header_draining_encryption E u
                | (Refused, u) \<Rightarrow> (Refused, u)
                | (Aborted, u) \<Rightarrow> (Aborted, u)))
      | (Refused, t) \<Rightarrow> (Refused, t)
      | (Aborted, t) \<Rightarrow> (Aborted, t))"
  by pat_completeness auto
termination
  by (relation "measure (\<lambda>(E, s). rx_len (sv_rx s))") (auto intro: round_consumes [OF sym _ sym])

declare attest.simps [simp del] read_header_draining_encryption.simps [simp del]

text \<open>The second loop is the first, ended by one particular header.\<close>

lemma serve_op_stop [simp]: "serve_op E 28 = None"
  by (simp add: serve_op_def)

lemma attest_eq: "attest E s = bindS (read_header_draining_encryption E) (\<lambda>b. checkS (b = header_byte H_STOP)) s"
proof (induction E s rule: attest.induct)
  case (1 E s)
  obtain r t where h: "read_single_header s = (r, t)" by fastforce
  show ?case
  proof (cases r)
    case (Returned b)
    show ?thesis
    proof (cases "b = header_byte H_STOP \<or> serve_op E b = None")
      case True
      then show ?thesis using h Returned
        by (subst attest.simps) (auto simp: bindS_def checkS_def read_header_draining_encryption.simps [of E s])
    next
      case False
      then obtain op where op: "serve_op E b = Some op" by auto
      obtain q u where u: "op t = (q, u)" by fastforce
      have "attest E u = bindS (read_header_draining_encryption E) (\<lambda>b. checkS (b = header_byte H_STOP)) u" if "q = Returned ()"
        using 1 [OF h [symmetric] Returned _ op u [symmetric] that] False by blast
      then show ?thesis using h Returned False op u
        by (cases q) (simp_all add: attest.simps [of E s] read_header_draining_encryption.simps [of E s] bindS_def del: header_byte.simps)
    qed
  qed (use h in \<open>simp_all add: attest.simps [of E s] read_header_draining_encryption.simps [of E s] bindS_def\<close>)
qed

text \<open>Induction over the rounds of the loop.\<close>

lemma drain_cases:
  obtains (failed) r t where "read_single_header s = (r, t)" "\<nexists>b. r = Returned b"
      "read_header_draining_encryption E s = (case r of Refused \<Rightarrow> Refused | _ \<Rightarrow> Aborted, t)"
  | (returned) b t where "read_single_header s = (Returned b, t)" "serve_op E b = None"
      "read_header_draining_encryption E s = (Returned b, t)"
  | (ended) b t op r u where "read_single_header s = (Returned b, t)" "serve_op E b = Some op" "op t = (r, u)"
      "r \<noteq> Returned ()" "read_header_draining_encryption E s = (case r of Refused \<Rightarrow> Refused | _ \<Rightarrow> Aborted, u)"
  | (continued) b t op u where "read_single_header s = (Returned b, t)" "serve_op E b = Some op" "op t = (Returned (), u)"
      "read_header_draining_encryption E s = read_header_draining_encryption E u"
proof (cases "read_single_header s")
  case (Pair r t)
  show thesis
  proof (cases r)
    case (Returned b)
    show thesis
    proof (cases "serve_op E b")
      case None
      then show thesis using Pair Returned returned [of b t] by (simp add: read_header_draining_encryption.simps [of E s])
    next
      case (Some op)
      obtain q u where "op t = (q, u)" by fastforce
      then show thesis
        using Pair Returned Some ended [of b t op q u] continued [of b t op u]
        by (cases q) (simp_all add: read_header_draining_encryption.simps [of E s])
    qed
  qed (use Pair failed [of r t] in \<open>simp_all add: read_header_draining_encryption.simps [of E s]\<close>)
qed

context evolution
begin

lemma evolves_drain_if:
  assumes ops: "\<And>b op. serve_op E b = Some op \<Longrightarrow> evolves R op"
  shows "evolves R (read_header_draining_encryption E)"
  unfolding evolves_def
proof
  fix s
  show "R s (snd (read_header_draining_encryption E s))"
  proof (induction "rx_len (sv_rx s)" arbitrary: s rule: less_induct)
    case less
    have hdr: "R s t" if "read_single_header s = (r, t)" for r t
      using that evolves_read_header by (metis evolves_def snd_conv)
    have op: "R t u" if "serve_op E b = Some op" "op t = (r, u)" for b op r t u
      using that ops by (metis evolves_def snd_conv)
    show ?case
    proof (cases rule: drain_cases [where s = s and E = E])
      case (continued b t op u)
      have "R u (snd (read_header_draining_encryption E u))"
        by (rule less) (rule round_consumes [OF continued(1-3)])
      then show ?thesis
        using continued(4) R_trans [OF R_trans [OF hdr [OF continued(1)] op [OF continued(2,3)]]] by simp
    qed (use hdr op R_trans in auto)
  qed
qed

lemma evolves_attest_if:
  assumes "\<And>b op. serve_op E b = Some op \<Longrightarrow> evolves R op"
  shows "evolves R (attest E)"
proof -
  have "evolves R (bindS (read_header_draining_encryption E) (\<lambda>b. checkS (b = header_byte H_STOP)))"
    by (intro evolves_bindS evolves_drain_if evolves_checkS assms)
  then show ?thesis by (simp add: evolves_def attest_eq)
qed

end

context record_evolution
begin

lemmas evolves_drain = evolves_drain_if [OF evolves_serve_op]
  and evolves_attest = evolves_attest_if [OF evolves_serve_op]

end

end
