(* ===== verification/Server_Run.thy ===== *)
theory Server_Run
  imports Server_Ops
begin

text \<open>
  The handlers of the verifier's states (nodes/Server.cpp), from the connection of a prover to the shutdown,
  and the two drivers that walk through the states: one that follows the state a handler leaves behind,
  one that follows the list of the resumption.
\<close>

section \<open>Handlers of the connection and the key shares\<close>

definition server_accept :: "env \<Rightarrow> unit action" where
  "server_accept E =
     bindS (optionS (e_connection E)) (\<lambda>rx. thenS (modifyS (\<lambda>s. s\<lparr>sv_rx := rx\<rparr>)) advance)"

definition handshake_done_impl :: "env \<Rightarrow> unit action" where
  "handshake_done_impl E = write_single_header E H_DONE_HS"

text \<open>Both handlers hand the whole buffer over, not only what was read into it.\<close>

definition unpack_collect :: "unit action" where
  "unpack_collect =
     bindS (withS (\<lambda>s. optionS (unpack_key_bytes (sv_buffer s)))) (\<lambda>(header, key).
     thenS (modifyS (\<lambda>s. s\<lparr>sv_client_public_key := key\<rparr>))
     (checkS (header = header_byte H_COLLECT)))"

definition write_handshake_done :: "env \<Rightarrow> unit action" where
  "write_handshake_done E = withS (\<lambda>s.
     if pending s \<noteq> 0
     then bindS read_buffer (\<lambda>n. thenS (handshake_done_impl E) (thenS unpack_collect (goto S_MAKING_KS)))
     else thenS (handshake_done_impl E) (goto S_CIRCUIT_PREPROC))"

definition server_do_handshake :: "env \<Rightarrow> unit action" where
  "server_do_handshake E =
     thenS (checkS (e_ssl_accept E))
     (withS (\<lambda>s.
        if pending s = 0 then goto S_HANDSHAKE_DONE
        else thenS (goto S_READING_KS) (bindS read_buffer (\<lambda>n.
               thenS (write_handshake_done E) (thenS unpack_collect (goto S_MAKING_KS))))))"

text \<open>A circuit is built, and preprocessed if it could be built.\<close>

definition preproc_circuit :: "env \<Rightarrow> circuit \<Rightarrow> unit action" where
  "preproc_circuit E c = stepS (\<lambda>k.
     thenS (modifyS (\<lambda>s. s\<lparr>sv_circuits := (sv_circuits s)(c := e_built E k)\<rparr>))
     (checkS (e_built E k \<longrightarrow> e_preproc E k)))"

definition preproc_list :: "SurfMode \<Rightarrow> bool \<Rightarrow> circuit list" where
  "preproc_list mode true_surf =
     [C_HS0, C_TRAFFIC, C_GCM, C_RES, C_PSK, C_PSK_8, C_PSK_0, C_BINDER, C_GCM_VFY] @
     (if true_surf then [] else [C_KS_BLOCK]) @ [C_AES_ENC, C_GCM_TAG] @
     (if mode = Rotate then [C_ROTATE] else [])"

definition server_do_preproc :: "env \<Rightarrow> bool \<Rightarrow> unit action" where
  "server_do_preproc E should_preproc =
     (if \<not> should_preproc then goto S_READING_KS
      else thenS (withS (\<lambda>s. eachS (preproc_circuit E) (preproc_list (sv_mode s) (sv_true_surf s)))) advance)"

definition read_mask_commitments :: "unit action" where
  "read_mask_commitments = withS (\<lambda>s.
     if sv_true_surf s then advance
     else thenS (expect_header H_MASK_COMMITMENTS)
       (bindS (read_exact_blocking 32) (\<lambda>d. thenS (modifyS (\<lambda>s. s\<lparr>sv_mask_commitment := d\<rparr>)) advance)))"

text \<open>The message of a key share is one record.\<close>

definition read_keyshare :: "byte action" where
  "read_keyshare =
     bindS read_buffer (\<lambda>nr_bytes.
     bindS (withS (\<lambda>s. optionS (unpack_key_bytes (take nr_bytes (sv_buffer s))))) (\<lambda>(header, out).
     thenS (modifyS (\<lambda>s. s\<lparr>sv_client_public_key := out\<rparr>)) (returnS header)))"

definition read_keyshare_after_handshake :: "unit action" where
  "read_keyshare_after_handshake =
     bindS read_keyshare (\<lambda>header. thenS (checkS (header = header_byte H_COLLECT)) (goto (next_state S_READING_KS)))"

definition read_sks_keyshare :: "unit action" where
  "read_sks_keyshare =
     bindS read_keyshare (\<lambda>header. thenS (checkS (header = header_byte H_SERVER_KEY_SHARE)) advance)"

definition share_op :: "env \<Rightarrow> nat \<Rightarrow> 16 word \<Rightarrow> bytes \<Rightarrow> unit action" where
  "share_op E i grp key = stepS (\<lambda>n. (\<lambda>s.
     let (ok, k) = kh_create_new_share (e_ec E) (e_private E n) grp key (sv_key_shares s ! i)
     in (if ok then Returned () else Refused, s\<lparr>sv_key_shares := (sv_key_shares s)[i := k]\<rparr>)))"

definition create_new_share :: "env \<Rightarrow> unit action" where
  "create_new_share E =
     bindS (withS (\<lambda>s. optionS (CBS_get_u16 (sv_client_public_key s)))) (\<lambda>(group0, cbs).
     bindS (optionS (CBS_get_u16_length_prefixed cbs)) (\<lambda>(key0, cbs).
     thenS (share_op E 0 group0 key0)
     (if cbs = [] then advance
      else bindS (optionS (CBS_get_u16 cbs)) (\<lambda>(group1, cbs).
           bindS (optionS (CBS_get_u16_length_prefixed cbs)) (\<lambda>(key1, cbs).
           thenS (share_op E 1 group1 key1) (thenS (checkS (cbs = [])) advance))))))"

definition get_additive_share :: "server \<Rightarrow> bytes" where
  "get_additive_share s = kh_additive_share (sv_key_shares s ! 0) @ kh_additive_share (sv_key_shares s ! 1)"

definition get_public_key :: "server \<Rightarrow> bytes" where
  "get_public_key s = kh_public_key (sv_key_shares s ! 0) @ kh_public_key (sv_key_shares s ! 1)"

definition send_additive_share :: "env \<Rightarrow> unit action" where
  "send_additive_share E =
     thenS (modifyS (\<lambda>s. s\<lparr>sv_additive_share := get_additive_share s\<rparr>))
     (bindS (withS (\<lambda>s. optionS (pack_key_bytes H_OK (sv_additive_share s)))) (\<lambda>bs.
      thenS (socket_write E bs) advance))"

definition do_psk_binder :: "env \<Rightarrow> unit action" where
  "do_psk_binder E = withS (\<lambda>s.
     if \<not> sv_is_resumption_run s then advance
     else thenS (expect_header H_DERIVE_BINDER)
       (thenS (need_circuit C_BINDER)
       (bindS (withS (\<lambda>s. jointS (e_binder E) Ran_binder (sv_PSK_share s))) (\<lambda>out.
        thenS (modifyS (\<lambda>s. s\<lparr>sv_circuits := (sv_circuits s)(C_BINDER := False)\<rparr>)) advance))))"

definition finish_tph :: "env \<Rightarrow> unit action" where
  "finish_tph E = withS (\<lambda>s.
     thenS (checkS (sv_client_public_key s \<noteq> []))
     (bindS (optionS (deinitialise_cbb_for_ec_point_data (sv_client_public_key s))) (\<lambda>(group_id, key).
      bindS (optionS (find (\<lambda>i. kh_group_id (sv_key_shares s ! i) = group_id) [0..<2])) (\<lambda>active. (\<lambda>s.
        let s = s\<lparr>sv_active_key_share := active\<rparr>;
            (ok, k) = kh_finish (e_ec E) key (sv_key_shares s ! active);
            s = s\<lparr>sv_key_shares := (sv_key_shares s)[active := k]\<rparr>
        in if ok then goto S_WRITING_HS_RECV s else (Refused, s))))))"

definition write_hs_recv :: "env \<Rightarrow> unit action" where
  "write_hs_recv E = thenS (withS (\<lambda>s. assertS (pending s = 0))) (thenS (write_single_header E H_HS_RECV) advance)"

section \<open>Handlers of the key schedule\<close>

definition do_ectf :: "env \<Rightarrow> unit action" where
  "do_ectf E =
     bindS read_single_header (\<lambda>mode.
     thenS (checkS (mode = header_byte H_HS_MODE_FULL \<or> mode = header_byte H_HS_MODE_RESUMED))
     (thenS (modifyS (\<lambda>s. s\<lparr>sv_resumed_handshake := (mode = header_byte H_HS_MODE_RESUMED)\<rparr>))
     (thenS (expect_header H_DO_ECTF)
     (bindS (withS (\<lambda>s. let k = sv_key_shares s ! sv_active_key_share s
        in jointS (e_ectf E) (\<lambda>(x, y, g). Ran_ectf x y) (kh_out_secret k, kh_out_other_secret k, kh_group_id k))) (\<lambda>x.
      thenS (modifyS (\<lambda>s. s\<lparr>sv_x_secret := x\<rparr>)) advance)))))"

definition finish_ectf :: "env \<Rightarrow> unit action" where
  "finish_ectf E = thenS (write_single_header E H_ECTF_DONE) advance"

definition handshake_circuit :: "nat \<Rightarrow> circuit" where
  "handshake_circuit i = (if i = 0 then C_HS0 else C_HS1)"

definition do_ks :: "env \<Rightarrow> unit action" where
  "do_ks E = withS (\<lambda>s.
     let psk_share = if sv_resumed_handshake s then sv_PSK_share s else replicate 16 0;
         c = handshake_circuit (sv_active_key_share s) in
     thenS (deref_circuit c)
     (bindS (jointS (e_handshake E) Ran_handshake (sv_x_secret s, psk_share)) (\<lambda>out.
      thenS (modifyS (\<lambda>s. s\<lparr>sv_handshake_key_shares := out, sv_circuits := (sv_circuits s)(c := False)\<rparr>)) advance)))"

definition write_ks_done :: "env \<Rightarrow> unit action" where
  "write_ks_done E = thenS (write_single_header E H_KS_DONE) advance"

text \<open>The body of the read loop; a read that would have to wait is a failure.\<close>

definition read_transcript_chunk :: "env \<Rightarrow> unit action" where
  "read_transcript_chunk E =
     thenS (stepS (\<lambda>k. withS (\<lambda>s. checkS (pending s \<noteq> 0 \<or> e_read_ready E k))))
     (bindS read_buffer (\<lambda>n. modifyS (\<lambda>s. s\<lparr>sv_transcript := sv_transcript s @ take n (sv_buffer s)\<rparr>)))"

lemma read_buffer_consumes:
  assumes "read_buffer s = (Returned n, t)"
  shows "rx_len (sv_rx t) < rx_len (sv_rx s)"
    "\<exists>rx buf. t = s\<lparr>sv_rx := rx, sv_buffer := buf\<rparr> \<and> length buf = length (sv_buffer s)"
proof -
  obtain bs rx where r: "SSL_read (length (sv_buffer s)) (sv_rx s) = Some (bs, rx)"
    and t: "t = s\<lparr>sv_rx := rx, sv_buffer := bs @ drop (length bs) (sv_buffer s)\<rparr>"
    using assms by (auto simp: read_buffer_def split: option.splits)
  note f = SSL_read_Some [OF r]
  then show "rx_len (sv_rx t) < rx_len (sv_rx s)" by (simp add: t rx_len_def)
  show "\<exists>rx buf. t = s\<lparr>sv_rx := rx, sv_buffer := buf\<rparr> \<and> length buf = length (sv_buffer s)"
    using f by (intro exI [of _ rx] exI [of _ "bs @ drop (length bs) (sv_buffer s)"]) (simp add: t)
qed

lemma transcript_chunk_consumes:
  assumes "read_transcript_chunk E s = (Returned u, t)"
  shows "rx_len (sv_rx t) < rx_len (sv_rx s)"
proof -
  let ?s = "s\<lparr>sv_steps := Suc (sv_steps s)\<rparr>"
  obtain n v where "read_buffer ?s = (Returned n, v)" "sv_rx t = sv_rx v"
    using assms by (auto simp: read_transcript_chunk_def thenS_def bindS_def stepS_def withS_def checkS_def modifyS_def
        split: prod.splits outcome.splits if_splits)
  then show ?thesis using read_buffer_consumes(1) by fastforce
qed

function read_transcript_rest :: "env \<Rightarrow> unit action" where
  "read_transcript_rest E s =
     (case read_transcript_chunk E s of
        (Returned _, t) \<Rightarrow> if pending t \<noteq> 0 then read_transcript_rest E t else (Returned (), t)
      | (Refused, t) \<Rightarrow> (Refused, t)
      | (Aborted, t) \<Rightarrow> (Aborted, t))"
  by pat_completeness auto
termination
  by (relation "measure (\<lambda>(E, s). rx_len (sv_rx s))") (auto intro: transcript_chunk_consumes [OF sym])

declare read_transcript_rest.simps [simp del]

definition read_transcript_data :: "env \<Rightarrow> MessageHeaders \<Rightarrow> unit action" where
  "read_transcript_data E target_header =
     thenS (expect_header target_header)
     (thenS (if target_header = H_TRANSCRIPT_INIT
             then bindS read_single_u16 (\<lambda>version. bindS read_single_u16 (\<lambda>cipher_suite.
                    modifyS (\<lambda>s. s\<lparr>sv_version := version, sv_cipher_suite := cipher_suite\<rparr>)))
             else returnS ())
     (bindS read_single_u64 (\<lambda>size.
      thenS (if target_header = H_CERTIFICATE_CTX_RECV
             then withS (\<lambda>s. checkS (word_of_nat (pending s) = (ucast (size + 32) :: 32 word)))
             else returnS ())
      (read_transcript_rest E))))"

definition do_cert_wait :: "env \<Rightarrow> unit action" where
  "do_cert_wait E = withS (\<lambda>s.
     if sv_resumed_handshake s then advance
     else thenS (read_transcript_data E H_CERTIFICATE_CTX_SEND)
       (thenS (withS (\<lambda>s. checkS (length (sv_transcript s) \<ge> 32)))
       (thenS (modifyS (\<lambda>s. let n = length (sv_transcript s) - 32
          in s\<lparr>sv_server_key_comm := drop n (sv_transcript s), sv_transcript := take n (sv_transcript s)\<rparr>)) advance)))"

definition write_cert_recv :: "env \<Rightarrow> unit action" where
  "write_cert_recv E =
     thenS (withS (\<lambda>s. socket_write E (header_byte H_CERTIFICATE_CTX_RECV #
        ho_CHTS_share (sv_handshake_key_shares s) @ ho_SHTS_share (sv_handshake_key_shares s)))) advance"

definition derive_ts :: "env \<Rightarrow> unit action" where
  "derive_ts E =
     thenS (expect_header H_DERIVE_TS)
     (thenS (deref_circuit C_TRAFFIC)
     (bindS (withS (\<lambda>s. jointS (e_traffic E) Ran_traffic (ho_MS_share (sv_handshake_key_shares s)))) (\<lambda>k.
      thenS (modifyS (\<lambda>s. s\<lparr>sv_traffic_key_shares := k\<rparr>)) advance)))"

definition derive_gcm_shares :: "env \<Rightarrow> unit action" where
  "derive_gcm_shares E =
     thenS (expect_header H_GCM_SHARE_START)
     (thenS (deref_circuit C_GCM)
     (bindS (withS (\<lambda>s. jointS (e_gcm_share E) Ran_gcm_share (tk_client_key_share (sv_traffic_key_shares s)))) (\<lambda>c.
      thenS (modifyS (\<lambda>s. s\<lparr>sv_client_gcm_powers := c\<rparr>))
      (bindS (withS (\<lambda>s. jointS (e_gcm_share E) Ran_gcm_share (tk_server_key_share (sv_traffic_key_shares s)))) (\<lambda>v.
       thenS (modifyS (\<lambda>s. s\<lparr>sv_server_gcm_powers := v\<rparr>)) advance)))))"

definition write_completed_derivation :: "env \<Rightarrow> unit action" where
  "write_completed_derivation E = thenS (write_single_header E H_GCM_SHARE_DONE) advance"

definition derive_res :: "env \<Rightarrow> unit action" where
  "derive_res E =
     thenS (expect_header H_DERIVE_RES)
     (thenS (deref_circuit C_RES)
     (bindS (withS (\<lambda>s. jointS (e_resumption E) Ran_resumption (ho_MS_share (sv_handshake_key_shares s)))) (\<lambda>r.
      thenS (modifyS (\<lambda>s. s\<lparr>sv_RMS_share := r\<rparr>)) advance)))"

definition write_completed_res :: "env \<Rightarrow> unit action" where
  "write_completed_res E = thenS (write_single_header E H_RES_DONE) advance"

definition psk_circuit_for :: "byte \<Rightarrow> circuit" where
  "psk_circuit_for header =
     (if header = header_byte H_DERIVE_PSK_0 then C_PSK_0 else if header = header_byte H_DERIVE_PSK_8 then C_PSK_8 else C_PSK)"

definition derive_psk :: "env \<Rightarrow> unit action" where
  "derive_psk E =
     thenS (modifyS (\<lambda>s. s\<lparr>sv_psk_skipped := False\<rparr>))
     (bindS (read_header_draining_encryption E) (\<lambda>header.
      if header = header_byte H_PSK_SKIP
      then thenS (modifyS (\<lambda>s. s\<lparr>sv_psk_skipped := True\<rparr>)) advance
      else thenS (checkS (header = header_byte H_DERIVE_PSK \<or> header = header_byte H_DERIVE_PSK_8 \<or> header = header_byte H_DERIVE_PSK_0))
        (thenS (need_circuit (psk_circuit_for header))
        (bindS (withS (\<lambda>s. jointS (e_psk E) Ran_psk (psk_circuit_for header, sv_RMS_share s))) (\<lambda>p.
         thenS (modifyS (\<lambda>s. s\<lparr>sv_PSK_share := p\<rparr>)) advance)))))"

definition write_completed_psk :: "env \<Rightarrow> unit action" where
  "write_completed_psk E = withS (\<lambda>s.
     if sv_psk_skipped s then advance else thenS (write_single_header E H_PSK_DONE) advance)"

definition server_shutdown :: "unit action" where
  "server_shutdown = goto S_DONE"

section \<open>The drivers\<close>

definition reset_per_connection_state :: "server \<Rightarrow> server" where
  "reset_per_connection_state s = s\<lparr>sv_encrypted_seqs := [], sv_encrypted_ct := [], sv_encrypt_ct_len := 0,
     sv_verified_seqs := [], sv_key_committed := False, sv_key_released := False,
     sv_key_commitment := replicate 32 0, sv_attested_ct := [], sv_epoch := 0\<rparr>"

text \<open>The handler of a state; no state beyond the shutdown has one.\<close>

definition run_state :: "env \<Rightarrow> bool \<Rightarrow> ServerState \<Rightarrow> unit action" where
  "run_state E should_preproc state =
     (case state of
        S_ACCEPT \<Rightarrow> server_accept E
      | S_HANDSHAKE \<Rightarrow> server_do_handshake E
      | S_HANDSHAKE_DONE \<Rightarrow> write_handshake_done E
      | S_READING_KS \<Rightarrow> read_keyshare_after_handshake
      | S_MAKING_KS \<Rightarrow> create_new_share E
      | S_CIRCUIT_PREPROC \<Rightarrow> server_do_preproc E should_preproc
      | S_MASK_COMMIT \<Rightarrow> read_mask_commitments
      | S_WRITING_KS \<Rightarrow> send_additive_share E
      | S_PSK_BINDER \<Rightarrow> do_psk_binder E
      | S_READING_SKS \<Rightarrow> read_sks_keyshare
      | S_FINISHING_TPH \<Rightarrow> finish_tph E
      | S_WRITING_HS_RECV \<Rightarrow> write_hs_recv E
      | S_ECTF_WAIT \<Rightarrow> do_ectf E
      | S_ECTF_DONE \<Rightarrow> finish_ectf E
      | S_KS_WAIT \<Rightarrow> do_ks E
      | S_KS_DONE \<Rightarrow> write_ks_done E
      | S_CERT_WAIT \<Rightarrow> do_cert_wait E
      | S_CERT_RECV \<Rightarrow> write_cert_recv E
      | S_DERIVE_TS \<Rightarrow> derive_ts E
      | S_GCM_SHARE_DERIVE \<Rightarrow> derive_gcm_shares E
      | S_GCM_SHARE_DONE \<Rightarrow> write_completed_derivation E
      | S_DERIVE_RES \<Rightarrow> derive_res E
      | S_RES_DONE \<Rightarrow> write_completed_res E
      | S_DERIVE_PSK \<Rightarrow> derive_psk E
      | S_PSK_DONE \<Rightarrow> write_completed_psk E
      | S_SHUTDOWN \<Rightarrow> withS (\<lambda>s. if sv_should_attest s then thenS (attest E) server_shutdown else server_shutdown)
      | S_DONE \<Rightarrow> assertS False
      | S_SIZE \<Rightarrow> assertS False)"

section \<open>How the handlers change the server\<close>

text \<open>The fields of the handshake, apart from the state, the circuits and the traffic keys.\<close>

definition handshake_part_only :: "server \<Rightarrow> server \<Rightarrow> bool" where
  "handshake_part_only s t \<longleftrightarrow> t = s\<lparr>sv_resumed_handshake := sv_resumed_handshake t, sv_psk_skipped := sv_psk_skipped t,
     sv_version := sv_version t, sv_cipher_suite := sv_cipher_suite t, sv_key_shares := sv_key_shares t,
     sv_active_key_share := sv_active_key_share t, sv_additive_share := sv_additive_share t,
     sv_client_public_key := sv_client_public_key t, sv_buffer := sv_buffer t, sv_x_secret := sv_x_secret t,
     sv_transcript := sv_transcript t, sv_server_key_comm := sv_server_key_comm t,
     sv_handshake_key_shares := sv_handshake_key_shares t, sv_RMS_share := sv_RMS_share t, sv_PSK_share := sv_PSK_share t,
     sv_mask_commitment := sv_mask_commitment t\<rparr>"

lemma handshake_part_onlyE:
  assumes "handshake_part_only s t"
  obtains a b c d e f g h i j k l m n p q where "t = s\<lparr>sv_resumed_handshake := a, sv_psk_skipped := b,
     sv_version := c, sv_cipher_suite := d, sv_key_shares := e, sv_active_key_share := f, sv_additive_share := g,
     sv_client_public_key := h, sv_buffer := i, sv_x_secret := j, sv_transcript := k, sv_server_key_comm := l,
     sv_handshake_key_shares := m, sv_RMS_share := n, sv_PSK_share := p, sv_mask_commitment := q\<rparr>"
  using that [OF assms [unfolded handshake_part_only_def]] .

text \<open>The part of it that holds what has been read.\<close>

definition reading_part_only :: "server \<Rightarrow> server \<Rightarrow> bool" where
  "reading_part_only s t \<longleftrightarrow> t = s\<lparr>sv_version := sv_version t, sv_cipher_suite := sv_cipher_suite t, sv_buffer := sv_buffer t,
     sv_transcript := sv_transcript t, sv_server_key_comm := sv_server_key_comm t\<rparr>"

lemma reading_part_onlyE:
  assumes "reading_part_only s t"
  obtains a b c d e where "t = s\<lparr>sv_version := a, sv_cipher_suite := b, sv_buffer := c, sv_transcript := d, sv_server_key_comm := e\<rparr>"
  using that [OF assms [unfolded reading_part_only_def]] .

locale reading_evolution = evolution +
  assumes reading: "reading_part_only s t \<Longrightarrow> R s t"
begin

lemma evolves_reading_update: "(\<And>s. reading_part_only s (f s)) \<Longrightarrow> evolves R (modifyS f)"
  by (intro evolves_modifyS reading)

lemma evolves_read_buffer: "evolves R read_buffer"
  unfolding evolves_def
proof
  fix s
  show "R s (snd (read_buffer s))"
  proof (cases "SSL_read (length (sv_buffer s)) (sv_rx s)")
    case (Some r)
    obtain bs rx where r: "r = (bs, rx)" by fastforce
    have "rx_len rx \<le> rx_len (sv_rx s)" using SSL_read_Some [OF Some [unfolded r]] by (simp add: rx_len_def)
    then have "R s (s\<lparr>sv_rx := rx\<rparr>)" by (rule read)
    moreover have "R (s\<lparr>sv_rx := rx\<rparr>) (s\<lparr>sv_rx := rx, sv_buffer := bs @ drop (length bs) (sv_buffer s)\<rparr>)"
      by (rule reading) (simp add: reading_part_only_def)
    ultimately show ?thesis using Some r R_trans by (simp add: read_buffer_def)
  qed (simp add: read_buffer_def R_refl)
qed

lemma evolves_read_single_u16: "evolves R read_single_u16" and evolves_read_single_u64: "evolves R read_single_u64"
  unfolding read_single_u16_def read_single_u64_def by (auto intro!: evolves_ops split: prod.splits)

lemma evolves_transcript_rest: "evolves R (read_transcript_rest E)"
proof -
  have chunk: "evolves R (read_transcript_chunk E)"
    unfolding read_transcript_chunk_def
    by (auto simp: reading_part_only_def intro!: evolves_ops evolves_reading_update evolves_read_buffer)
  have "R s (snd (read_transcript_rest E s))" for s
  proof (induction "rx_len (sv_rx s)" arbitrary: s rule: less_induct)
    case less
    obtain r t where c: "read_transcript_chunk E s = (r, t)" by fastforce
    then have st: "R s t" using chunk by (metis evolves_def snd_conv)
    have "R t (snd (read_transcript_rest E t))" if "r = Returned ()"
      using c that by (intro less transcript_chunk_consumes) simp
    then show ?case
      using c st R_trans by (cases r) (auto simp: read_transcript_rest.simps [of E s])
  qed
  then show ?thesis by (simp add: evolves_def)
qed

lemma evolves_transcript_data: "evolves R (read_transcript_data E h)"
  unfolding read_transcript_data_def
  by (auto simp: reading_part_only_def intro!: evolves_ops evolves_reading_update evolves_transcript_rest
      evolves_read_single_u16 evolves_read_single_u64)

end

locale handshake_evolution = evolution +
  assumes handshake: "handshake_part_only s t \<Longrightarrow> R s t"

sublocale handshake_evolution \<subseteq> reading_evolution
proof unfold_locales
  show "R s t" if "reading_part_only s t" for s t
    using that by (rule reading_part_onlyE) (auto intro!: handshake simp: handshake_part_only_def)
qed

context handshake_evolution
begin

lemma evolves_handshake_update: "(\<And>s. handshake_part_only s (f s)) \<Longrightarrow> evolves R (modifyS f)"
  by (intro evolves_modifyS handshake)

lemmas evolves_handshake_ops = evolves_ops evolves_handshake_update evolves_read_buffer

lemma evolves_unpack_collect: "evolves R unpack_collect"
  unfolding unpack_collect_def by (auto simp: handshake_part_only_def intro!: evolves_handshake_ops split: prod.splits)

lemma evolves_read_keyshare: "evolves R read_keyshare"
  unfolding read_keyshare_def by (auto simp: handshake_part_only_def intro!: evolves_handshake_ops split: prod.splits)

lemma evolves_share_op: "evolves R (share_op E i grp key)"
  unfolding share_op_def
  by (rule evolves_stepS) (auto simp: evolves_def Let_def handshake_part_only_def intro!: handshake split: prod.splits)

lemmas evolves_handlers = evolves_handshake_ops evolves_unpack_collect evolves_read_keyshare evolves_share_op
  evolves_transcript_data

end

section \<open>Progress\<close>

text \<open>A handler that returns leaves the server in a later state.\<close>

definition same_state :: "server \<Rightarrow> server \<Rightarrow> bool" where
  "same_state s t \<longleftrightarrow> sv_state t = sv_state s"

interpretation same_state: record_evolution same_state "\<lambda>_. True"
proof unfold_locales
  show "same_state s t" if "record_part_only s t" for s t
    using that by (rule record_part_onlyE) (simp add: same_state_def)
qed (simp_all add: same_state_def)

interpretation same_state: handshake_evolution same_state "\<lambda>_. True"
proof unfold_locales
  show "same_state s t" if "handshake_part_only s t" for s t
    using that by (rule handshake_part_onlyE) (simp add: same_state_def)
qed

definition moves :: "'a action \<Rightarrow> ServerState \<Rightarrow> ServerState set \<Rightarrow> bool" where
  "moves m st T \<longleftrightarrow> (\<forall>s x t. sv_state s = st \<longrightarrow> m s = (Returned x, t) \<longrightarrow> sv_state t \<in> T)"

lemma moves_advance: "next_state st \<in> T \<Longrightarrow> moves advance st T"
  by (auto simp: moves_def advance_def modifyS_def)

lemma moves_goto: "st' \<in> T \<Longrightarrow> moves (goto st') st T"
  by (auto simp: moves_def goto_def modifyS_def)

lemma moves_withS: "(\<And>s. moves (f s) st T) \<Longrightarrow> moves (withS f) st T"
  unfolding moves_def withS_def by blast

lemma moves_assert_False: "moves (assertS False) st T"
  by (simp add: moves_def assertS_def)

lemma moves_bindS:
  assumes m: "evolves same_state m" and f: "\<And>x. moves (f x) st T"
  shows "moves (bindS m f) st T"
  unfolding moves_def
proof (intro allI impI)
  fix s x t
  assume st: "sv_state s = st" and eq: "bindS m f s = (Returned x, t)"
  obtain r u where u: "m s = (r, u)" by fastforce
  have "sv_state u = st" using m u st by (metis evolves_def same_state_def snd_conv)
  with eq u f show "sv_state t \<in> T" by (cases r) (auto simp: bindS_def moves_def)
qed

lemma moves_thenS: "evolves same_state m \<Longrightarrow> moves n st T \<Longrightarrow> moves (thenS m n) st T"
  unfolding thenS_def by (rule moves_bindS)

lemma moves_before:
  assumes "moves m st T" "\<And>x. evolves same_state (f x)"
  shows "moves (bindS m f) st T"
  unfolding moves_def
proof (intro allI impI)
  fix s x t
  assume st: "sv_state s = st" and eq: "bindS m f s = (Returned x, t)"
  obtain r u where u: "m s = (r, u)" by fastforce
  with eq obtain y where y: "r = Returned y" "f y u = (Returned x, t)" by (cases r) (auto simp: bindS_def)
  have "sv_state t = sv_state u" using assms(2) [of y] y(2) by (metis evolves_def same_state_def snd_conv)
  with assms(1) st u y show "sv_state t \<in> T" by (auto simp: moves_def)
qed

text \<open>For a sequence whose last action decides alone.\<close>

lemma moves_thenS_any:
  assumes "\<And>st'. moves n st' T"
  shows "moves (thenS m n) st T"
  unfolding moves_def
proof (intro allI impI)
  fix s x t
  assume eq: "thenS m n s = (Returned x, t)"
  obtain r u where "m s = (r, u)" by fastforce
  with eq assms [of "sv_state u"] show "sv_state t \<in> T" by (cases r) (auto simp: thenS_def bindS_def moves_def)
qed

lemmas moves_rules = moves_withS moves_assert_False moves_bindS moves_thenS same_state.evolves_handlers
  same_state.evolves_drain same_state.evolves_attest

text \<open>The graph of the states: most handlers pass to the next state, four choose.\<close>

definition successors :: "ServerState \<Rightarrow> ServerState set" where
  "successors st =
     (case st of
        S_HANDSHAKE \<Rightarrow> {S_HANDSHAKE_DONE, S_MAKING_KS}
      | S_HANDSHAKE_DONE \<Rightarrow> {S_CIRCUIT_PREPROC, S_MAKING_KS}
      | S_CIRCUIT_PREPROC \<Rightarrow> {S_MASK_COMMIT, S_READING_KS}
      | S_DONE \<Rightarrow> {}
      | S_SIZE \<Rightarrow> {}
      | _ \<Rightarrow> {next_state st})"

lemma successors_increase: "t \<in> successors st \<Longrightarrow> state_num st < state_num t"
  by (cases st) (auto simp: successors_def next_state_def server_states_def)

lemma successors_keyed: "t \<in> successors st \<Longrightarrow> state_num st \<le> 17 \<Longrightarrow> state_num t \<le> 18"
  by (cases st) (auto simp: successors_def next_state_def server_states_def)

lemma moves_if: "(c \<Longrightarrow> moves m st T) \<Longrightarrow> (\<not> c \<Longrightarrow> moves n st T) \<Longrightarrow> moves (if c then m else n) st T"
  by simp

lemma moves_finish_tph: "moves (finish_tph E) S_FINISHING_TPH {S_WRITING_HS_RECV}"
  unfolding moves_def finish_tph_def
  by (auto simp: withS_def thenS_def bindS_def checkS_def optionS_def goto_def modifyS_def Let_def
      split: prod.splits outcome.splits option.splits if_splits)

lemma moves_do_handshake: "moves (server_do_handshake E) S_HANDSHAKE {S_HANDSHAKE_DONE, S_MAKING_KS}"
proof -
  have "moves (thenS (goto S_READING_KS) (bindS read_buffer (\<lambda>n.
      thenS (write_handshake_done E) (thenS unpack_collect (goto S_MAKING_KS))))) S_HANDSHAKE {S_HANDSHAKE_DONE, S_MAKING_KS}"
    by (intro moves_thenS_any moves_rules moves_goto) simp
  then show ?thesis unfolding server_do_handshake_def
    by (intro moves_thenS same_state.evolves_checkS moves_withS) (auto intro: moves_goto)
qed

lemma moves_do_preproc: "moves (server_do_preproc E p) S_CIRCUIT_PREPROC {S_MASK_COMMIT, S_READING_KS}"
proof -
  have "evolves same_state (preproc_circuit E c)" for c
    unfolding preproc_circuit_def by (intro same_state.evolves_handlers same_state.evolves_modifyS) (simp add: same_state_def)
  then show ?thesis
    unfolding server_do_preproc_def
    by (intro moves_if moves_rules moves_goto moves_advance) (simp_all add: next_state_def server_states_def)
qed

lemma moves_create_new_share: "next_state st \<in> T \<Longrightarrow> moves (create_new_share E) st T"
  unfolding create_new_share_def
  by (intro moves_rules) (auto intro!: moves_rules moves_advance split: prod.splits)

lemmas handshake_handler_defs = server_accept_def write_handshake_done_def handshake_done_impl_def
  read_keyshare_after_handshake_def read_mask_commitments_def send_additive_share_def do_psk_binder_def
  read_sks_keyshare_def write_hs_recv_def do_ectf_def finish_ectf_def do_ks_def write_ks_done_def do_cert_wait_def
  write_cert_recv_def write_completed_derivation_def derive_res_def write_completed_res_def write_completed_psk_def

lemmas handler_defs = handshake_handler_defs derive_ts_def derive_gcm_shares_def derive_psk_def server_shutdown_def

lemmas moving = moves_withS moves_assert_False moves_bindS moves_thenS moves_if moves_advance
  same_state.evolves_modifyS same_state.evolves_ops same_state.evolves_read_buffer same_state.evolves_unpack_collect
  same_state.evolves_read_keyshare same_state.evolves_transcript_data same_state.evolves_drain

lemma moves_handlers:
  assumes "next_state st \<in> T"
  shows "moves (server_accept E) st T" "moves read_mask_commitments st T" "moves (send_additive_share E) st T"
    "moves (do_psk_binder E) st T" "moves read_sks_keyshare st T" "moves (write_hs_recv E) st T" "moves (do_ectf E) st T"
    "moves (finish_ectf E) st T" "moves (do_ks E) st T" "moves (write_ks_done E) st T" "moves (do_cert_wait E) st T"
    "moves (write_cert_recv E) st T" "moves (derive_ts E) st T" "moves (derive_gcm_shares E) st T"
    "moves (write_completed_derivation E) st T" "moves (derive_res E) st T" "moves (write_completed_res E) st T"
    "moves (derive_psk E) st T" "moves (write_completed_psk E) st T"
  unfolding handler_defs Let_def
  by (intro moving assms; simp add: same_state_def)+

lemma run_state_moves: "moves (run_state E p st) st (successors st)"
proof -
  have "moves (write_handshake_done E) S_HANDSHAKE_DONE {S_CIRCUIT_PREPROC, S_MAKING_KS}"
    "moves read_keyshare_after_handshake S_READING_KS {next_state S_READING_KS}"
    "moves server_shutdown S_SHUTDOWN {next_state S_SHUTDOWN}"
    "moves (withS (\<lambda>s. if sv_should_attest s then thenS (attest E) server_shutdown else server_shutdown)) S_SHUTDOWN
       {next_state S_SHUTDOWN}"
    unfolding handler_defs
    by (intro moving moves_goto same_state.evolves_attest; simp add: next_state_def server_states_def)+
  then show ?thesis
    using moves_finish_tph moves_do_handshake moves_do_preproc moves_create_new_share moves_handlers moves_assert_False
    by (cases st) (simp_all add: run_state_def successors_def next_state_def server_states_def)
qed

lemma run_state_successor:
  assumes "run_state E p (sv_state s) s = (Returned x, t)"
  shows "sv_state t \<in> successors (sv_state s)"
  using assms run_state_moves [of E p "sv_state s"] by (auto simp: moves_def)

lemmas run_state_increases = successors_increase [OF run_state_successor]

lemma state_num_le: "state_num st \<le> 27"
  by (cases st) simp_all

lemma states_left:
  assumes "run_state E p (sv_state s) s = (Returned x, t)"
  shows "27 - state_num (sv_state t) < 27 - state_num (sv_state s)"
  using run_state_increases [OF assms] state_num_le [of "sv_state t"] by simp

section \<open>The drivers\<close>

text \<open>The loop of \<open>run\<close>; \<open>was_successful\<close> is what the last handler returned.\<close>

function server_loop :: "env \<Rightarrow> ServerState \<Rightarrow> bool \<Rightarrow> unit outcome \<Rightarrow> unit action" where
  "server_loop E stop_state should_preproc was_successful s =
     (if should_stop (sv_state s) stop_state then (was_successful, s)
      else (case run_state E should_preproc (sv_state s) s of
              (Returned _, t) \<Rightarrow> server_loop E stop_state should_preproc (Returned ()) t
            | (Refused, t) \<Rightarrow> (Refused, t)
            | (Aborted, t) \<Rightarrow> (Aborted, t)))"
  by pat_completeness auto
termination
  by (relation "measure (\<lambda>(E, stop, p, r, s). 27 - state_num (sv_state s))") (auto dest!: sym [where s = "(Returned u, t)" for u t] intro: states_left)

declare server_loop.simps [simp del]

text \<open>\<open>was_successful\<close> is not initialised; \<open>junk\<close> is what it holds when the loop is not entered.\<close>

definition server_run :: "env \<Rightarrow> ServerState \<Rightarrow> bool \<Rightarrow> bool \<Rightarrow> bool \<Rightarrow> unit action" where
  "server_run E stop_state should_preproc already_accepted junk =
     thenS (if already_accepted then returnS ()
            else modifyS (\<lambda>s. reset_per_connection_state (s\<lparr>sv_state := S_ACCEPT\<rparr>)))
     (thenS (modifyS (\<lambda>s. s\<lparr>sv_is_resumption_run := False\<rparr>))
     (server_loop E stop_state should_preproc (if junk then Returned () else Refused)))"

definition kResumptionStates :: "ServerState list" where
  "kResumptionStates =
     [S_ACCEPT, S_HANDSHAKE, S_HANDSHAKE_DONE, S_CIRCUIT_PREPROC, S_MASK_COMMIT, S_READING_KS, S_MAKING_KS,
      S_WRITING_KS, S_PSK_BINDER, S_READING_SKS, S_FINISHING_TPH, S_WRITING_HS_RECV, S_ECTF_WAIT, S_ECTF_DONE,
      S_KS_WAIT, S_KS_DONE, S_CERT_WAIT, S_CERT_RECV, S_DERIVE_TS, S_GCM_SHARE_DERIVE, S_GCM_SHARE_DONE,
      S_DERIVE_RES, S_RES_DONE, S_DERIVE_PSK, S_PSK_DONE, S_SHUTDOWN]"

primrec resumption_loop :: "env \<Rightarrow> ServerState \<Rightarrow> bool \<Rightarrow> ServerState list \<Rightarrow> unit action" where
  "resumption_loop E stop_state should_preproc [] = returnS ()"
| "resumption_loop E stop_state should_preproc (st # sts) =
     (if should_stop st stop_state then returnS ()
      else thenS (goto st) (thenS (run_state E should_preproc st) (resumption_loop E stop_state should_preproc sts)))"

definition run_resumption :: "env \<Rightarrow> ServerState \<Rightarrow> bool \<Rightarrow> bool \<Rightarrow> unit action" where
  "run_resumption E stop_state should_preproc already_accepted =
     thenS (if already_accepted then returnS () else modifyS reset_per_connection_state)
     (thenS (modifyS (\<lambda>s. s\<lparr>sv_circuits := \<lambda>_. False, sv_is_resumption_run := True\<rparr>))
     (resumption_loop E stop_state should_preproc (if already_accepted then drop 3 kResumptionStates else kResumptionStates)))"

datatype SessionKind = Idle | Full | Resumed

text \<open>A failure is no error here, it means that no prover is being served.\<close>

definition orIdle :: "SessionKind action \<Rightarrow> SessionKind action" where
  "orIdle m = (\<lambda>s. case m s of (Refused, t) \<Rightarrow> (Returned Idle, t) | r \<Rightarrow> r)"

definition accept_front :: "env \<Rightarrow> SessionKind action" where
  "accept_front E =
     thenS (server_accept E)
     (thenS (server_do_handshake E)
     (thenS (withS (\<lambda>s. checkS (sv_state s = S_HANDSHAKE_DONE)))
     (thenS (write_handshake_done E)
     (bindS read_single_header (\<lambda>mode.
      thenS (checkS (mode = header_byte H_RUN_FULL \<or> mode = header_byte H_RUN_RESUMED))
      (returnS (if mode = header_byte H_RUN_RESUMED then Resumed else Full)))))))"

definition accept_and_read_mode :: "env \<Rightarrow> SessionKind action" where
  "accept_and_read_mode E =
     thenS (modifyS (\<lambda>s. (reset_per_connection_state s)\<lparr>sv_state := S_ACCEPT\<rparr>)) (orIdle (accept_front E))"

text \<open>The rounds of a verifier (demo/proxy.b.cpp), one environment for each prover that connects.  When
  none is left, accepting times out.\<close>

definition verifier_round :: "env \<Rightarrow> bool \<Rightarrow> bool action" where
  "verifier_round E junk =
     bindS (accept_and_read_mode E) (\<lambda>kind.
     if kind = Idle then returnS False
     else thenS (if kind = Resumed then run_resumption E S_DONE True True else server_run E S_DONE True True junk)
            (returnS True))"

primrec run_verifier :: "(env \<times> bool) list \<Rightarrow> unit action" where
  "run_verifier [] = returnS ()"
| "run_verifier (r # rs) =
     bindS (verifier_round (fst r) (snd r)) (\<lambda>more. if more then run_verifier rs else returnS ())"

lemma moves_handshake_done: "moves (write_handshake_done E) st {S_CIRCUIT_PREPROC, S_MAKING_KS}"
  unfolding write_handshake_done_def handshake_done_impl_def by (intro moving moves_goto) simp_all

text \<open>The front half leaves the server before the key exchange.\<close>

lemma accept_state:
  assumes "accept_and_read_mode E s = (Returned kind, t)" "kind \<noteq> Idle"
  shows "sv_state t \<in> {S_CIRCUIT_PREPROC, S_MAKING_KS}"
proof -
  have last: "moves (thenS (write_handshake_done E) (bindS read_single_header f)) st {S_CIRCUIT_PREPROC, S_MAKING_KS}"
    if "\<And>x. evolves same_state (f x)" for st and f :: "byte \<Rightarrow> SessionKind action"
    unfolding thenS_def by (intro moves_before moves_handshake_done same_state.evolves_bindS same_state.evolves_read_header that)
  have "moves (accept_front E) st {S_CIRCUIT_PREPROC, S_MAKING_KS}" for st
    unfolding accept_front_def
    by (rule moves_thenS_any, rule moves_thenS_any, rule moves_thenS_any, rule last) (intro same_state.evolves_ops)
  moreover have "accept_front E ((reset_per_connection_state s)\<lparr>sv_state := S_ACCEPT\<rparr>) = (Returned kind, t)"
    using assms by (auto simp: accept_and_read_mode_def orIdle_def split: prod.splits outcome.splits)
  ultimately show ?thesis unfolding moves_def by blast
qed

end
