(* ===== verification/Server_Guard.thy ===== *)
theory Server_Guard
  imports Server_Run
begin

text \<open>
  Safety of a whole session of the verifier.  What an operation on records must respect is a guard: an
  invariant of the server that every operation keeps when it succeeds, and a weaker property that also
  a failed operation leaves behind.  A guard holds through the handlers, the two loops and both drivers;
  it is instantiated with the freshness of counters and with the rule that keystream needs a verified tag.
\<close>

section \<open>Invariants of actions\<close>

text \<open>With a postcondition of its own.\<close>

definition leads :: "(server \<Rightarrow> bool) \<Rightarrow> ('a \<Rightarrow> server \<Rightarrow> bool) \<Rightarrow> (server \<Rightarrow> bool) \<Rightarrow> 'a action \<Rightarrow> bool" where
  "leads P Q X m \<longleftrightarrow> (\<forall>s. P s \<longrightarrow> (case m s of (Returned x, t) \<Rightarrow> Q x t | (_, t) \<Rightarrow> X t))"

lemma leadsD: "leads P Q X m \<Longrightarrow> P s \<Longrightarrow> m s = (r, t) \<Longrightarrow> case r of Returned x \<Rightarrow> Q x t | _ \<Rightarrow> X t"
  by (auto simp: leads_def dest!: spec [of _ s])

lemma leads_bindS:
  assumes m: "leads P Q X m" and f: "\<And>x. leads (Q x) R X (f x)"
  shows "leads P R X (bindS m f)"
  unfolding leads_def
proof (intro allI impI)
  fix s
  assume "P s"
  obtain r t where t: "m s = (r, t)" by fastforce
  show "case bindS m f s of (Returned x, t) \<Rightarrow> R x t | (_, t) \<Rightarrow> X t"
  proof (cases r)
    case (Returned x)
    then have "Q x t" using m t \<open>P s\<close> by (auto simp: leads_def dest: spec [of _ s])
    then show ?thesis using f [of x] t Returned by (simp add: leads_def bindS_def)
  qed (use m t \<open>P s\<close> in \<open>auto simp: leads_def bindS_def dest!: spec [of _ s]\<close>)
qed

lemma leads_thenS: "leads P Q X m \<Longrightarrow> leads (Q ()) R X n \<Longrightarrow> leads P R X (thenS m n)"
  unfolding thenS_def by (rule leads_bindS) auto

lemma leads_withS: "(\<And>s. leads (\<lambda>t. P t \<and> t = s) Q X (f s)) \<Longrightarrow> leads P Q X (withS f)"
  by (auto simp: leads_def withS_def)

lemma leads_checkS: "(\<And>s. P s \<Longrightarrow> X s) \<Longrightarrow> (\<And>s. P s \<Longrightarrow> c \<Longrightarrow> Q () s) \<Longrightarrow> leads P Q X (checkS c)"
  by (auto simp: leads_def checkS_def)

lemma leads_optionS: "(\<And>s. P s \<Longrightarrow> X s) \<Longrightarrow> (\<And>s y. P s \<Longrightarrow> v = Some y \<Longrightarrow> Q y s) \<Longrightarrow> leads P Q X (optionS v)"
  by (auto simp: leads_def optionS_def split: option.splits)

lemma leads_if: "(c \<Longrightarrow> leads P Q X m) \<Longrightarrow> (\<not> c \<Longrightarrow> leads P Q X n) \<Longrightarrow> leads P Q X (if c then m else n)"
  by simp

lemma leads_split: "(\<And>a b c d. leads P Q X (f a b c d)) \<Longrightarrow> leads P Q X (case x of (a, b, c, d) \<Rightarrow> f a b c d)"
  by (simp split: prod.split)

lemma leads_returnS: "(\<And>s. P s \<Longrightarrow> Q x s) \<Longrightarrow> leads P Q X (returnS x)"
  by (simp add: leads_def returnS_def)

lemma leads_modifyS: "(\<And>s. P s \<Longrightarrow> Q () (f s)) \<Longrightarrow> leads P Q X (modifyS f)"
  by (simp add: leads_def modifyS_def)

lemma leads_jointS:
  assumes "\<And>s v n. P s \<Longrightarrow> X (s\<lparr>sv_steps := n, sv_trace := sv_trace s @ [ev i v]\<rparr>)"
    and "\<And>s v n. P s \<Longrightarrow> Q v (s\<lparr>sv_steps := n, sv_trace := sv_trace s @ [ev i (Some v)]\<rparr>)"
  shows "leads P Q X (jointS run ev i)"
  using assms by (auto simp: leads_def jointS_def stepS_def thenS_def bindS_def recordS_def modifyS_def optionS_def
      split: option.splits)

lemma leads_eachS:
  assumes "\<And>i. i < length xs \<Longrightarrow> leads (Q i) (\<lambda>_. Q (Suc i)) X (f (xs ! i))"
  shows "leads (Q 0) (\<lambda>_. Q (length xs)) X (eachS f xs)"
  using assms
proof (induction xs arbitrary: Q)
  case Nil
  then show ?case by (simp add: leads_returnS)
next
  case (Cons x xs)
  have "leads (Q 0) (\<lambda>_. Q 1) X (f x)" using Cons.prems [of 0] by simp
  moreover have "leads (Q 1) (\<lambda>_. Q (length (x # xs))) X (eachS f xs)"
    using Cons.IH [of "\<lambda>i. Q (Suc i)"] Cons.prems [of "Suc _"] by simp
  ultimately show ?case unfolding eachS.simps by (rule leads_thenS)
qed

lemma leads_weaken: "leads P' Q' X m \<Longrightarrow> (\<And>s. P s \<Longrightarrow> P' s) \<Longrightarrow> (\<And>x s. Q' x s \<Longrightarrow> Q x s) \<Longrightarrow> leads P Q X m"
  unfolding leads_def by (fastforce split: prod.splits outcome.splits)

lemma leads_evolves:
  assumes "evolves R m" "\<And>s t. P s \<Longrightarrow> R s t \<Longrightarrow> P t" "\<And>s. P s \<Longrightarrow> X s"
  shows "leads P (\<lambda>_. P) X m"
  unfolding leads_def
proof (intro allI impI)
  fix s
  assume "P s"
  then have "P (snd (m s))" using assms(1,2) unfolding evolves_def by blast
  then show "case m s of (Returned x, t) \<Rightarrow> P t | (_, t) \<Rightarrow> X t"
    using assms(3) by (auto split: prod.splits outcome.splits)
qed

abbreviation keeping :: "(server \<Rightarrow> bool) \<Rightarrow> (server \<Rightarrow> bool) \<Rightarrow> 'a action \<Rightarrow> bool" where
  "keeping I X \<equiv> leads I (\<lambda>_. I) X"

text \<open>An invariant that the operations keep is kept by the loop.\<close>

context evolution
begin

lemma keeping_drain:
  assumes ops: "\<And>b op. serve_op E b = Some op \<Longrightarrow> keeping I X op"
    and I: "\<And>s t. I s \<Longrightarrow> R s t \<Longrightarrow> I t" and weak: "\<And>s. I s \<Longrightarrow> X s"
  shows "keeping I X (read_header_draining_encryption E)"
proof -
  let ?ok = "\<lambda>(r :: byte outcome, t). case r of Returned x \<Rightarrow> I t | _ \<Rightarrow> X t"
  have "?ok (read_header_draining_encryption E s)" if "I s" for s
    using that
  proof (induction "rx_len (sv_rx s)" arbitrary: s rule: less_induct)
    case less
    have hdr: "I t" if "read_single_header s = (r, t)" for r t
      using that evolves_read_header I less.prems by (metis evolves_def snd_conv)
    have op: "case r of Returned x \<Rightarrow> I u | _ \<Rightarrow> X u" if "serve_op E b = Some op" "op t = (r, u)" "I t" for b op r t u
      using ops [OF that(1)] that(2,3) by (auto simp: leads_def dest!: spec [of _ t])
    show ?case
    proof (cases rule: drain_cases [where s = s and E = E])
      case (failed r t)
      then show ?thesis using weak [OF hdr [OF failed(1)]] by (cases r) auto
    next
      case (returned b t)
      then show ?thesis using hdr by simp
    next
      case (ended b t op r u)
      then show ?thesis using op [OF ended(2,3) hdr [OF ended(1)]] by (cases r) auto
    next
      case (continued b t op u)
      then have "I u" using op [OF continued(2,3) hdr [OF continued(1)]] by simp
      then show ?thesis
        using less.hyps [OF round_consumes [OF continued(1-3)]] continued(4) by simp
    qed
  qed
  then show ?thesis by (auto simp: leads_def split: prod.splits)
qed

lemma keeping_attest:
  assumes ops: "\<And>b op. serve_op E b = Some op \<Longrightarrow> keeping I X op"
    and I: "\<And>s t. I s \<Longrightarrow> R s t \<Longrightarrow> I t" and weak: "\<And>s. I s \<Longrightarrow> X s"
  shows "keeping I X (attest E)"
proof -
  have "keeping I X (bindS (read_header_draining_encryption E) (\<lambda>b. checkS (b = header_byte H_STOP)))"
    by (rule leads_bindS [OF keeping_drain [OF ops I weak]], assumption+) (auto intro!: leads_checkS weak)
  then show ?thesis by (simp add: leads_def attest_eq)
qed

end

section \<open>Guards\<close>

text \<open>Events that are not part of the processing of records.\<close>

fun on_records :: "event \<Rightarrow> bool" where
  "on_records (Ran_rotate _ _) = True"
| "on_records (Ran_aes_enc _ _) = True"
| "on_records (Ran_gcm_vfy _ _) = True"
| "on_records (Ran_gcm_vfy_commit _ _) = True"
| "on_records (Ran_ks_batch _ _) = True"
| "on_records _ = False"

locale guard = handshake_evolution R ok
  for R :: "server \<Rightarrow> server \<Rightarrow> bool" and ok :: "event \<Rightarrow> bool" +
  fixes fresh I :: "server \<Rightarrow> bool" and X :: "server \<Rightarrow> bool"
  assumes ok_handshake: "\<not> on_records e \<Longrightarrow> ok e"
    and moved: "R s (s\<lparr>sv_state := st\<rparr>)"
    and rebuilt: "R s (s\<lparr>sv_circuits := cs\<rparr>)"
    and kind: "R s (s\<lparr>sv_is_resumption_run := res\<rparr>)"
    and powers: "R s (s\<lparr>sv_client_gcm_powers := c\<rparr>)" "R s (s\<lparr>sv_server_gcm_powers := c\<rparr>)"
    and connected: "R s (s\<lparr>sv_rx := rx\<rparr>)"
    and fresh_R: "fresh s \<Longrightarrow> R s t \<Longrightarrow> fresh t"
    and I_R: "I s \<Longrightarrow> R s t \<Longrightarrow> I t"
    and keyed: "fresh s \<Longrightarrow> I (s\<lparr>sv_steps := n, sv_trace := sv_trace s @ [Ran_traffic ms (Some k)], sv_traffic_key_shares := k\<rparr>)"
    and fresh_X: "fresh s \<Longrightarrow> X s"
    and failed: "fresh s \<Longrightarrow> X (s\<lparr>sv_steps := n, sv_trace := sv_trace s @ [Ran_traffic ms v]\<rparr>)"
    and restart: "X s \<Longrightarrow> fresh (reset_per_connection_state s)"
    and weaken: "I s \<Longrightarrow> X s"
    and serve: "serve_op E b = Some op \<Longrightarrow> keeping I X op"
begin

lemma evolves_advance: "evolves R advance" and evolves_goto: "evolves R (goto st)"
  unfolding advance_def goto_def by (intro evolves_modifyS moved)+

lemma evolves_preproc: "evolves R (server_do_preproc E p)"
proof -
  have "evolves R (preproc_circuit E c)" for c
    unfolding preproc_circuit_def by (intro evolves_handlers evolves_modifyS rebuilt)
  then show ?thesis
    unfolding server_do_preproc_def by (auto intro!: evolves_handlers evolves_advance evolves_goto)
qed

lemma evolves_drop_circuit:
  assumes "\<And>s. handshake_part_only s (f s)"
  shows "evolves R (modifyS (\<lambda>s. (f s)\<lparr>sv_circuits := c s\<rparr>))"
  by (intro evolves_modifyS R_trans [OF handshake rebuilt] assms)

lemma evolves_finish_tph: "evolves R (finish_tph E)"
proof -
  have "R s (s\<lparr>sv_active_key_share := i, sv_key_shares := ks\<rparr>)" for s i ks
    by (rule handshake) (simp add: handshake_part_only_def)
  moreover from this have "R s (s\<lparr>sv_active_key_share := i, sv_key_shares := ks, sv_state := st\<rparr>)" for s i ks st
    using moved R_trans by blast
  ultimately show ?thesis
    unfolding evolves_def finish_tph_def
    by (auto simp: withS_def thenS_def bindS_def checkS_def optionS_def goto_def modifyS_def Let_def
        intro!: R_refl split: prod.splits outcome.splits option.splits if_splits)
qed

lemma evolves_create_new_share: "evolves R (create_new_share E)"
  unfolding create_new_share_def by (auto intro!: evolves_handlers evolves_advance split: prod.splits)

lemma evolves_connection:
  "evolves R (server_accept E)" "evolves R (write_handshake_done E)" "evolves R (server_do_handshake E)"
proof -
  show "evolves R (server_accept E)"
    unfolding server_accept_def by (intro evolves_handlers evolves_advance evolves_modifyS connected)
  show w: "evolves R (write_handshake_done E)"
    unfolding write_handshake_done_def handshake_done_impl_def by (auto intro!: evolves_handlers evolves_goto)
  show "evolves R (server_do_handshake E)"
    unfolding server_do_handshake_def by (auto intro!: evolves_handlers evolves_goto w)
qed

lemma evolves_late:
  "evolves R (do_psk_binder E)" "evolves R (do_ks E)" "evolves R (derive_gcm_shares E)"
proof -
  show "evolves R (do_psk_binder E)"
    unfolding do_psk_binder_def
    by (auto intro!: evolves_ops evolves_advance ok_handshake evolves_drop_circuit [of "\<lambda>s. s"] simp: handshake_part_only_def)
  show "evolves R (do_ks E)"
    unfolding do_ks_def Let_def
    by (auto intro!: evolves_ops evolves_advance ok_handshake evolves_drop_circuit simp: handshake_part_only_def)
  show "evolves R (derive_gcm_shares E)"
    unfolding derive_gcm_shares_def by (intro evolves_ops evolves_advance evolves_modifyS powers) (simp_all add: ok_handshake)
qed

lemma evolves_handshake:
  "evolves R read_keyshare_after_handshake" "evolves R read_mask_commitments" "evolves R (send_additive_share E)"
  "evolves R read_sks_keyshare" "evolves R (write_hs_recv E)" "evolves R (do_ectf E)" "evolves R (finish_ectf E)"
  "evolves R (write_ks_done E)" "evolves R (do_cert_wait E)" "evolves R (write_cert_recv E)"
  "evolves R (write_completed_derivation E)" "evolves R (derive_res E)" "evolves R (write_completed_res E)"
  "evolves R (write_completed_psk E)"
  unfolding handshake_handler_defs Let_def
  by (auto intro!: evolves_handlers evolves_advance evolves_goto ok_handshake simp: handshake_part_only_def split: prod.splits)

lemma evolves_run_state:
  assumes "st \<noteq> S_DERIVE_TS" "st \<noteq> S_DERIVE_PSK" "st \<noteq> S_SHUTDOWN"
  shows "evolves R (run_state E p st)"
  using assms evolves_connection evolves_late evolves_handshake evolves_finish_tph evolves_create_new_share
    evolves_preproc evolves_assertS
  by (cases st) (simp_all add: run_state_def)

lemma leads_quiet: "evolves R m \<Longrightarrow> leads fresh (\<lambda>_. fresh) X m" "evolves R m \<Longrightarrow> keeping I X m"
  by (erule leads_evolves; blast intro: fresh_R I_R weaken fresh_X)+

lemma leads_after:
  assumes "evolves R m" "\<And>x. leads fresh Q X (f x)"
  shows "leads fresh Q X (bindS m f)"
  using leads_bindS [OF leads_quiet(1) [OF assms(1)] assms(2)] .

lemma leads_derive_ts: "leads fresh (\<lambda>_. I) X (derive_ts E)"
proof -
  let ?Q = "\<lambda>k t. \<exists>s n ms. fresh s \<and> t = s\<lparr>sv_steps := n, sv_trace := sv_trace s @ [Ran_traffic ms (Some k)]\<rparr>"
  let ?j = "withS (\<lambda>s. jointS (e_traffic E) Ran_traffic (ho_MS_share (sv_handshake_key_shares s)))"
  have "leads fresh ?Q X ?j" by (intro leads_withS leads_jointS failed) blast+
  moreover have "leads (?Q k) (\<lambda>_. I) X (modifyS (\<lambda>s. s\<lparr>sv_traffic_key_shares := k\<rparr>))" for k
    by (rule leads_modifyS) (auto intro: keyed)
  moreover have "keeping I X advance" by (intro leads_quiet(2) evolves_advance)
  ultimately have body: "leads fresh (\<lambda>_. I) X (bindS ?j (\<lambda>k. thenS (modifyS (\<lambda>s. s\<lparr>sv_traffic_key_shares := k\<rparr>)) advance))"
    by (intro leads_bindS leads_thenS)
  show ?thesis
    unfolding derive_ts_def thenS_def [of "expect_header h" for h] thenS_def [of "deref_circuit c" for c]
    by (rule leads_after, rule evolves_expect_header, rule leads_after, rule evolves_deref_circuit, rule body)
qed

lemma keeping_after:
  assumes "keeping I X m" "\<And>x. keeping I X (f x)"
  shows "keeping I X (bindS m f)"
  using leads_bindS [OF assms] .

lemma keeping_derive_psk: "keeping I X (derive_psk E)"
  unfolding derive_psk_def thenS_def [of "modifyS (\<lambda>s. s\<lparr>sv_psk_skipped := False\<rparr>)"]
  by (intro keeping_after keeping_drain [OF serve I_R weaken] leads_quiet(2))
    (auto intro!: evolves_handlers evolves_advance ok_handshake simp: handshake_part_only_def)

lemma keeping_shutdown: "keeping I X (run_state E p S_SHUTDOWN)"
proof -
  have "keeping I X server_shutdown" unfolding server_shutdown_def by (intro leads_quiet(2) evolves_goto)
  moreover from this have "keeping I X (thenS (attest E) server_shutdown)"
    unfolding thenS_def by (intro keeping_after keeping_attest [OF serve I_R weaken])
  ultimately show ?thesis by (auto simp: run_state_def leads_def withS_def)
qed

text \<open>Up to the derivation of the traffic keys the session is fresh, from there on the invariant holds.\<close>

lemma leads_run_state:
  "leads (if state_num st \<le> 18 then fresh else I) (\<lambda>_. if state_num st \<le> 17 then fresh else I) X (run_state E p st)"
proof (cases "st = S_DERIVE_TS \<or> st = S_DERIVE_PSK \<or> st = S_SHUTDOWN")
  case True
  then show ?thesis
    using leads_derive_ts keeping_derive_psk keeping_shutdown [of E p] by (auto simp: run_state_def)
next
  case False
  then have "evolves R (run_state E p st)" using evolves_run_state by blast
  moreover have "state_num st \<noteq> 18" using False by (cases st) simp_all
  ultimately show ?thesis using leads_quiet by (cases "state_num st \<le> 17") auto
qed

definition phase :: "ServerState \<Rightarrow> server \<Rightarrow> bool" where
  "phase st s \<longleftrightarrow> (if state_num st \<le> 18 then fresh s else I s)"

lemma phase_X: "phase st s \<Longrightarrow> X s"
  by (auto simp: phase_def weaken fresh_X split: if_splits)

lemma run_state_phase:
  assumes "run_state E p st s = (r, t)" "phase st s"
  shows "X t"
    "r = Returned () \<Longrightarrow> state_num st < state_num st' \<Longrightarrow> (state_num st \<le> 17 \<Longrightarrow> state_num st' \<le> 18) \<Longrightarrow> phase st' t"
proof -
  have "(if state_num st \<le> 18 then fresh else I) s" using assms(2) by (simp add: phase_def)
  note * = leadsD [OF leads_run_state this assms(1)]
  show "X t" using * weaken fresh_X by (auto split: outcome.splits if_splits)
  assume "r = Returned ()" "state_num st < state_num st'" "state_num st \<le> 17 \<Longrightarrow> state_num st' \<le> 18"
  then show "phase st' t" using * by (auto simp: phase_def split: if_splits)
qed

lemma server_loop_safe: "phase (sv_state s) s \<Longrightarrow> X (snd (server_loop E stop p w s))"
proof (induction E stop p w s rule: server_loop.induct)
  case (1 E stop p w s)
  obtain r t where r: "run_state E p (sv_state s) s = (r, t)" by fastforce
  show ?case
  proof (cases "should_stop (sv_state s) stop")
    case True
    then show ?thesis using 1(2) phase_X by (simp add: server_loop.simps [of _ _ _ _ s])
  next
    case False
    show ?thesis
    proof (cases r)
      case (Returned x)
      then have "sv_state t \<in> successors (sv_state s)" using run_state_successor r by blast
      then have "phase (sv_state t) t"
        using run_state_phase(2) [OF r 1(2)] Returned successors_increase successors_keyed by simp
      then show ?thesis
        using 1(1) [OF False r [symmetric] Returned] False r Returned by (simp add: server_loop.simps [of _ _ _ _ s])
    qed (use False r run_state_phase(1) [OF r 1(2)] in \<open>simp_all add: server_loop.simps [of _ _ _ _ s]\<close>)
  qed
qed

lemma resumption_loop_safe:
  assumes "successively (\<lambda>a b. state_num b = Suc (state_num a)) sts" "sts \<noteq> [] \<Longrightarrow> phase (hd sts) s" "X s"
  shows "X (snd (resumption_loop E stop p sts s))"
  using assms
proof (induction sts arbitrary: s)
  case Nil
  then show ?case by (simp add: returnS_def)
next
  case (Cons st sts)
  have ph: "phase st (s\<lparr>sv_state := st\<rparr>)"
    using Cons.prems(2) fresh_R [OF _ moved] I_R [OF _ moved] by (auto simp: phase_def split: if_splits)
  obtain r t where r: "run_state E p st (s\<lparr>sv_state := st\<rparr>) = (r, t)" by fastforce
  have "X (snd (resumption_loop E stop p sts t))" if "r = Returned ()"
    using Cons.prems(1) run_state_phase [OF r ph] that by (intro Cons.IH) (auto simp: successively_Cons)
  then show ?case
    using r run_state_phase(1) [OF r ph] Cons.prems(3)
    by (cases r) (auto simp: returnS_def thenS_def bindS_def goto_def modifyS_def)
qed

lemma reset_moved:
  "reset_per_connection_state (s\<lparr>sv_state := st\<rparr>) = (reset_per_connection_state s)\<lparr>sv_state := st\<rparr>"
  by (simp add: reset_per_connection_state_def)

lemma server_run_safe:
  assumes "X s" "acc \<Longrightarrow> phase (sv_state s) s"
  shows "X (snd (server_run E stop p acc junk s))"
proof -
  let ?s = "(if acc then s else reset_per_connection_state (s\<lparr>sv_state := S_ACCEPT\<rparr>))\<lparr>sv_is_resumption_run := False\<rparr>"
  have "fresh ((reset_per_connection_state s)\<lparr>sv_state := S_ACCEPT\<rparr>)"
    using fresh_R [OF restart [OF assms(1)] moved] .
  then have "phase (sv_state ?s) ?s"
    using assms(2) fresh_R [OF _ kind] I_R [OF _ kind] by (auto simp: phase_def reset_moved split: if_splits)
  from server_loop_safe [OF this] show ?thesis by (cases acc) (simp_all add: server_run_def)
qed

lemma run_resumption_safe:
  assumes "X s" "acc \<Longrightarrow> fresh s"
  shows "X (snd (run_resumption E stop p acc s))"
proof -
  let ?s = "(if acc then s else reset_per_connection_state s)\<lparr>sv_circuits := \<lambda>_. False, sv_is_resumption_run := True\<rparr>"
  let ?l = "if acc then drop 3 kResumptionStates else kResumptionStates"
  have "fresh ?s" using assms(2) restart [OF assms(1)] fresh_R [OF fresh_R [OF _ rebuilt] kind] by simp
  moreover have "successively (\<lambda>a b. state_num b = Suc (state_num a)) ?l" "state_num (hd ?l) \<le> 18"
    by (simp_all add: kResumptionStates_def)
  ultimately have "X (snd (resumption_loop E stop p ?l ?s))"
    by (intro resumption_loop_safe) (auto simp: phase_def fresh_X)
  then show ?thesis by (cases acc) (simp_all add: run_resumption_def)
qed

lemma accept_fresh:
  assumes "X s"
  shows "fresh (snd (accept_and_read_mode E s))"
proof -
  let ?s = "(reset_per_connection_state s)\<lparr>sv_state := S_ACCEPT\<rparr>"
  have "evolves R (accept_front E)" unfolding accept_front_def by (intro evolves_ops evolves_connection)
  then have "fresh (snd (accept_front E ?s))"
    using fresh_R [OF fresh_R [OF restart [OF assms] moved]] unfolding evolves_def by blast
  then show ?thesis by (auto simp: accept_and_read_mode_def orIdle_def split: prod.splits outcome.splits)
qed

lemma verifier_round_safe:
  assumes "X s"
  shows "X (snd (verifier_round E junk s))"
proof -
  obtain r t where r: "accept_and_read_mode E s = (r, t)" by fastforce
  then have t: "fresh t" using accept_fresh [OF assms, of E] by simp
  have "phase (sv_state t) t" if "r = Returned kind" "kind \<noteq> Idle" for kind
    using accept_state [OF r [unfolded that(1)] that(2)] t by (auto simp: phase_def)
  then have "X (snd ((if kind = Resumed then run_resumption E S_DONE True True else server_run E S_DONE True True junk) t))"
    if "r = Returned kind" "kind \<noteq> Idle" for kind
    using that server_run_safe run_resumption_safe fresh_X [OF t] t by auto
  then show ?thesis
    using r fresh_X [OF t]
    by (cases r) (auto simp: verifier_round_def thenS_def bindS_def returnS_def split: prod.splits outcome.splits)
qed

lemma run_verifier_safe: "X s \<Longrightarrow> X (snd (run_verifier rs s))"
proof (induction rs arbitrary: s)
  case Nil
  then show ?case by (simp add: returnS_def)
next
  case (Cons r rs)
  obtain q t where q: "verifier_round (fst r) (snd r) s = (q, t)" by fastforce
  then have "X t" using verifier_round_safe [OF Cons.prems, of "fst r" "snd r"] by simp
  then show ?case using q Cons.IH by (cases q) (auto simp: bindS_def returnS_def)
qed

end

end
