(* ===== verification/Server_Safety.thy ===== *)
theory Server_Safety
  imports Server_Guard
begin

text \<open>
  The guards of the verifier: the counters of the joint encryptions under one key are fresh, keystream is
  derived only for records whose tag has been verified, and a released key attests nothing any more.
\<close>

section \<open>Counters of the joint encryptions\<close>

text \<open>After these events the client key is another one.\<close>

fun client_rekey :: "event \<Rightarrow> bool" where
  "client_rekey (Ran_traffic _ _) = True"
| "client_rekey (Ran_rotate (is_client, _) _) = is_client"
| "client_rekey _ = False"

fun is_enc :: "event \<Rightarrow> bool" where
  "is_enc (Ran_aes_enc _ _) = True"
| "is_enc _ = False"

text \<open>Two joint encryptions with no change of the client key between them are under one key and have no
  counter block in common.\<close>

definition nonces_fresh :: "event list \<Rightarrow> bool" where
  "nonces_fresh tr \<longleftrightarrow> (\<forall>i j a b oa ob. i < j \<longrightarrow> j < length tr \<longrightarrow> tr ! i = Ran_aes_enc a oa \<longrightarrow> tr ! j = Ran_aes_enc b ob \<longrightarrow>
     (\<forall>k. i < k \<longrightarrow> k < j \<longrightarrow> \<not> client_rekey (tr ! k)) \<longrightarrow> ae_key a = ae_key b \<and> set (ae_ctr a) \<inter> set (ae_ctr b) = {})"

text \<open>The encryptions since the last change.\<close>

definition calls :: "event list \<Rightarrow> AESEncBatchCircuitIn set" where
  "calls tr = {a. \<exists>i oa. i < length tr \<and> tr ! i = Ran_aes_enc a oa \<and> (\<forall>k. i < k \<longrightarrow> k < length tr \<longrightarrow> \<not> client_rekey (tr ! k))}"

lemma calls_Nil [simp]: "calls [] = {}"
  by (simp add: calls_def)

lemma calls_snoc:
  "calls (tr @ [e]) = (if client_rekey e then {} else calls tr \<union> {a. \<exists>oa. e = Ran_aes_enc a oa})"
  by (auto simp: calls_def nth_append less_Suc_eq split: if_splits; metis less_antisym less_irrefl)

lemma nonces_fresh_Nil [simp]: "nonces_fresh []"
  by (simp add: nonces_fresh_def)

definition apart :: "AESEncBatchCircuitIn \<Rightarrow> AESEncBatchCircuitIn \<Rightarrow> bool" where
  "apart a b \<longleftrightarrow> ae_key a = ae_key b \<and> set (ae_ctr a) \<inter> set (ae_ctr b) = {}"

lemma nonces_freshI:
  assumes "nonces_fresh tr" "\<And>b ob a. e = Ran_aes_enc b ob \<Longrightarrow> a \<in> calls tr \<Longrightarrow> apart a b"
  shows "nonces_fresh (tr @ [e])"
  unfolding nonces_fresh_def
proof (intro allI impI)
  fix i j a b oa ob
  assume ij: "i < j" "j < length (tr @ [e])" and ev: "(tr @ [e]) ! i = Ran_aes_enc a oa" "(tr @ [e]) ! j = Ran_aes_enc b ob"
    and mid: "\<forall>k. i < k \<longrightarrow> k < j \<longrightarrow> \<not> client_rekey ((tr @ [e]) ! k)"
  show "ae_key a = ae_key b \<and> set (ae_ctr a) \<inter> set (ae_ctr b) = {}"
  proof (cases "j < length tr")
    case True
    have "\<forall>k. i < k \<longrightarrow> k < j \<longrightarrow> \<not> client_rekey (tr ! k)" using mid True by (simp add: nth_append)
    moreover have "tr ! i = Ran_aes_enc a oa" "tr ! j = Ran_aes_enc b ob" using ev ij(1) True by (simp_all add: nth_append)
    ultimately show ?thesis using assms(1) ij(1) True unfolding nonces_fresh_def by blast
  next
    case False
    then have j: "j = length tr" using ij by simp
    have "\<forall>k. i < k \<longrightarrow> k < length tr \<longrightarrow> \<not> client_rekey (tr ! k)" using mid j by (simp add: nth_append)
    moreover have "tr ! i = Ran_aes_enc a oa" using ev(1) ij(1) j by (simp add: nth_append)
    ultimately have "a \<in> calls tr" using ij(1) j unfolding calls_def by blast
    moreover have "e = Ran_aes_enc b ob" using ev(2) j by simp
    ultimately show ?thesis using assms(2) unfolding apart_def by blast
  qed
qed

lemma calls_append: "list_all (\<lambda>e. \<not> is_enc e) es \<Longrightarrow> calls (tr @ es) \<subseteq> calls tr"
proof (induction es rule: rev_induct)
  case (snoc e es)
  then show ?case by (auto simp: calls_snoc append_assoc [symmetric] simp del: append_assoc split: if_splits)
qed simp

lemma nonces_fresh_append: "list_all (\<lambda>e. \<not> is_enc e) es \<Longrightarrow> nonces_fresh tr \<Longrightarrow> nonces_fresh (tr @ es)"
proof (induction es rule: rev_induct)
  case (snoc e es)
  then have "nonces_fresh ((tr @ es) @ [e])" by (intro nonces_freshI) auto
  then show ?case by simp
qed simp

definition enc_calls_ok :: "(64 word \<Rightarrow> 32 word \<Rightarrow> bool) \<Rightarrow> server \<Rightarrow> bool" where
  "enc_calls_ok used s \<longleftrightarrow> nonces_fresh (sv_trace s) \<and>
     (\<forall>a \<in> calls (sv_trace s). ae_key a = tk_client_key_share (sv_traffic_key_shares s) \<and>
        (\<forall>c \<in> set (ae_ctr a). \<exists>seq n. used seq n \<and> c = ctr_block (tk_client_iv (sv_traffic_key_shares s)) seq n))"

lemma enc_calls_ok_mono:
  assumes "enc_calls_ok used s" "\<And>seq n. used seq n \<Longrightarrow> used' seq n"
  shows "enc_calls_ok used' s"
  using assms unfolding enc_calls_ok_def by metis

definition enc_ok :: "server \<Rightarrow> bool" where
  "enc_ok s \<longleftrightarrow> enc_calls_ok (\<lambda>seq n. seq \<in> set (sv_encrypted_seqs s)) s"

definition enc_fresh :: "server \<Rightarrow> bool" where
  "enc_fresh s \<longleftrightarrow> nonces_fresh (sv_trace s) \<and> sv_encrypted_seqs s = []"

text \<open>Nothing that concerns the joint encryption happens.\<close>

definition enc_quiet :: "server \<Rightarrow> server \<Rightarrow> bool" where
  "enc_quiet s t \<longleftrightarrow> (\<exists>es. sv_trace t = sv_trace s @ es \<and> list_all (\<lambda>e. \<not> is_enc e) es) \<and>
     tk_client_key_share (sv_traffic_key_shares t) = tk_client_key_share (sv_traffic_key_shares s) \<and>
     tk_client_iv (sv_traffic_key_shares t) = tk_client_iv (sv_traffic_key_shares s) \<and>
     sv_encrypted_seqs t = sv_encrypted_seqs s"

lemma enc_quiet_trans:
  assumes "enc_quiet s t" "enc_quiet t u"
  shows "enc_quiet s u"
proof -
  obtain es es' where "sv_trace t = sv_trace s @ es" "list_all (\<lambda>e. \<not> is_enc e) es"
    "sv_trace u = sv_trace t @ es'" "list_all (\<lambda>e. \<not> is_enc e) es'"
    using assms unfolding enc_quiet_def by blast
  then have "sv_trace u = sv_trace s @ (es @ es')" "list_all (\<lambda>e. \<not> is_enc e) (es @ es')" by simp_all
  then show ?thesis using assms unfolding enc_quiet_def by auto
qed

lemma enc_quiet_fresh: "enc_quiet s t \<Longrightarrow> nonces_fresh (sv_trace s) \<Longrightarrow> nonces_fresh (sv_trace t)"
  by (auto simp: enc_quiet_def nonces_fresh_append)

lemma enc_quiet_calls_ok:
  assumes "enc_quiet s t" "enc_calls_ok used s"
  shows "enc_calls_ok used t"
proof -
  obtain es where "sv_trace t = sv_trace s @ es" "list_all (\<lambda>e. \<not> is_enc e) es"
    using assms(1) unfolding enc_quiet_def by blast
  then have "calls (sv_trace t) \<subseteq> calls (sv_trace s)" using calls_append by simp
  moreover have "nonces_fresh (sv_trace t)" using assms enc_quiet_fresh by (simp add: enc_calls_ok_def)
  moreover have "tk_client_key_share (sv_traffic_key_shares t) = tk_client_key_share (sv_traffic_key_shares s)"
    "tk_client_iv (sv_traffic_key_shares t) = tk_client_iv (sv_traffic_key_shares s)"
    using assms(1) by (simp_all add: enc_quiet_def)
  ultimately show ?thesis using assms(2) unfolding enc_calls_ok_def by simp blast
qed

lemma enc_quiet_ok: "enc_ok s \<Longrightarrow> enc_quiet s t \<Longrightarrow> enc_ok t"
  using enc_quiet_calls_ok [of s t] by (simp add: enc_ok_def enc_quiet_def)

interpretation enc_quiet: handshake_evolution enc_quiet "\<lambda>e. \<not> is_enc e"
proof unfold_locales
  show "enc_quiet s u" if "enc_quiet s t" "enc_quiet t u" for s t u using that by (rule enc_quiet_trans)
  show "enc_quiet s t" if "handshake_part_only s t" for s t
    using that by (rule handshake_part_onlyE) (simp add: enc_quiet_def)
qed (simp_all add: enc_quiet_def)

lemma enc_quiet_reads: "evolves enc_quiet read_vfy_message" "evolves enc_quiet (read_dims n)"
proof -
  show "evolves enc_quiet read_vfy_message" unfolding read_vfy_message_def Let_def by (intro enc_quiet.evolves_ops)
  show "evolves enc_quiet (read_dims n)"
    by (induction n) (auto simp: read_record_dims_def Let_def intro!: enc_quiet.evolves_ops)
qed

lemma enc_quiet_ops:
  "evolves enc_quiet read_key_commitment" "evolves enc_quiet (release_key E)" "evolves enc_quiet (verify_gcm_tag E)"
  "evolves enc_quiet (derive_keystream_blocks E)" "evolves enc_quiet (make_gcm_tag E)"
proof -
  note rules = enc_quiet.evolves_ops enc_quiet.evolves_modifyS enc_quiet_reads
  show "evolves enc_quiet read_key_commitment" "evolves enc_quiet (release_key E)" "evolves enc_quiet (make_gcm_tag E)"
    unfolding read_key_commitment_def release_key_def make_gcm_tag_def Let_def
    by (intro rules; simp add: enc_quiet_def)+
  show "evolves enc_quiet (derive_keystream_blocks E)"
    unfolding derive_keystream_blocks_def ks_batch_op_def Let_def by (auto intro!: rules)
  show "evolves enc_quiet (verify_gcm_tag E)"
    unfolding verify_gcm_tag_def judge_tag_def accept_masked_def accept_committed_def
    by (auto simp: enc_quiet_def intro!: rules split: prod.splits)
qed

abbreviation enc_weak :: "server \<Rightarrow> bool" where
  "enc_weak s \<equiv> nonces_fresh (sv_trace s)"

lemma enc_ok_weak: "enc_ok s \<Longrightarrow> enc_weak s"
  by (simp add: enc_ok_def enc_calls_ok_def)

text \<open>A rotation of the client key leaves no encryption behind.\<close>

definition batch_used :: "64 word list \<Rightarrow> 64 word \<Rightarrow> nat \<Rightarrow> 64 word \<Rightarrow> 32 word \<Rightarrow> bool" where
  "batch_used seqs seq m seq' n \<longleftrightarrow> seq' \<in> set seqs \<or> seq' = seq \<and> (\<exists>k < m. n = word_of_nat k + 2)"

lemma batch_used_0: "batch_used seqs seq 0 = (\<lambda>seq' n. seq' \<in> set seqs)"
  by (intro ext) (simp add: batch_used_def)

definition enc_mid :: "64 word \<Rightarrow> nat \<Rightarrow> server \<Rightarrow> bool" where
  "enc_mid seq m s \<longleftrightarrow> seq \<notin> set (sv_encrypted_seqs s) \<and> enc_calls_ok (batch_used (sv_encrypted_seqs s) seq m) s"

lemma word_counter_inject:
  assumes "a < 2 ^ 31" "b < 2 ^ 31"
  shows "word_of_nat a + 2 = (word_of_nat b + 2 :: 32 word) \<longleftrightarrow> a = b"
proof -
  have "word_of_nat a = (word_of_nat b :: 32 word) \<longleftrightarrow> a = b"
    using assms by (simp add: word_of_nat_eq_iff take_bit_eq_mod)
  then show ?thesis by simp
qed

lemma batch_counter:
  assumes "c \<in> set (ae_ctr (enc_batch_verifier k seq nblocks batch))" "batch * AES_ENC_N < nblocks"
  obtains n where "batch * AES_ENC_N \<le> n" "n < Suc batch * AES_ENC_N" "n < nblocks"
    "c = ctr_block (tk_client_iv k) seq (word_of_nat n + 2)"
proof -
  obtain j where j: "j < AES_ENC_N" and c: "c = ctr_block (tk_client_iv k) seq
      (word_of_nat (if batch * AES_ENC_N + j < nblocks then batch * AES_ENC_N + j else nblocks - 1) + 2)"
    using assms(1) by (auto simp: enc_batch_verifier_def Let_def)
  show thesis
    by (rule that [OF _ _ _ c]) (use j assms(2) in auto)
qed

lemma enc_batch_event:
  assumes mid: "enc_mid seq (batch * AES_ENC_N) s" and b: "batch * AES_ENC_N < nblocks" "nblocks \<le> 2 ^ 31"
  defines "a \<equiv> enc_batch_verifier (sv_traffic_key_shares s) seq nblocks batch"
  shows "enc_mid seq (Suc batch * AES_ENC_N) (s\<lparr>sv_steps := n, sv_trace := sv_trace s @ [Ran_aes_enc a v]\<rparr>)"
proof -
  let ?iv = "tk_client_iv (sv_traffic_key_shares s)" and ?seqs = "sv_encrypted_seqs s"
  have new: "seq \<notin> set ?seqs" and nf: "nonces_fresh (sv_trace s)"
    and key: "\<And>x. x \<in> calls (sv_trace s) \<Longrightarrow> ae_key x = tk_client_key_share (sv_traffic_key_shares s)"
    and old: "\<And>x c. x \<in> calls (sv_trace s) \<Longrightarrow> c \<in> set (ae_ctr x) \<Longrightarrow>
      \<exists>seq' n. batch_used ?seqs seq (batch * AES_ENC_N) seq' n \<and> c = ctr_block ?iv seq' n"
    using mid by (simp_all add: enc_mid_def enc_calls_ok_def)
  have ka: "ae_key a = tk_client_key_share (sv_traffic_key_shares s)" by (simp add: a_def enc_batch_verifier_def)
  have "c \<notin> set (ae_ctr a)" if x: "x \<in> calls (sv_trace s)" "c \<in> set (ae_ctr x)" for x c
  proof
    assume "c \<in> set (ae_ctr a)"
    then obtain m where m: "batch * AES_ENC_N \<le> m" "m < nblocks" "c = ctr_block ?iv seq (word_of_nat m + 2)"
      using batch_counter b(1) unfolding a_def by metis
    obtain k where "k < batch * AES_ENC_N" "word_of_nat m + 2 = (word_of_nat k + 2 :: 32 word)"
      using old [OF x] m(3) new by (auto simp: batch_used_def ctr_block_inject)
    then show False using word_counter_inject [of m k] m b(2) by simp
  qed
  then have "nonces_fresh (sv_trace s @ [Ran_aes_enc a v])"
    using nf key ka by (intro nonces_freshI) (auto simp: apart_def)
  moreover have "\<exists>seq' n. batch_used ?seqs seq (Suc batch * AES_ENC_N) seq' n \<and> c = ctr_block ?iv seq' n"
    if xc: "x \<in> insert a (calls (sv_trace s))" "c \<in> set (ae_ctr x)" for x c
  proof (cases "x = a")
    case True
    then obtain m where "m < Suc batch * AES_ENC_N" "c = ctr_block ?iv seq (word_of_nat m + 2)"
      using xc(2) batch_counter b(1) unfolding a_def by metis
    then show ?thesis unfolding batch_used_def by blast
  next
    case False
    then obtain seq' n where "batch_used ?seqs seq (batch * AES_ENC_N) seq' n" "c = ctr_block ?iv seq' n"
      using old xc by blast
    then show ?thesis unfolding batch_used_def by (metis less_SucI less_le_trans mult_Suc le_add2)
  qed
  ultimately show ?thesis using new key ka by (auto simp: enc_mid_def enc_calls_ok_def calls_snoc)
qed

lemma enc_mid_weak: "enc_mid seq m s \<Longrightarrow> enc_weak s"
  by (simp add: enc_mid_def enc_calls_ok_def)

lemma enc_mid_quiet: "enc_mid seq m s \<Longrightarrow> enc_quiet s t \<Longrightarrow> enc_mid seq m t"
  using enc_quiet_calls_ok [of s t "batch_used (sv_encrypted_seqs s) seq m"] by (simp add: enc_mid_def enc_quiet_def)

lemma leads_enc_quiet:
  "evolves enc_quiet m \<Longrightarrow> keeping enc_ok enc_weak m" "evolves enc_quiet m \<Longrightarrow> keeping (enc_mid seq n) enc_weak m"
  by (erule leads_evolves; blast intro: enc_quiet_ok enc_ok_weak enc_mid_quiet enc_mid_weak)+

lemma leads_enc_batch:
  assumes "batch * AES_ENC_N < nblocks" "nblocks \<le> 2 ^ 31"
  shows "leads (enc_mid seq (batch * AES_ENC_N)) (\<lambda>_. enc_mid seq (Suc batch * AES_ENC_N)) enc_weak (enc_batch_op E seq nblocks batch)"
proof -
  let ?j = "withS (\<lambda>s. jointS (e_aes_enc E) Ran_aes_enc (enc_batch_verifier (sv_traffic_key_shares s) seq nblocks batch))"
  have "leads (enc_mid seq (batch * AES_ENC_N)) (\<lambda>_. enc_mid seq (Suc batch * AES_ENC_N)) enc_weak ?j"
    using enc_batch_event [OF _ assms] enc_mid_weak by (intro leads_withS leads_jointS) blast+
  moreover have "keeping (enc_mid seq (Suc batch * AES_ENC_N)) enc_weak (thenS (checkS c) (modifyS (\<lambda>s. s\<lparr>sv_encrypted_ct := f s\<rparr>)))" for c f
    by (intro leads_enc_quiet enc_quiet.evolves_ops enc_quiet.evolves_modifyS) (simp add: enc_quiet_def)
  ultimately show ?thesis unfolding enc_batch_op_def by (rule leads_bindS)
qed

lemma enc_keeps_encrypt: "keeping enc_ok enc_weak (encrypt_blocks E)"
proof -
  have start: "leads enc_ok (\<lambda>_. enc_mid seq 0) enc_weak (withS (\<lambda>s. checkS (seq \<notin> set (sv_encrypted_seqs s))))" for seq
    by (intro leads_withS leads_checkS) (auto simp: enc_ok_weak enc_mid_def enc_ok_def batch_used_0)
  have fin: "leads (enc_mid seq m) (\<lambda>_. enc_ok) enc_weak
      (modifyS (\<lambda>s. s\<lparr>sv_encrypt_ct_len := n, sv_encrypted_seqs := sv_encrypted_seqs s @ [seq]\<rparr>))" for seq m n
  proof (rule leads_modifyS)
    fix s
    assume "enc_mid seq m s"
    then have "enc_calls_ok (batch_used (sv_encrypted_seqs s) seq m) s" by (simp add: enc_mid_def)
    then have "enc_calls_ok (\<lambda>seq' n. seq' \<in> set (sv_encrypted_seqs s @ [seq])) s"
      by (rule enc_calls_ok_mono) (auto simp: batch_used_def)
    then show "enc_ok (s\<lparr>sv_encrypt_ct_len := n, sv_encrypted_seqs := sv_encrypted_seqs s @ [seq]\<rparr>)"
      by (simp add: enc_ok_def enc_calls_ok_def)
  qed
  have batches: "leads (enc_mid seq 0) (\<lambda>_. enc_mid seq (nbatches * AES_ENC_N)) enc_weak (eachS (enc_batch_op E seq nblocks) [0..<nbatches])"
    if "nbatches = (nblocks + AES_ENC_N - 1) div AES_ENC_N" "nblocks \<le> 2 ^ 31" for seq nblocks nbatches
  proof -
    have "i * AES_ENC_N < nblocks" if "i < nbatches" for i
      using that \<open>nbatches = _\<close> by (simp add: AES_ENC_N_def)
    then have "leads ((\<lambda>i. enc_mid seq (i * AES_ENC_N)) 0) (\<lambda>_. (\<lambda>i. enc_mid seq (i * AES_ENC_N)) (length [0..<nbatches])) enc_weak
        (eachS (enc_batch_op E seq nblocks) [0..<nbatches])"
      using that(2) by (intro leads_eachS) (simp add: leads_enc_batch del: mult_Suc)
    then show ?thesis by simp
  qed
  have rest: "leads (enc_mid seq 0) (\<lambda>_. enc_ok) enc_weak (thenS (checkS c) (thenS (modifyS (\<lambda>s. s\<lparr>sv_encrypted_ct := ct\<rparr>))
      (thenS (eachS (enc_batch_op E seq ((unat (len32_of l) + 15) div 16)) [0..<((unat (len32_of l) + 15) div 16 + AES_ENC_N - 1) div AES_ENC_N])
      (modifyS (\<lambda>s. s\<lparr>sv_encrypt_ct_len := n, sv_encrypted_seqs := sv_encrypted_seqs s @ [seq]\<rparr>)))))" for seq c ct l n
  proof -
    have nb: "(unat (len32_of l) + 15) div 16 \<le> 2 ^ 31" using unsigned_less [where w = "len32_of l" and 'a = nat] by simp
    show ?thesis
      by (rule leads_thenS [OF leads_enc_quiet(2) leads_thenS [OF leads_enc_quiet(2) leads_thenS [OF batches [OF refl nb] fin]]];
          intro enc_quiet.evolves_ops enc_quiet.evolves_modifyS)
        (simp add: enc_quiet_def)
  qed
  show ?thesis
    unfolding encrypt_blocks_def Let_def
    by (rule leads_thenS [OF leads_enc_quiet(1) leads_bindS [OF leads_enc_quiet(1) leads_thenS [OF start leads_bindS [OF leads_enc_quiet(2) rest]]]];
        intro enc_quiet.evolves_ops)
qed

text \<open>A rotation of the client key leaves no encryption behind.\<close>

definition enc_none :: "server \<Rightarrow> bool" where
  "enc_none s \<longleftrightarrow> nonces_fresh (sv_trace s) \<and> calls (sv_trace s) = {}"

lemma enc_none_ok: "enc_none s \<Longrightarrow> enc_ok s"
  by (simp add: enc_none_def enc_ok_def enc_calls_ok_def)

lemma enc_none_rekey:
  assumes "enc_weak s" "client_rekey e"
  shows "enc_none (s\<lparr>sv_steps := n, sv_trace := sv_trace s @ [e]\<rparr>)"
  using assms by (cases e rule: client_rekey.cases) (auto simp: enc_none_def calls_snoc intro!: nonces_freshI)

lemma enc_rotate_apply:
  "leads enc_none (\<lambda>_. enc_ok) enc_weak (rotate_apply E True out)" "evolves enc_quiet (rotate_apply E False out)"
proof -
  have "leads enc_none (\<lambda>_. enc_none) enc_weak (rotate_apply E True out)"
    unfolding rotate_apply_def
    by (intro leads_thenS [where Q = "\<lambda>_. enc_none"] leads_bindS [where Q = "\<lambda>_. enc_none"] leads_modifyS leads_jointS)
      (auto simp: enc_none_def calls_snoc intro!: nonces_freshI)
  then show "leads enc_none (\<lambda>_. enc_ok) enc_weak (rotate_apply E True out)"
    by (rule leads_weaken) (auto intro: enc_none_ok)
  show "evolves enc_quiet (rotate_apply E False out)"
    unfolding rotate_apply_def
    by (intro enc_quiet.evolves_ops enc_quiet.evolves_modifyS) (simp_all add: enc_quiet_def set_rotated_def)
qed

lemma enc_keeps_rotate: "keeping enc_ok enc_weak (rotate_key_op E)"
proof -
  let ?j = "\<lambda>c. withS (\<lambda>s. jointS (e_rotate E) Ran_rotate (c, if c then tk_CATS_share (sv_traffic_key_shares s)
    else tk_SATS_share (sv_traffic_key_shares s)))"
  have body: "keeping enc_ok enc_weak (bindS (?j c) (rotate_apply E c))" for c
  proof (cases c)
    case True
    have "leads enc_ok (\<lambda>_. enc_none) enc_weak (?j True)"
      using enc_none_rekey [OF enc_ok_weak] by (intro leads_withS leads_jointS) (auto simp: enc_none_def)
    then show ?thesis using True by (auto intro: leads_bindS enc_rotate_apply(1))
  next
    case False
    then show ?thesis by (auto intro!: leads_enc_quiet(1) enc_quiet.evolves_ops enc_rotate_apply(2))
  qed
  show ?thesis
    unfolding rotate_key_op_def Let_def
    by (rule leads_thenS [OF leads_enc_quiet(1) leads_bindS [OF leads_enc_quiet(1) leads_thenS [OF leads_enc_quiet(1)
          leads_thenS [OF leads_enc_quiet(1) body]]]]; intro enc_quiet.evolves_ops)
qed

interpretation enc_guard: guard enc_quiet "\<lambda>e. \<not> is_enc e" enc_fresh enc_ok enc_weak
proof unfold_locales
  show "\<not> is_enc e" if "\<not> on_records e" for e using that by (cases e) simp_all
  show "enc_fresh t" if "enc_fresh s" "enc_quiet s t" for s t
    using that enc_quiet_fresh [OF that(2)] by (simp add: enc_fresh_def) (simp add: enc_quiet_def)
  show "enc_ok t" if "enc_ok s" "enc_quiet s t" for s t using that by (rule enc_quiet_ok)
  show "enc_ok (s\<lparr>sv_steps := n, sv_trace := sv_trace s @ [Ran_traffic ms (Some k)], sv_traffic_key_shares := k\<rparr>)"
    if "enc_fresh s" for s n ms k
  proof -
    have "enc_none (s\<lparr>sv_steps := n, sv_trace := sv_trace s @ [Ran_traffic ms (Some k)]\<rparr>)"
      using that by (intro enc_none_rekey) (simp_all add: enc_fresh_def)
    then show ?thesis by (intro enc_none_ok) (simp add: enc_none_def)
  qed
  show "enc_weak (s\<lparr>sv_steps := n, sv_trace := sv_trace s @ [Ran_traffic ms v]\<rparr>)" if "enc_fresh s" for s n ms v
    using that by (auto simp: enc_fresh_def intro!: nonces_freshI)
  show "keeping enc_ok enc_weak op" if "serve_op E b = Some op" for E b op
    using that enc_quiet_ops [THEN leads_enc_quiet(1)] enc_keeps_rotate enc_keeps_encrypt
    by (auto simp: serve_op_def split: if_splits)
qed (simp_all add: enc_quiet_def enc_fresh_def enc_ok_weak reset_per_connection_state_def)

section \<open>Keystream only for verified records\<close>

text \<open>The key share and the first counter block of a verification that has passed.\<close>

fun vouches :: "event \<Rightarrow> (bytes \<times> bytes) option" where
  "vouches (Ran_gcm_vfy v (Some out)) = (if gv_tag_passed out \<and> \<not> gv_cheated out then Some (gv_key v, gv_iv v) else None)"
| "vouches (Ran_gcm_vfy_commit v (Some out)) =
     (if gv_tag_passed out \<and> \<not> gv_cheated out \<and> gv_key_opened out then Some (gv_key v, gv_iv v) else None)"
| "vouches _ = None"

definition vouched :: "event list \<Rightarrow> bytes \<Rightarrow> bytes \<Rightarrow> 64 word \<Rightarrow> bool" where
  "vouched tr key iv seq \<longleftrightarrow> (\<exists>e \<in> set tr. vouches e = Some (key, gcm_j0 iv seq))"

text \<open>Every counter block of a keystream batch belongs to a record whose tag has passed before, under the
  same key share.\<close>

definition keystream_gated :: "event list \<Rightarrow> bool" where
  "keystream_gated tr \<longleftrightarrow> (\<forall>j i oi. j < length tr \<longrightarrow> tr ! j = Ran_ks_batch i oi \<longrightarrow>
     (\<forall>c \<in> set (ks_ctr i). \<exists>iv seq n. vouched (take j tr) (ks_key i) iv seq \<and> c = ctr_block iv seq n))"

fun is_ks :: "event \<Rightarrow> bool" where
  "is_ks (Ran_ks_batch _ _) = True"
| "is_ks _ = False"

lemma vouched_append: "vouched tr key iv seq \<Longrightarrow> vouched (tr @ es) key iv seq"
  by (auto simp: vouched_def)

lemma keystream_gatedI:
  assumes "keystream_gated tr"
    "\<And>i oi c. e = Ran_ks_batch i oi \<Longrightarrow> c \<in> set (ks_ctr i) \<Longrightarrow> \<exists>iv seq n. vouched tr (ks_key i) iv seq \<and> c = ctr_block iv seq n"
  shows "keystream_gated (tr @ [e])"
  unfolding keystream_gated_def
proof (intro allI impI ballI)
  fix j i oi c
  assume j: "j < length (tr @ [e])" "(tr @ [e]) ! j = Ran_ks_batch i oi" and c: "c \<in> set (ks_ctr i)"
  show "\<exists>iv seq n. vouched (take j (tr @ [e])) (ks_key i) iv seq \<and> c = ctr_block iv seq n"
  proof (cases "j < length tr")
    case True
    then have "tr ! j = Ran_ks_batch i oi" using j(2) by (simp add: nth_append)
    then show ?thesis using assms(1) True c unfolding keystream_gated_def by simp
  next
    case False
    then have "j = length tr" "e = Ran_ks_batch i oi" using j by (simp_all add: nth_append)
    then show ?thesis using assms(2) c by simp
  qed
qed

lemma keystream_gated_append: "list_all (\<lambda>e. \<not> is_ks e) es \<Longrightarrow> keystream_gated tr \<Longrightarrow> keystream_gated (tr @ es)"
proof (induction es rule: rev_induct)
  case (snoc e es)
  then have "keystream_gated ((tr @ es) @ [e])" by (intro keystream_gatedI) auto
  then show ?case by simp
qed simp

abbreviation ver_weak :: "server \<Rightarrow> bool" where
  "ver_weak s \<equiv> keystream_gated (sv_trace s)"

definition ver_ok :: "server \<Rightarrow> bool" where
  "ver_ok s \<longleftrightarrow> ver_weak s \<and> (\<forall>seq \<in> set (sv_verified_seqs s).
     vouched (sv_trace s) (tk_server_key_share (sv_traffic_key_shares s)) (tk_server_iv (sv_traffic_key_shares s)) seq)"

definition ver_fresh :: "server \<Rightarrow> bool" where
  "ver_fresh s \<longleftrightarrow> ver_weak s \<and> sv_verified_seqs s = []"

lemma ver_fresh_ok: "ver_fresh s \<Longrightarrow> ver_ok s" and ver_ok_weak: "ver_ok s \<Longrightarrow> ver_weak s"
  by (simp_all add: ver_fresh_def ver_ok_def)

text \<open>No keystream is derived, and what has been verified stays.\<close>

definition ver_quiet :: "server \<Rightarrow> server \<Rightarrow> bool" where
  "ver_quiet s t \<longleftrightarrow> (\<exists>es. sv_trace t = sv_trace s @ es \<and> list_all (\<lambda>e. \<not> is_ks e) es) \<and>
     tk_server_key_share (sv_traffic_key_shares t) = tk_server_key_share (sv_traffic_key_shares s) \<and>
     tk_server_iv (sv_traffic_key_shares t) = tk_server_iv (sv_traffic_key_shares s) \<and>
     sv_verified_seqs t = sv_verified_seqs s"

lemma ver_quietE:
  assumes "ver_quiet s t"
  obtains es where "sv_trace t = sv_trace s @ es" "list_all (\<lambda>e. \<not> is_ks e) es"
    "tk_server_key_share (sv_traffic_key_shares t) = tk_server_key_share (sv_traffic_key_shares s)"
    "tk_server_iv (sv_traffic_key_shares t) = tk_server_iv (sv_traffic_key_shares s)"
    "sv_verified_seqs t = sv_verified_seqs s"
  using assms unfolding ver_quiet_def by blast

lemma ver_quiet_weak: "ver_quiet s t \<Longrightarrow> ver_weak s \<Longrightarrow> ver_weak t"
  by (elim ver_quietE) (simp add: keystream_gated_append)

lemma ver_quiet_ok: "ver_ok s \<Longrightarrow> ver_quiet s t \<Longrightarrow> ver_ok t"
  by (elim ver_quietE) (simp add: ver_ok_def keystream_gated_append vouched_append)

interpretation ver_quiet: handshake_evolution ver_quiet "\<lambda>e. \<not> is_ks e"
proof unfold_locales
  show "ver_quiet s u" if "ver_quiet s t" "ver_quiet t u" for s t u
    using that by (elim ver_quietE) (simp add: ver_quiet_def)
  show "ver_quiet s t" if "handshake_part_only s t" for s t
    using that by (rule handshake_part_onlyE) (simp add: ver_quiet_def)
qed (simp_all add: ver_quiet_def)

lemma leads_ver_quiet: "evolves ver_quiet m \<Longrightarrow> keeping ver_ok ver_weak m"
  by (erule leads_evolves; blast intro: ver_quiet_ok ver_ok_weak)

lemma ver_quiet_ops:
  "evolves ver_quiet read_key_commitment" "evolves ver_quiet (release_key E)"
  "evolves ver_quiet (encrypt_blocks E)" "evolves ver_quiet (make_gcm_tag E)"
  unfolding read_key_commitment_def release_key_def encrypt_blocks_def enc_batch_op_def make_gcm_tag_def Let_def
  by (intro ver_quiet.evolves_ops ver_quiet.evolves_modifyS; simp add: ver_quiet_def)+

definition ver_passing :: "bool \<Rightarrow> 64 word \<Rightarrow> server \<Rightarrow> bool" where
  "ver_passing c seq s \<longleftrightarrow> ver_ok s \<and> (c \<longrightarrow>
     vouched (sv_trace s) (tk_server_key_share (sv_traffic_key_shares s)) (tk_server_iv (sv_traffic_key_shares s)) seq)"

lemma ver_passing_weak: "ver_passing c seq s \<Longrightarrow> ver_weak s" "ver_passing c seq s \<Longrightarrow> ver_ok s"
  by (simp_all add: ver_passing_def ver_ok_def)

lemma ver_passing_accept:
  "ver_passing True seq s \<Longrightarrow> ver_ok (s\<lparr>sv_attested_ct := a, sv_verified_seqs := sv_verified_seqs s @ [seq]\<rparr>)"
  "ver_passing True seq s \<Longrightarrow> ver_ok (s\<lparr>sv_verified_seqs := sv_verified_seqs s @ [seq]\<rparr>)"
  by (auto simp: ver_passing_def ver_ok_def)

lemma ver_passing_event:
  assumes "ver_ok s" "\<not> is_ks e" "c \<Longrightarrow> vouches e = Some (tk_server_key_share (sv_traffic_key_shares s), gcm_j0 (tk_server_iv (sv_traffic_key_shares s)) seq)"
  shows "ver_passing c seq (s\<lparr>sv_steps := n, sv_trace := sv_trace s @ [e]\<rparr>)"
proof -
  have "keystream_gated (sv_trace s @ [e])" using assms(1,2) keystream_gated_append [of "[e]"] by (simp add: ver_ok_def)
  then show ?thesis using assms(1,3) by (auto simp: ver_passing_def ver_ok_def vouched_def)
qed

lemma leads_check: "leads (\<lambda>s. P s \<and> c) Q X m \<Longrightarrow> (\<And>s. P s \<Longrightarrow> X s) \<Longrightarrow> leads P Q X (thenS (checkS c) m)"
  by (rule leads_thenS [where Q = "\<lambda>_ s. P s \<and> c"]) (auto intro: leads_checkS)

lemma leads_accept_masked:
  "leads (ver_passing (gv_tag_passed out \<and> \<not> gv_cheated out) seq) (\<lambda>_. ver_ok) ver_weak
     (accept_masked seq out)"
  unfolding accept_masked_def by (intro leads_check leads_modifyS) (auto simp: ver_passing_weak intro: ver_passing_accept)

lemma leads_accept_committed:
  "leads (ver_passing (gv_tag_passed out \<and> \<not> gv_cheated out \<and> gv_key_opened out) seq) (\<lambda>_. ver_ok) ver_weak
     (accept_committed E seq ct out)"
proof -
  let ?upd = "\<lambda>s. (if sv_retain_ct s then s\<lparr>sv_attested_ct := sv_attested_ct s @ [(seq, ct)]\<rparr> else s)
    \<lparr>sv_verified_seqs := sv_verified_seqs s @ [seq]\<rparr>"
  have quiet: "keeping ver_ok ver_weak (if c then write_single_header E h else n)" if "n = checkS False \<or> n = returnS ()" for c h n
    using that by (auto intro!: leads_ver_quiet ver_quiet.evolves_ops)
  have upd: "leads (ver_passing True seq) (\<lambda>_. ver_ok) ver_weak (modifyS ?upd)"
    using ver_passing_accept by (intro leads_modifyS) (auto split: if_splits)
  have "leads (\<lambda>s. (ver_passing (gv_tag_passed out \<and> \<not> gv_cheated out \<and> gv_key_opened out) seq s \<and> \<not> gv_cheated out) \<and> gv_key_opened out)
     (\<lambda>_. ver_ok) ver_weak (withS (\<lambda>s.
        if \<not> gv_tag_passed out then (if sv_mode s = Rotate then write_single_header E H_TAG_REJECT else checkS False)
        else thenS (modifyS ?upd) (if sv_mode s = Rotate then write_single_header E H_TAG_OK else returnS ())))"
  proof (rule leads_withS)
    fix s
    show "leads (\<lambda>t. ((ver_passing (gv_tag_passed out \<and> \<not> gv_cheated out \<and> gv_key_opened out) seq t \<and> \<not> gv_cheated out) \<and> gv_key_opened out) \<and> t = s)
       (\<lambda>_. ver_ok) ver_weak (if \<not> gv_tag_passed out then (if sv_mode s = Rotate then write_single_header E H_TAG_REJECT else checkS False)
        else thenS (modifyS ?upd) (if sv_mode s = Rotate then write_single_header E H_TAG_OK else returnS ()))"
    proof (cases "gv_tag_passed out")
      case True
      show ?thesis
        using True
        by (simp only: not_True_eq_False if_False simp_thms) (rule leads_weaken [OF leads_thenS [OF upd quiet]]; auto simp: ver_passing_def)
    next
      case False
      then show ?thesis
        by (simp only: not_False_eq_True if_True simp_thms) (rule leads_weaken [OF quiet]; auto simp: ver_passing_def)
    qed
  qed
  then show ?thesis
    unfolding accept_committed_def by (intro leads_check) (auto simp: ver_passing_weak)
qed

definition ver_input :: "64 word \<Rightarrow> GCMVfyCircuitIn \<Rightarrow> server \<Rightarrow> bool" where
  "ver_input seq input s \<longleftrightarrow> ver_ok s \<and> gv_key input = tk_server_key_share (sv_traffic_key_shares s) \<and>
     gv_iv input = gcm_j0 (tk_server_iv (sv_traffic_key_shares s)) seq"

lemma leads_run_vfy:
  "leads (ver_input seq input) (\<lambda>out. ver_passing (gv_tag_passed out \<and> \<not> gv_cheated out) seq) ver_weak
     (jointS (e_gcm_vfy E) Ran_gcm_vfy input)"
  "leads (ver_input seq input) (\<lambda>out. ver_passing (gv_tag_passed out \<and> \<not> gv_cheated out \<and> gv_key_opened out) seq) ver_weak
     (jointS (e_gcm_vfy_commit E) Ran_gcm_vfy_commit (with_commitment input r d))"
  by (rule leads_jointS; (rule ver_passing_weak(1) [where c = False and seq = seq])?; rule ver_passing_event;
      simp add: ver_input_def with_commitment_def)+

lemma ver_keeps_verify: "keeping ver_ok ver_weak (verify_gcm_tag E)"
proof -
  have input: "leads ver_ok (ver_input seq) ver_weak
      (withS (\<lambda>s. optionS (vfy_input_verifier (sv_traffic_key_shares s) (sv_server_gcm_powers s) seq aad ct tag)))" for seq aad ct tag
    by (intro leads_withS leads_optionS)
      (auto simp: ver_ok_weak ver_input_def vfy_input_verifier_def split: Option.bind_splits)
  have need: "keeping (ver_input seq i) ver_weak (need_circuit C_GCM_VFY)" for seq i
    unfolding need_circuit_def by (intro leads_withS leads_checkS) (auto simp: ver_input_def ver_ok_weak)
  have run: "leads (ver_input seq i) (\<lambda>_. ver_ok) ver_weak (judge_tag E seq ct i)" for seq i ct
    unfolding judge_tag_def
    by (intro leads_withS leads_if)
      (rule leads_weaken [OF leads_bindS [OF leads_run_vfy(2) leads_accept_committed]]
        leads_weaken [OF leads_bindS [OF leads_run_vfy(1) leads_accept_masked]]; simp)+
  have msg: "evolves ver_quiet read_vfy_message" unfolding read_vfy_message_def Let_def by (intro ver_quiet.evolves_ops)
  show ?thesis
    unfolding verify_gcm_tag_def
    by (rule leads_thenS [OF leads_ver_quiet leads_bindS [OF leads_ver_quiet [OF msg] leads_split [OF leads_bindS [OF input leads_thenS [OF need run]]]]])
      (intro ver_quiet.evolves_ops)
qed

lemma ver_keeps_rotate: "keeping ver_ok ver_weak (rotate_key_op E)"
proof -
  let ?j = "\<lambda>c. withS (\<lambda>s. jointS (e_rotate E) Ran_rotate (c, if c then tk_CATS_share (sv_traffic_key_shares s)
    else tk_SATS_share (sv_traffic_key_shares s)))"
  have joint: "evolves ver_quiet (?j c)" for c by (intro ver_quiet.evolves_ops) simp
  have new: "leads ver_weak (\<lambda>_. ver_ok) ver_weak (rotate_apply E False out)" for out
    unfolding rotate_apply_def
    by (intro leads_thenS [where Q = "\<lambda>_. ver_weak"] leads_bindS [where Q = "\<lambda>_. ver_weak"] leads_modifyS leads_jointS)
      (auto simp: ver_ok_def intro!: keystream_gatedI)
  have server: "keeping ver_ok ver_weak (bindS (?j False) (rotate_apply E False))"
    by (rule leads_bindS [OF leads_ver_quiet [OF joint] leads_weaken [OF new]]) (auto simp: ver_ok_weak)
  have "evolves ver_quiet (rotate_apply E True out)" for out
    unfolding rotate_apply_def
    by (intro ver_quiet.evolves_ops ver_quiet.evolves_modifyS) (simp_all add: ver_quiet_def set_rotated_def)
  then have "keeping ver_ok ver_weak (bindS (?j True) (rotate_apply E True))"
    by (intro leads_ver_quiet ver_quiet.evolves_bindS joint)
  with server have body: "keeping ver_ok ver_weak (bindS (?j c) (rotate_apply E c))" for c by (cases c) simp_all
  show ?thesis
    unfolding rotate_key_op_def Let_def
    by (rule leads_thenS [OF leads_ver_quiet leads_bindS [OF leads_ver_quiet leads_thenS [OF leads_ver_quiet
          leads_thenS [OF leads_ver_quiet body]]]]; intro ver_quiet.evolves_ops)
qed

text \<open>The counters of a batch belong to the records it is asked for.\<close>

lemma ks_counter_seq: "ks_counter recs nblocks idx = Some (seq, n) \<Longrightarrow> \<exists>r \<in> set recs. seq = rd_seq r"
proof -
  have "\<exists>r \<in> set recs. seq = rd_seq r" if "resolve recs i = Some (seq, m)" for i m
    using resolve_from_Some [of 0 recs i seq m] that by (auto simp: resolve_def)
  then show "ks_counter recs nblocks idx = Some (seq, n) \<Longrightarrow> \<exists>r \<in> set recs. seq = rd_seq r"
    by (auto simp: ks_counter_def split: if_splits Option.bind_splits)
qed

lemma those_Some_mem:
  assumes "those (map f xs) = Some ys" "y \<in> set ys"
  shows "\<exists>x \<in> set xs. f x = Some y"
  using assms by (induction xs arbitrary: ys) (auto split: option.splits)

lemma ks_batch_counter:
  assumes "ks_batch_verifier k mc recs nblocks batch = Some i" "c \<in> set (ks_ctr i)"
  shows "\<exists>r \<in> set recs. \<exists>n. c = ctr_block (tk_server_iv k) (rd_seq r) n" "ks_key i = tk_server_key_share k"
proof -
  obtain ctrs where ctrs: "ks_batch_ctrs (tk_server_iv k) recs nblocks batch = Some ctrs" "ks_ctr i = ctrs"
    and "ks_key i = tk_server_key_share k"
    using assms(1) by (auto simp: ks_batch_verifier_def split: Option.bind_splits)
  then show "ks_key i = tk_server_key_share k" by simp
  obtain j where "do { (seq, n) \<leftarrow> ks_counter recs nblocks (batch * KS_BATCH_N + j); Some (ctr_block (tk_server_iv k) seq n) } = Some c"
    using those_Some_mem [OF ctrs(1) [unfolded ks_batch_ctrs_def]] assms(2) ctrs(2) by blast
  then have "\<exists>seq n. ks_counter recs nblocks (batch * KS_BATCH_N + j) = Some (seq, n) \<and> c = ctr_block (tk_server_iv k) seq n"
    by (auto split: Option.bind_splits prod.splits)
  then show "\<exists>r \<in> set recs. \<exists>n. c = ctr_block (tk_server_iv k) (rd_seq r) n" using ks_counter_seq by blast
qed

definition ver_recs :: "RecordDims list \<Rightarrow> server \<Rightarrow> bool" where
  "ver_recs recs s \<longleftrightarrow> ver_ok s \<and> (\<forall>r \<in> set recs. rd_seq r \<in> set (sv_verified_seqs s))"

lemma ver_recs_event:
  assumes "ver_recs recs s" "ks_batch_verifier (sv_traffic_key_shares s) mc recs nblocks batch = Some i"
  shows "ver_recs recs (s\<lparr>sv_steps := n, sv_trace := sv_trace s @ [Ran_ks_batch i v]\<rparr>)"
proof -
  let ?k = "sv_traffic_key_shares s"
  have "\<exists>iv seq n. vouched (sv_trace s) (ks_key i) iv seq \<and> c = ctr_block iv seq n" if c: "c \<in> set (ks_ctr i)" for c
  proof -
    obtain r n where r: "r \<in> set recs" "c = ctr_block (tk_server_iv ?k) (rd_seq r) n"
      using ks_batch_counter(1) [OF assms(2) c] by blast
    have "vouched (sv_trace s) (ks_key i) (tk_server_iv ?k) (rd_seq r)"
      using assms(1) r(1) ks_batch_counter(2) [OF assms(2) c] by (simp add: ver_recs_def ver_ok_def)
    then show ?thesis using r(2) by blast
  qed
  then have "keystream_gated (sv_trace s @ [Ran_ks_batch i v])"
    using assms(1) by (intro keystream_gatedI) (auto simp: ver_recs_def ver_ok_def)
  then show ?thesis using assms(1) by (auto simp: ver_recs_def ver_ok_def vouched_append)
qed

lemma ver_recs_weak: "ver_recs recs s \<Longrightarrow> ver_weak s"
  by (simp add: ver_recs_def ver_ok_def)

lemma leads_recs_quiet: "evolves ver_quiet m \<Longrightarrow> keeping (ver_recs recs) ver_weak m"
proof (erule leads_evolves)
  show "ver_recs recs t" if "ver_recs recs s" "ver_quiet s t" for s t
    using that ver_quiet_ok [OF _ that(2)] by (simp add: ver_recs_def) (simp add: ver_quiet_def)
qed (rule ver_recs_weak)

lemma leads_ks_batch: "keeping (ver_recs recs) ver_weak (ks_batch_op E recs nblocks batch)"
proof -
  let ?in = "\<lambda>i s. ver_recs recs s \<and> (\<exists>mc. ks_batch_verifier (sv_traffic_key_shares s) mc recs nblocks batch = Some i)"
  have "leads (ver_recs recs) ?in ver_weak (withS (\<lambda>s. optionS
      (ks_batch_verifier (sv_traffic_key_shares s) (sv_mask_commitment s) recs nblocks batch)))"
    by (intro leads_withS leads_optionS) (auto simp: ver_recs_weak)
  moreover have "leads (?in i) (\<lambda>_. ver_recs recs) ver_weak (jointS (e_ks_batch E) Ran_ks_batch i)" for i
    by (rule leads_jointS) (blast intro: ver_recs_event ver_recs_weak)+
  moreover have "keeping (ver_recs recs) ver_weak (checkS c)" for c
    by (intro leads_recs_quiet ver_quiet.evolves_ops)
  moreover have "keeping (ver_recs recs) ver_weak (stepS (\<lambda>k. checkS (e_ks_empty E k \<longrightarrow> e_preproc E k)))"
    by (intro leads_recs_quiet ver_quiet.evolves_ops)
  ultimately show ?thesis unfolding ks_batch_op_def by (intro leads_thenS leads_bindS)
qed

lemma ver_keeps_keystream: "keeping ver_ok ver_weak (derive_keystream_blocks E)"
proof -
  have dims: "evolves ver_quiet (read_dims n)" for n
    by (induction n) (auto simp: read_record_dims_def Let_def intro!: ver_quiet.evolves_ops)
  have verified: "leads ver_ok (\<lambda>_. ver_recs recs) ver_weak
      (withS (\<lambda>s. checkS (\<forall>r \<in> set recs. rd_seq r \<in> set (sv_verified_seqs s))))" for recs
    by (intro leads_withS leads_checkS) (auto simp: ver_ok_weak ver_recs_def)
  have batches: "leads (ver_recs recs) (\<lambda>_. ver_ok) ver_weak (if nblocks = 0 then returnS ()
      else eachS (ks_batch_op E recs nblocks) [0..<m])" for recs nblocks m
  proof -
    have "keeping (ver_recs recs) ver_weak (eachS (ks_batch_op E recs nblocks) [0..<m])"
      using leads_eachS [where Q = "\<lambda>_. ver_recs recs" and xs = "[0..<m]", OF leads_ks_batch] .
    then have "leads (ver_recs recs) (\<lambda>_. ver_ok) ver_weak (eachS (ks_batch_op E recs nblocks) [0..<m])"
      by (rule leads_weaken) (simp_all add: ver_recs_def)
    then show ?thesis by (intro leads_if leads_returnS) (simp_all add: ver_recs_def)
  qed
  show ?thesis
    unfolding derive_keystream_blocks_def Let_def
    by (rule leads_thenS [OF leads_ver_quiet leads_bindS [OF leads_ver_quiet leads_thenS [OF leads_ver_quiet
          leads_bindS [OF leads_ver_quiet [OF dims] leads_thenS [OF verified batches]]]]]; intro ver_quiet.evolves_ops)
qed

interpretation ver_guard: guard ver_quiet "\<lambda>e. \<not> is_ks e" ver_fresh ver_ok ver_weak
proof unfold_locales
  show "\<not> is_ks e" if "\<not> on_records e" for e using that by (cases e) simp_all
  show "ver_fresh t" if "ver_fresh s" "ver_quiet s t" for s t
    using that ver_quiet_weak [OF that(2)] by (simp add: ver_fresh_def) (simp add: ver_quiet_def)
  show "ver_ok t" if "ver_ok s" "ver_quiet s t" for s t using that by (rule ver_quiet_ok)
  show "ver_ok (s\<lparr>sv_steps := n, sv_trace := sv_trace s @ [Ran_traffic ms (Some k)], sv_traffic_key_shares := k\<rparr>)"
    if "ver_fresh s" for s n ms k
    using that by (auto simp: ver_fresh_def ver_ok_def intro!: keystream_gatedI)
  show "ver_weak (s\<lparr>sv_steps := n, sv_trace := sv_trace s @ [Ran_traffic ms v]\<rparr>)" if "ver_fresh s" for s n ms v
    using that by (auto simp: ver_fresh_def intro!: keystream_gatedI)
  show "keeping ver_ok ver_weak op" if "serve_op E b = Some op" for E b op
    using that ver_quiet_ops [THEN leads_ver_quiet] ver_keeps_rotate ver_keeps_verify ver_keeps_keystream
    by (auto simp: serve_op_def split: if_splits)
qed (simp_all add: ver_quiet_def ver_fresh_def ver_ok_weak reset_per_connection_state_def)

section \<open>A released key attests nothing\<close>

fun server_rotation :: "event \<Rightarrow> bool" where
  "server_rotation (Ran_rotate (is_client, _) _) = (\<not> is_client)"
| "server_rotation _ = False"

fun is_vfy :: "event \<Rightarrow> bool" where
  "is_vfy (Ran_gcm_vfy _ _) = True"
| "is_vfy (Ran_gcm_vfy_commit _ _) = True"
| "is_vfy _ = False"

definition is_sealed :: "server \<Rightarrow> bool" where
  "is_sealed s \<longleftrightarrow> sv_true_surf s \<and> sv_key_released s"

definition closed :: "server \<Rightarrow> server \<Rightarrow> event list \<Rightarrow> bool" where
  "closed s t es \<longleftrightarrow> is_sealed t \<and> sv_attested_ct t = sv_attested_ct s \<and> sv_verified_seqs t = sv_verified_seqs s \<and>
     list_all (\<lambda>e. \<not> is_vfy e) es"

text \<open>Once the key share is out, nothing is verified or attested before the server key has been rotated.\<close>

definition stays_closed :: "server \<Rightarrow> server \<Rightarrow> bool" where
  "stays_closed s t \<longleftrightarrow> (\<exists>es. sv_trace t = sv_trace s @ es \<and> (is_sealed s \<longrightarrow> list_ex server_rotation es \<or> closed s t es))"

lemma stays_closedI: "sv_trace t = sv_trace s @ es \<Longrightarrow> (is_sealed s \<Longrightarrow> list_ex server_rotation es \<or> closed s t es) \<Longrightarrow> stays_closed s t"
  unfolding stays_closed_def by blast

lemma stays_closed_trans:
  assumes "stays_closed s t" "stays_closed t u"
  shows "stays_closed s u"
proof -
  obtain es es' where st: "sv_trace t = sv_trace s @ es" "is_sealed s \<longrightarrow> list_ex server_rotation es \<or> closed s t es"
    and tu: "sv_trace u = sv_trace t @ es'" "is_sealed t \<longrightarrow> list_ex server_rotation es' \<or> closed t u es'"
    using assms unfolding stays_closed_def by blast
  show ?thesis
  proof (rule stays_closedI)
    show "sv_trace u = sv_trace s @ (es @ es')" using st tu by simp
    show "list_ex server_rotation (es @ es') \<or> closed s u (es @ es')" if "is_sealed s"
      using st(2) tu(2) that by (auto simp: closed_def)
  qed
qed

interpretation stays_closed: evolution stays_closed "\<lambda>e. \<not> is_vfy e"
proof unfold_locales
  show "stays_closed s u" if "stays_closed s t" "stays_closed t u" for s t u using that by (rule stays_closed_trans)
  show "stays_closed s (s\<lparr>sv_trace := sv_trace s @ [e]\<rparr>)" if "\<not> is_vfy e" for s e
    using that by (intro stays_closedI [where es = "[e]"]) (auto simp: closed_def is_sealed_def)
qed (auto intro!: stays_closedI [where es = "[]"] simp: closed_def is_sealed_def)

lemma closed_update:
  assumes "\<And>s. sv_trace (f s) = sv_trace s \<and> sv_true_surf (f s) = sv_true_surf s \<and> sv_key_released (f s) = sv_key_released s \<and>
    sv_attested_ct (f s) = sv_attested_ct s \<and> sv_verified_seqs (f s) = sv_verified_seqs s"
  shows "evolves stays_closed (modifyS f)"
  using assms by (intro stays_closed.evolves_modifyS stays_closedI [where es = "[]"]) (auto simp: closed_def is_sealed_def)

lemma later_trace: "evolves later m \<Longrightarrow> \<exists>es. sv_trace (snd (m s)) = sv_trace s @ es"
  by (simp add: evolves_def later_def)

text \<open>An operation that a sealed server refuses.\<close>

lemma closed_refused:
  assumes "evolves later m" "\<And>s. is_sealed s \<Longrightarrow> m s = (Refused, s)"
  shows "evolves stays_closed m"
  unfolding evolves_def
proof
  fix s
  obtain es where "sv_trace (snd (m s)) = sv_trace s @ es" using later_trace [OF assms(1)] by blast
  then show "stays_closed s (snd (m s))"
    using assms(2) [of s] by (cases "is_sealed s") (auto simp: stays_closed_def closed_def)
qed

lemma closed_rotation:
  assumes "\<And>s. \<exists>i v. sv_trace (snd (m s)) = sv_trace s @ [Ran_rotate (False, i) v]" "\<And>x. evolves later (f x)"
  shows "evolves stays_closed (bindS m f)"
  unfolding evolves_def
proof
  fix s
  obtain i v where m: "sv_trace (snd (m s)) = sv_trace s @ [Ran_rotate (False, i) v]" using assms(1) by blast
  obtain es where "sv_trace (snd (bindS m f s)) = sv_trace (snd (m s)) @ es"
    using later_trace [OF assms(2)] by (cases "m s"; cases "fst (m s)") (auto simp: bindS_def)
  with m show "stays_closed s (snd (bindS m f s))"
    by (intro stays_closedI [where es = "Ran_rotate (False, i) v # es"]) simp_all
qed

lemma closed_rotate_key: "evolves stays_closed (rotate_key_op E)"
proof -
  let ?j = "\<lambda>c. withS (\<lambda>s. jointS (e_rotate E) Ran_rotate (c, if c then tk_CATS_share (sv_traffic_key_shares s)
    else tk_SATS_share (sv_traffic_key_shares s)))"
  have "evolves later (rotate_apply E c out)" for c out
    unfolding rotate_apply_def by (intro later.evolves_record_ops; simp add: record_part_only_def)
  then have "evolves stays_closed (bindS (?j False) (rotate_apply E False))"
    by (intro closed_rotation)
      (auto simp: withS_def jointS_def stepS_def thenS_def bindS_def recordS_def modifyS_def optionS_def split: option.splits)
  moreover have "evolves stays_closed (bindS (?j True) (rotate_apply E True))"
    unfolding rotate_apply_def by (intro stays_closed.evolves_ops closed_update) simp_all
  ultimately have "evolves stays_closed (bindS (?j c) (rotate_apply E c))" for c by (cases c) simp_all
  then show ?thesis
    unfolding rotate_key_op_def Let_def
    by (intro stays_closed.evolves_thenS stays_closed.evolves_withS stays_closed.evolves_checkS
        stays_closed.evolves_bindS [OF stays_closed.evolves_read_exact])
qed

lemma closed_serve_op:
  assumes "serve_op E b = Some op"
  shows "evolves stays_closed op"
proof -
  have late: "evolves later op" using later.evolves_serve_op assms by blast
  have "evolves stays_closed (encrypt_blocks E)" "evolves stays_closed (make_gcm_tag E)"
    unfolding encrypt_blocks_def enc_batch_op_def make_gcm_tag_def Let_def
    by (intro stays_closed.evolves_ops closed_update; simp)+
  moreover have dims: "evolves stays_closed (read_dims n)" for n
    by (induction n) (auto simp: read_record_dims_def Let_def intro!: stays_closed.evolves_ops)
  have "evolves stays_closed (derive_keystream_blocks E)"
    unfolding derive_keystream_blocks_def ks_batch_op_def Let_def by (auto intro!: stays_closed.evolves_ops dims)
  moreover have "evolves stays_closed op" if "op \<in> {verify_gcm_tag E, read_key_commitment, release_key E}"
    using that by (intro closed_refused [OF late])
      (auto simp: verify_gcm_tag_def read_key_commitment_def release_key_def is_sealed_def thenS_def bindS_def withS_def checkS_def)
  ultimately show ?thesis using assms closed_rotate_key by (auto simp: serve_op_def split: if_splits)
qed

lemma closed_attest: "evolves stays_closed (attest E)"
  by (rule stays_closed.evolves_attest_if) (rule closed_serve_op)

lemma closed_drain: "evolves stays_closed (read_header_draining_encryption E)"
  by (rule stays_closed.evolves_drain_if) (rule closed_serve_op)

section \<open>The circuit of the second group\<close>

text \<open>No handler builds the handshake circuit that belongs to the second key share.\<close>

definition no_new_hs1 :: "server \<Rightarrow> server \<Rightarrow> bool" where
  "no_new_hs1 s t \<longleftrightarrow> (sv_circuits t C_HS1 \<longrightarrow> sv_circuits s C_HS1)"

interpretation no_new_hs1: record_evolution no_new_hs1 "\<lambda>_. True"
proof unfold_locales
  show "no_new_hs1 s t" if "record_part_only s t" for s t
    using that by (rule record_part_onlyE) (simp add: no_new_hs1_def)
qed (auto simp: no_new_hs1_def)

interpretation no_new_hs1: handshake_evolution no_new_hs1 "\<lambda>_. True"
proof unfold_locales
  show "no_new_hs1 s t" if "handshake_part_only s t" for s t
    using that by (rule handshake_part_onlyE) (simp add: no_new_hs1_def)
qed

lemma no_new_hs1_preproc: "evolves no_new_hs1 (server_do_preproc E p)"
proof -
  have circuit: "evolves no_new_hs1 (preproc_circuit E c)" if "c \<noteq> C_HS1" for c
    unfolding preproc_circuit_def
    by (intro no_new_hs1.evolves_handlers no_new_hs1.evolves_modifyS) (use that in \<open>simp add: no_new_hs1_def\<close>)
  have "evolves no_new_hs1 (eachS (preproc_circuit E) cs)" if "C_HS1 \<notin> set cs" for cs
    using that
    by (induction cs) (auto intro!: no_new_hs1.evolves_returnS no_new_hs1.evolves_thenS circuit)
  moreover have "C_HS1 \<notin> set (preproc_list m b)" for m b by (simp add: preproc_list_def)
  ultimately show ?thesis
    unfolding server_do_preproc_def advance_def goto_def
    by (auto intro!: no_new_hs1.evolves_thenS no_new_hs1.evolves_withS no_new_hs1.evolves_modifyS simp: no_new_hs1_def)
qed

lemma no_new_hs1_finish_tph: "evolves no_new_hs1 (finish_tph E)"
  unfolding evolves_def finish_tph_def
  by (auto simp: withS_def thenS_def bindS_def checkS_def optionS_def goto_def modifyS_def Let_def no_new_hs1_def
      split: prod.splits outcome.splits option.splits if_splits)

lemma no_new_hs1_run_state: "evolves no_new_hs1 (run_state E p st)"
proof -
  note rules = no_new_hs1.evolves_handlers no_new_hs1.evolves_modifyS no_new_hs1.evolves_drain no_new_hs1.evolves_attest
  have wr: "evolves no_new_hs1 (write_handshake_done E)"
    unfolding write_handshake_done_def handshake_done_impl_def goto_def by (auto intro!: rules simp: no_new_hs1_def)
  have "evolves no_new_hs1 (server_do_handshake E)"
    unfolding server_do_handshake_def goto_def by (auto intro!: rules wr simp: no_new_hs1_def)
  moreover have "evolves no_new_hs1 (create_new_share E)"
    unfolding create_new_share_def advance_def by (auto intro!: rules simp: no_new_hs1_def split: prod.splits)
  moreover have "evolves no_new_hs1 (run_state E p st)"
    if "st \<notin> {S_HANDSHAKE, S_HANDSHAKE_DONE, S_CIRCUIT_PREPROC, S_MAKING_KS, S_FINISHING_TPH}"
    using that unfolding run_state_def handler_defs advance_def goto_def Let_def
    by (cases st; simp) (auto intro!: rules simp: no_new_hs1_def split: prod.splits)
  ultimately show ?thesis
    using wr no_new_hs1_preproc no_new_hs1_finish_tph by (cases st) (simp_all add: run_state_def)
qed

section \<open>Repeated tags\<close>

lemma read_exact_shape:
  assumes "read_exact_blocking n s = (Returned bs, t)"
  obtains rx where "t = s\<lparr>sv_rx := rx\<rparr>"
  using assms by (auto simp: read_exact_blocking_def split: option.splits)

lemma bindS_Returned:
  assumes "bindS m f s = (Returned y, t)"
  obtains x u where "m s = (Returned x, u)" "f x u = (Returned y, t)"
  using assms by (auto simp: bindS_def split: prod.splits outcome.splits)

text \<open>What a tag is computed with is not used up by it.\<close>

lemma tag_event:
  assumes "make_gcm_tag E s = (Returned (), t)"
  obtains i v where "sv_trace t = sv_trace s @ [Ran_gcm_tag i v]"
    "gt_key_share i = tk_client_key_share (sv_traffic_key_shares s)"
    "gt_iv i = ctr_block (tk_client_iv (sv_traffic_key_shares s)) (last (sv_encrypted_seqs s)) 1"
    "sv_traffic_key_shares t = sv_traffic_key_shares s" "sv_encrypted_seqs t = sv_encrypted_seqs s"
  using assms unfolding make_gcm_tag_def thenS_def Let_def
  by (elim bindS_Returned)
    (auto simp: need_circuit_def withS_def checkS_def modifyS_def optionS_def jointS_def stepS_def recordS_def thenS_def bindS_def
      tag_input_verifier_def elim!: read_exact_shape split: if_splits option.splits Option.bind_splits)

end
