(* ===== verification/Server_Keys.thy ===== *)
theory Server_Keys
  imports Server_Guard
begin

text \<open>
  What a completed run of the verifier has done: the states it has walked through, and the joint
  computations of the key schedule, each of which takes what the one before it has returned.
\<close>

section \<open>The walk through the states\<close>

definition state_graph :: "(ServerState \<times> ServerState) set" where
  "state_graph = {(a, b). b \<in> successors a}"

lemma server_loop_rule:
  assumes fin: "server_loop E stop p w s = (Returned (), t)" and start: "P s"
    and step: "\<And>s t. P s \<Longrightarrow> \<not> should_stop (sv_state s) stop \<Longrightarrow> run_state E p (sv_state s) s = (Returned (), t) \<Longrightarrow> P t"
  shows "P t \<and> should_stop (sv_state t) stop"
  using assms
proof (induction E stop p w s rule: server_loop.induct)
  case (1 E stop p w s)
  show ?case
  proof (cases "should_stop (sv_state s) stop")
    case True
    then show ?thesis using 1(2,3) by (simp add: server_loop.simps [of _ _ _ _ s])
  next
    case False
    obtain r u where r: "run_state E p (sv_state s) s = (r, u)" by fastforce
    have ret: "r = Returned ()" and loop: "server_loop E stop p (Returned ()) u = (Returned (), t)"
      using 1(2) r False by (cases r; simp add: server_loop.simps [of _ _ _ _ s])+
    have "P u" using 1(4) [OF 1(3) False] r ret by simp
    from 1(1) [OF False r [symmetric] ret loop this] 1(4) show ?thesis by blast
  qed
qed

lemma server_loop_walk:
  assumes "server_loop E stop p w s = (Returned (), t)"
  shows "(sv_state s, sv_state t) \<in> state_graph\<^sup>* \<and> should_stop (sv_state t) stop"
proof (rule server_loop_rule [OF assms])
  show "(sv_state s, sv_state u) \<in> state_graph\<^sup>*"
    if "(sv_state s, sv_state t) \<in> state_graph\<^sup>*" "run_state E p (sv_state t) t = (Returned (), u)" for t u
    using that run_state_successor [OF that(2)] by (auto simp: state_graph_def elim: rtrancl_into_rtrancl)
qed simp

section \<open>The key schedule\<close>

definition chained :: "server \<Rightarrow> server \<Rightarrow> bool" where
  "chained s t \<longleftrightarrow> set (sv_trace s) \<subseteq> set (sv_trace t) \<and> sv_x_secret t = sv_x_secret s \<and>
     sv_handshake_key_shares t = sv_handshake_key_shares s"

interpretation chained: record_evolution chained "\<lambda>_. True"
proof unfold_locales
  show "chained s t" if "record_part_only s t" for s t
    using that by (rule record_part_onlyE) (simp add: chained_def)
qed (auto simp: chained_def)

interpretation chained: reading_evolution chained "\<lambda>_. True"
proof unfold_locales
  show "chained s t" if "reading_part_only s t" for s t
    using that by (rule reading_part_onlyE) (simp add: chained_def)
qed

lemma chained_handlers:
  "evolves chained (finish_ectf E)" "evolves chained (write_ks_done E)" "evolves chained (do_cert_wait E)"
  "evolves chained (write_cert_recv E)" "evolves chained (derive_ts E)" "evolves chained (derive_gcm_shares E)"
  "evolves chained (write_completed_derivation E)" "evolves chained (derive_res E)" "evolves chained (write_completed_res E)"
  "evolves chained (derive_psk E)" "evolves chained (write_completed_psk E)"
  unfolding handler_defs advance_def Let_def
  by (auto intro!: chained.evolves_ops chained.evolves_modifyS chained.evolves_transcript_data chained.evolves_drain
      simp: chained_def)

lemma chained_shutdown: "evolves chained (run_state E p S_SHUTDOWN)"
  unfolding run_state_def handler_defs goto_def
  by (auto intro!: chained.evolves_ops chained.evolves_modifyS chained.evolves_attest simp: chained_def)

text \<open>What has been computed when a state is reached, by its number.\<close>

definition milestones :: "nat \<Rightarrow> server \<Rightarrow> bool" where
  "milestones n s \<longleftrightarrow>
     (let ran = (\<lambda>e. e \<in> set (sv_trace s)); ms = ho_MS_share (sv_handshake_key_shares s) in
      (12 < n \<longrightarrow> (\<exists>x y. ran (Ran_ectf x y (Some (sv_x_secret s))))) \<and>
      (14 < n \<longrightarrow> (\<exists>psk. ran (Ran_handshake (sv_x_secret s, psk) (Some (sv_handshake_key_shares s))))) \<and>
      (18 < n \<longrightarrow> (\<exists>k. ran (Ran_traffic ms (Some k)) \<and> (n = 19 \<longrightarrow> k = sv_traffic_key_shares s) \<and>
         (19 < n \<longrightarrow> (\<exists>c v. ran (Ran_gcm_share (tk_client_key_share k) (Some c)) \<and> ran (Ran_gcm_share (tk_server_key_share k) (Some v)))))) \<and>
      (21 < n \<longrightarrow> (\<exists>r. ran (Ran_resumption ms (Some r)))))"

lemma milestones_early: "n \<le> 12 \<Longrightarrow> milestones n s"
  by (simp add: milestones_def)

lemma milestones_chained:
  assumes "milestones n s" "chained s t" "n \<noteq> 19"
  shows "milestones n t"
  using assms unfolding milestones_def chained_def Let_def by (simp add: subset_iff) blast

lemma milestones_Suc:
  assumes "milestones n s" "chained s t" "n \<notin> {12, 14, 18, 19, 21}"
  shows "milestones (Suc n) t"
proof -
  have "milestones (Suc n) t \<longleftrightarrow> milestones n t" using assms(3) by (auto simp: milestones_def Let_def less_Suc_eq)
  then show ?thesis using milestones_chained assms by simp
qed

abbreviation reaches :: "nat \<Rightarrow> nat \<Rightarrow> 'a action \<Rightarrow> bool" where
  "reaches n m \<equiv> leads (milestones n) (\<lambda>_. milestones m) (\<lambda>_. True)"

lemma reaches_chained: "evolves chained m \<Longrightarrow> n \<noteq> 19 \<Longrightarrow> reaches n n m"
  by (erule leads_evolves) (auto intro: milestones_chained)

lemma reaches_step:
  assumes "evolves chained m" "n \<notin> {12, 14, 18, 19, 21}"
  shows "reaches n (Suc n) m"
  unfolding leads_def
proof (intro allI impI)
  fix s
  assume "milestones n s"
  then have "milestones (Suc n) (snd (m s))" using assms milestones_Suc unfolding evolves_def by blast
  then show "case m s of (Returned x, t) \<Rightarrow> milestones (Suc n) t | (_, t) \<Rightarrow> True"
    by (auto split: prod.splits outcome.splits)
qed

lemma reaches_advance: "reaches n n advance"
  unfolding advance_def by (rule leads_modifyS) (simp add: milestones_def)

text \<open>The small steps do not touch the traffic keys either.\<close>

definition same_keys :: "server \<Rightarrow> server \<Rightarrow> bool" where
  "same_keys s t \<longleftrightarrow> chained s t \<and> sv_traffic_key_shares t = sv_traffic_key_shares s"

interpretation same_keys: evolution same_keys "\<lambda>_. True"
  by unfold_locales (auto simp: same_keys_def chained_def)

lemma milestones_same_keys: "milestones n s \<Longrightarrow> same_keys s t \<Longrightarrow> milestones n t"
  unfolding milestones_def same_keys_def chained_def Let_def by (simp add: subset_iff) blast

lemma reaches_same: "evolves same_keys m \<Longrightarrow> reaches n n m"
  by (erule leads_evolves) (auto intro: milestones_same_keys)

lemma leads_any: "leads P (\<lambda>_ _. True) (\<lambda>_. True) m"
  by (auto simp: leads_def split: prod.splits outcome.splits)

lemma reaches_do_ectf: "reaches 12 13 (do_ectf E)"
proof -
  let ?Q = "\<lambda>x t. \<exists>a b. Ran_ectf a b (Some x) \<in> set (sv_trace t)"
  have "leads (\<lambda>_. True) ?Q (\<lambda>_. True) (withS (\<lambda>s. let k = sv_key_shares s ! sv_active_key_share s
        in jointS (e_ectf E) (\<lambda>(x, y, g). Ran_ectf x y) (kh_out_secret k, kh_out_other_secret k, kh_group_id k)))"
    unfolding Let_def by (intro leads_withS leads_jointS) auto
  moreover have "leads (?Q x) (\<lambda>_. milestones 13) (\<lambda>_. True) (thenS (modifyS (\<lambda>s. s\<lparr>sv_x_secret := x\<rparr>)) advance)" for x
    by (rule leads_thenS [OF leads_modifyS reaches_advance]) (simp add: milestones_def)
  ultimately have body: "leads (\<lambda>_. True) (\<lambda>_. milestones 13) (\<lambda>_. True) (bindS (withS (\<lambda>s. let k = sv_key_shares s ! sv_active_key_share s
        in jointS (e_ectf E) (\<lambda>(x, y, g). Ran_ectf x y) (kh_out_secret k, kh_out_other_secret k, kh_group_id k)))
      (\<lambda>x. thenS (modifyS (\<lambda>s. s\<lparr>sv_x_secret := x\<rparr>)) advance))"
    by (rule leads_bindS)
  show ?thesis
    unfolding do_ectf_def
    by (rule leads_bindS [OF leads_any leads_thenS [OF leads_any leads_thenS [OF leads_any leads_thenS [OF leads_any body]]]])
qed

lemma reaches_do_ks: "reaches 14 15 (do_ks E)"
  unfolding do_ks_def Let_def
proof (rule leads_withS)
  fix s :: server
  let ?c = "handshake_circuit (sv_active_key_share s)"
    and ?psk = "if sv_resumed_handshake s then sv_PSK_share s else replicate 16 0"
  let ?P = "\<lambda>t. milestones 14 t \<and> t = s"
  let ?Q = "\<lambda>out t. \<exists>n. milestones 14 s \<and> t = s\<lparr>sv_steps := n, sv_trace := sv_trace s @ [Ran_handshake (sv_x_secret s, ?psk) (Some out)]\<rparr>"
  have d: "leads ?P (\<lambda>_. ?P) (\<lambda>_. True) (deref_circuit ?c)"
    by (auto simp: leads_def deref_circuit_def withS_def assertS_def)
  have j: "leads ?P ?Q (\<lambda>_. True) (jointS (e_handshake E) Ran_handshake (sv_x_secret s, ?psk))"
    by (intro leads_jointS) auto
  have m: "leads (?Q out) (\<lambda>_. milestones 15) (\<lambda>_. True)
      (thenS (modifyS (\<lambda>s. s\<lparr>sv_handshake_key_shares := out, sv_circuits := (sv_circuits s)(?c := False)\<rparr>)) advance)" for out
    by (rule leads_thenS [OF leads_modifyS reaches_advance]) (clarsimp simp: milestones_def Let_def, blast)
  show "leads ?P (\<lambda>_. milestones 15) (\<lambda>_. True) (thenS (deref_circuit ?c)
      (bindS (jointS (e_handshake E) Ran_handshake (sv_x_secret s, ?psk)) (\<lambda>out.
       thenS (modifyS (\<lambda>s. s\<lparr>sv_handshake_key_shares := out, sv_circuits := (sv_circuits s)(?c := False)\<rparr>)) advance)))"
    by (rule leads_thenS [OF d leads_bindS [OF j m]])
qed

text \<open>A joint computation whose input is read off the server.\<close>

lemma reaches_joint:
  assumes "\<And>s v n. milestones m s \<Longrightarrow> Q v (s\<lparr>sv_steps := n, sv_trace := sv_trace s @ [ev (i s) (Some v)]\<rparr>)"
  shows "leads (milestones m) Q (\<lambda>_. True) (withS (\<lambda>s. jointS run ev (i s)))"
  using assms by (intro leads_withS leads_jointS) auto

lemma reaches_prelude:
  assumes "leads (milestones m) Q (\<lambda>_. True) n"
  shows "leads (milestones m) Q (\<lambda>_. True) (thenS (expect_header h) (thenS (deref_circuit c) n))"
  by (rule leads_thenS [OF reaches_same leads_thenS [OF reaches_same assms]]) (intro same_keys.evolves_ops)+

lemma milestones_event: "milestones n s \<Longrightarrow> milestones n (s\<lparr>sv_steps := k, sv_trace := sv_trace s @ [e]\<rparr>)"
  by (erule milestones_same_keys) (auto simp: same_keys_def chained_def)

lemma reaches_derive_ts: "reaches 18 19 (derive_ts E)"
proof -
  let ?Q = "\<lambda>k t. milestones 18 t \<and> Ran_traffic (ho_MS_share (sv_handshake_key_shares t)) (Some k) \<in> set (sv_trace t)"
  have "leads (?Q k) (\<lambda>_. milestones 19) (\<lambda>_. True) (thenS (modifyS (\<lambda>s. s\<lparr>sv_traffic_key_shares := k\<rparr>)) advance)" for k
    by (rule leads_thenS [OF leads_modifyS reaches_advance]) (auto simp: milestones_def Let_def)
  then show ?thesis
    unfolding derive_ts_def
    by (intro reaches_prelude leads_bindS [where Q = ?Q] reaches_joint) (auto intro: milestones_event)
qed

lemma reaches_derive_res: "reaches 21 22 (derive_res E)"
proof -
  let ?Q = "\<lambda>r t. milestones 21 t \<and> Ran_resumption (ho_MS_share (sv_handshake_key_shares t)) (Some r) \<in> set (sv_trace t)"
  have "leads (?Q r) (\<lambda>_. milestones 22) (\<lambda>_. True) (thenS (modifyS (\<lambda>s. s\<lparr>sv_RMS_share := r\<rparr>)) advance)" for r
    by (rule leads_thenS [OF leads_modifyS reaches_advance]) (auto simp: milestones_def Let_def)
  then show ?thesis
    unfolding derive_res_def
    by (intro reaches_prelude leads_bindS [where Q = ?Q] reaches_joint) (auto intro: milestones_event)
qed

lemma reaches_derive_gcm_shares: "reaches 19 20 (derive_gcm_shares E)"
proof -
  let ?client = "\<lambda>t. \<exists>c. Ran_gcm_share (tk_client_key_share (sv_traffic_key_shares t)) (Some c) \<in> set (sv_trace t)"
    and ?server = "\<lambda>t. \<exists>c. Ran_gcm_share (tk_server_key_share (sv_traffic_key_shares t)) (Some c) \<in> set (sv_trace t)"
  let ?P = "\<lambda>_ t. milestones 19 t \<and> ?client t" and ?Q = "\<lambda>_ t. milestones 19 t \<and> ?client t \<and> ?server t"
  have c: "leads (milestones 19) ?P (\<lambda>_. True)
      (withS (\<lambda>s. jointS (e_gcm_share E) Ran_gcm_share (tk_client_key_share (sv_traffic_key_shares s))))"
    by (rule reaches_joint) (auto intro: milestones_event)
  have v: "leads (?P x) ?Q (\<lambda>_. True)
      (withS (\<lambda>s. jointS (e_gcm_share E) Ran_gcm_share (tk_server_key_share (sv_traffic_key_shares s))))" for x :: unit
    by (intro leads_withS leads_jointS) (auto intro: milestones_event)
  have m: "leads (?P x) ?P (\<lambda>_. True) (modifyS (\<lambda>s. s\<lparr>sv_client_gcm_powers := g\<rparr>))" for x :: bytes and g
    by (rule leads_modifyS) (auto simp: milestones_def)
  have w: "leads (?Q x) (\<lambda>_. milestones 20) (\<lambda>_. True) (thenS (modifyS (\<lambda>s. s\<lparr>sv_server_gcm_powers := g\<rparr>)) advance)" for x :: bytes and g
    by (rule leads_thenS [OF leads_modifyS reaches_advance]) (auto simp: milestones_def Let_def)
  show ?thesis
    unfolding derive_gcm_shares_def
    by (intro reaches_prelude) (rule leads_bindS [OF c leads_thenS [OF m leads_bindS [OF v w]]])
qed

text \<open>Every handler from the conversion of the shared point on reaches the next milestone.\<close>

lemma run_state_milestones:
  assumes "milestones (state_num (sv_state s)) s" "run_state E p (sv_state s) s = (Returned (), t)"
  shows "milestones (state_num (sv_state t)) t"
proof -
  let ?st = "sv_state s" and ?n = "state_num (sv_state s)"
  have succ: "sv_state t \<in> successors ?st" using run_state_successor [OF assms(2)] .
  show ?thesis
  proof (cases "?n < 12")
    case True
    then have "state_num (sv_state t) \<le> 12"
      using succ by (cases ?st) (auto simp: successors_def next_state_def server_states_def)
    then show ?thesis by (rule milestones_early)
  next
    case False
    then have n: "state_num (sv_state t) = Suc ?n"
      using succ by (cases ?st) (auto simp: successors_def next_state_def server_states_def)
    have r: "reaches ?n (Suc ?n) (run_state E p ?st)"
      using False reaches_do_ectf reaches_do_ks reaches_derive_ts reaches_derive_gcm_shares reaches_derive_res
        chained_handlers [THEN reaches_step] reaches_step [OF chained_shutdown, of 25 E p] succ
      by (cases ?st) (simp_all add: run_state_def numeral_eq_Suc successors_def)
    show ?thesis using leadsD [OF r assms] n by simp
  qed
qed

lemma milestones_next:
  assumes "milestones (state_num (sv_state s)) s" "run_state E p (sv_state s) s = (Returned (), t)"
  shows "milestones (Suc (state_num (sv_state s))) t"
proof (cases "state_num (sv_state s) < 12")
  case True
  then show ?thesis by (intro milestones_early) simp
next
  case False
  have "sv_state t \<in> successors (sv_state s)" using run_state_successor [OF assms(2)] .
  then have "state_num (sv_state t) = Suc (state_num (sv_state s))"
    using False by (cases "sv_state s") (auto simp: successors_def next_state_def server_states_def)
  then show ?thesis using run_state_milestones [OF assms] by simp
qed

lemma resumption_milestones:
  assumes "resumption_loop E stop p sts s = (Returned (), t)" "sts \<noteq> []" "\<forall>st \<in> set sts. \<not> should_stop st stop"
    "successively (\<lambda>a b. state_num b = Suc (state_num a)) sts" "milestones (state_num (hd sts)) s"
  shows "milestones (Suc (state_num (last sts))) t \<and> sv_state t \<in> successors (last sts)"
  using assms
proof (induction sts arbitrary: s)
  case (Cons st sts)
  obtain r u where r: "run_state E p st (s\<lparr>sv_state := st\<rparr>) = (r, u)" by fastforce
  have ret: "r = Returned ()" and loop: "resumption_loop E stop p sts u = (Returned (), t)"
    using Cons.prems(1,3) r by (cases r; simp add: goto_def; simp add: thenS_def bindS_def)+
  have m: "milestones (Suc (state_num st)) u" and st: "sv_state u \<in> successors st"
    using milestones_next [of "s\<lparr>sv_state := st\<rparr>" E p u] run_state_successor [of E p "s\<lparr>sv_state := st\<rparr>"] Cons.prems(5) r ret
    by (simp_all add: milestones_def)
  show ?case
  proof (cases sts)
    case Nil
    then show ?thesis using loop m st by (simp add: returnS_def)
  next
    case (Cons st' sts')
    have "state_num st' = Suc (state_num st)" using Cons.prems(4) Cons by simp
    then show ?thesis using Cons.IH [OF loop] Cons.prems(3,4) Cons m by (simp add: successively_Cons)
  qed
qed simp

text \<open>The whole chain, as a completed run leaves it in the trace.\<close>

definition key_schedule :: "event list \<Rightarrow> bool" where
  "key_schedule tr \<longleftrightarrow> (\<exists>a b x psk h k c v r.
     {Ran_ectf a b (Some x), Ran_handshake (x, psk) (Some h), Ran_traffic (ho_MS_share h) (Some k),
      Ran_gcm_share (tk_client_key_share k) (Some c), Ran_gcm_share (tk_server_key_share k) (Some v),
      Ran_resumption (ho_MS_share h) (Some r)} \<subseteq> set tr)"

lemma milestones_all: "milestones 26 s \<Longrightarrow> key_schedule (sv_trace s)"
  by (simp add: milestones_def key_schedule_def Let_def) blast

lemma reaches_done: "t \<in> successors S_SHUTDOWN \<longleftrightarrow> t = S_DONE" "S_SIZE \<notin> successors st"
  by (simp add: successors_def next_state_def server_states_def)
    (cases st; simp add: successors_def next_state_def server_states_def)

lemma server_run_done:
  assumes "server_run E S_DONE p acc junk s = (Returned (), t)" "acc \<Longrightarrow> state_num (sv_state s) \<le> 12"
  shows "sv_state t = S_DONE \<and> key_schedule (sv_trace t)"
proof -
  obtain s' w where run: "server_loop E S_DONE p w s' = (Returned (), t)" and s': "state_num (sv_state s') \<le> 12"
    using assms by (cases acc) (auto simp: server_run_def reset_per_connection_state_def split: if_splits)
  let ?P = "\<lambda>s. milestones (state_num (sv_state s)) s \<and> sv_state s \<noteq> S_SIZE"
  have "?P t \<and> should_stop (sv_state t) S_DONE"
  proof (rule server_loop_rule [OF run])
    show "?P s'" using s' by (auto simp: milestones_early)
    show "?P u" if "?P s" "run_state E p (sv_state s) s = (Returned (), u)" for s u
      using that run_state_milestones run_state_successor reaches_done(2) by metis
  qed
  then have "sv_state t = S_DONE" "milestones 26 t"
    by (cases "sv_state t"; simp add: should_stop_def)+
  then show ?thesis by (simp add: milestones_all)
qed

lemma run_resumption_done:
  assumes "run_resumption E S_DONE p acc s = (Returned (), t)"
  shows "sv_state t = S_DONE \<and> key_schedule (sv_trace t)"
proof -
  let ?l = "if acc then drop 3 kResumptionStates else kResumptionStates"
  obtain s' where "resumption_loop E S_DONE p ?l s' = (Returned (), t)"
    using assms by (cases acc) (auto simp: run_resumption_def)
  from resumption_milestones [OF this] have "milestones (Suc (state_num (last ?l))) t \<and> sv_state t \<in> successors (last ?l)"
    by (cases acc) (simp_all add: kResumptionStates_def should_stop_def milestones_early)
  then show ?thesis
    using reaches_done(1) milestones_all by (cases acc) (simp_all add: kResumptionStates_def)
qed

lemma verifier_round_done:
  assumes "verifier_round E junk s = (Returned True, t)"
  shows "sv_state t = S_DONE \<and> key_schedule (sv_trace t)"
proof -
  obtain kind u where acc: "accept_and_read_mode E s = (Returned kind, u)" "kind \<noteq> Idle"
    and run: "(if kind = Resumed then run_resumption E S_DONE True True else server_run E S_DONE True True junk) u = (Returned (), t)"
    using assms by (auto simp: verifier_round_def bindS_def thenS_def returnS_def split: prod.splits outcome.splits if_splits)
  have "state_num (sv_state u) \<le> 12" using accept_state [OF acc] by auto
  then show ?thesis
    using run server_run_done [of E True True junk u t] run_resumption_done [of E True True u t] by (cases "kind = Resumed") simp_all
qed

end
