(* ===== verification/Handoff.thy ===== *)
theory Handoff
  imports Server_Run
begin

text \<open>
  What a resumed round needs from the round before it (ssl/Roundhandoff.hpp): the session ticket and the two
  shares of the PSK, kept in files, and the verifier's program that reads and writes its share
  (demo/demo.b.cpp).  The files are a map from paths to contents; the outcome of each I/O operation is an
  argument, and so are BoringSSL's serialisation of a session and its inverse.
\<close>

section \<open>Files\<close>

type_synonym files = "string \<rightharpoonup> bytes"

text \<open>An open that fails, or the number of bytes that reach the file and whether closing it succeeds.\<close>

datatype write_io = Cannot_write | Wrote nat bool

text \<open>An open that fails, or the position of a read error if there is one.\<close>

datatype read_io = Cannot_read | Reads "nat option"

definition session_path :: "string \<Rightarrow> string" where
  "session_path dir = dir @ ''/session.bin''"

definition prover_share_path :: "string \<Rightarrow> string" where
  "prover_share_path dir = dir @ ''/prover_psk.bin''"

definition verifier_share_path :: "string \<Rightarrow> string" where
  "verifier_share_path dir = dir @ ''/verifier_psk.bin''"

definition write_file :: "write_io \<Rightarrow> string \<Rightarrow> bytes \<Rightarrow> files \<Rightarrow> bool \<times> files" where
  "write_file io path data fs =
     (case io of
        Cannot_write \<Rightarrow> (False, fs)
      | Wrote n closed \<Rightarrow> let written = min n (length data)
          in (written = length data \<and> closed, fs(path \<mapsto> take written data)))"

text \<open>The loop over the buffer of 4096 bytes.\<close>

function read_chunks :: "bytes \<Rightarrow> bytes \<Rightarrow> bytes" where
  "read_chunks rest out =
     (let buf = take 4096 rest in if buf = [] then out else read_chunks (drop 4096 rest) (out @ buf))"
  by pat_completeness auto
termination
  by (relation "measure (\<lambda>(rest, out). length rest)") auto

declare read_chunks.simps [simp del]

definition read_file :: "read_io \<Rightarrow> string \<Rightarrow> files \<Rightarrow> bytes option" where
  "read_file io path fs =
     (case (io, fs path) of
        (Reads None, Some content) \<Rightarrow> Some (read_chunks content [])
      | _ \<Rightarrow> None)"

section \<open>Shares and sessions\<close>

definition kShareSize :: nat where
  "kShareSize = 16"

definition save_share :: "write_io \<Rightarrow> string \<Rightarrow> bytes \<Rightarrow> files \<Rightarrow> bool \<times> files" where
  "save_share io path share fs = write_file io path share fs"

definition load_share :: "read_io \<Rightarrow> string \<Rightarrow> files \<Rightarrow> bytes option" where
  "load_share io path fs = do {
     bytes \<leftarrow> read_file io path fs;
     check (length bytes = kShareSize);
     Some bytes }"

definition kNotResumable :: bytes where
  "kNotResumable = map of_char ''NOT RESUMABLE''"

definition save_session :: "('s \<Rightarrow> bytes option) \<Rightarrow> write_io \<Rightarrow> string \<Rightarrow> 's option \<Rightarrow> files \<Rightarrow> bool \<times> files" where
  "save_session to_bytes io dir session fs =
     (case Option.bind session to_bytes of
        None \<Rightarrow> (False, fs)
      | Some data \<Rightarrow> if data = kNotResumable then (False, fs) else write_file io (session_path dir) data fs)"

definition load_session :: "(bytes \<Rightarrow> 's option) \<Rightarrow> read_io \<Rightarrow> string \<Rightarrow> files \<Rightarrow> 's option" where
  "load_session from_bytes io dir fs = do {
     bytes \<leftarrow> read_file io (session_path dir) fs;
     check (bytes \<noteq> []);
     from_bytes bytes }"

definition save_prover ::
  "('s \<Rightarrow> bytes option) \<Rightarrow> write_io \<Rightarrow> write_io \<Rightarrow> string \<Rightarrow> 's option \<Rightarrow> bytes \<Rightarrow> files \<Rightarrow> bool \<times> files" where
  "save_prover to_bytes io1 io2 dir session psk_share fs =
     (case save_session to_bytes io1 dir session fs of
        (False, fs) \<Rightarrow> (False, fs)
      | (True, fs) \<Rightarrow> save_share io2 (prover_share_path dir) psk_share fs)"

text \<open>The share is not part of the serialised session; \<open>set_share\<close> puts it back.\<close>

definition load_prover ::
  "(bytes \<Rightarrow> 's option) \<Rightarrow> (bytes \<Rightarrow> 's \<Rightarrow> 's) \<Rightarrow> read_io \<Rightarrow> read_io \<Rightarrow> string \<Rightarrow> files \<Rightarrow> ('s \<times> bytes) option" where
  "load_prover from_bytes set_share io1 io2 dir fs = do {
     share \<leftarrow> load_share io1 (prover_share_path dir) fs;
     session \<leftarrow> load_session from_bytes io2 dir fs;
     Some (set_share share session, share) }"

section \<open>The verifier's program\<close>

text \<open>One round; the result is whether it ends with status 0.\<close>

definition verifier_main ::
  "env \<Rightarrow> bool \<Rightarrow> read_io \<Rightarrow> write_io \<Rightarrow> string \<Rightarrow> files \<Rightarrow> server \<Rightarrow> bool outcome \<times> files \<times> server" where
  "verifier_main E junk rd wr handoff_dir fs s =
     (case accept_and_read_mode E (s\<lparr>sv_should_attest := True\<rparr>) of
        (Returned kind, t) \<Rightarrow>
          if kind = Idle then (Returned False, fs, t)
          else (case (if kind = Resumed then load_share rd (verifier_share_path handoff_dir) fs else Some (sv_PSK_share t)) of
                  None \<Rightarrow> (Returned False, fs, t)
                | Some share \<Rightarrow>
                    (case (if kind = Resumed then run_resumption E S_DONE True True else server_run E S_DONE True True junk)
                            (t\<lparr>sv_PSK_share := share\<rparr>) of
                       (Returned _, u) \<Rightarrow>
                         let (ok, fs) = save_share wr (verifier_share_path handoff_dir) (sv_PSK_share u) fs
                         in (Returned ok, fs, u)
                     | (Refused, u) \<Rightarrow> (Returned False, fs, u)
                     | (Aborted, u) \<Rightarrow> (Aborted, fs, u)))
      | (Refused, t) \<Rightarrow> (Refused, fs, t)
      | (Aborted, t) \<Rightarrow> (Aborted, fs, t))"

section \<open>Round trips\<close>

lemma read_chunks_eq: "read_chunks rest out = out @ rest"
proof (induction rest out rule: read_chunks.induct)
  case (1 rest out)
  show ?case
  proof (cases "rest = []")
    case False
    then have "read_chunks rest out = read_chunks (drop 4096 rest) (out @ take 4096 rest)"
      by (subst read_chunks.simps) (simp add: Let_def)
    then show ?thesis using 1 [OF refl] False by simp
  qed (subst read_chunks.simps; simp)
qed

lemma read_file_eq: "read_file (Reads None) path fs = fs path"
  by (cases "fs path") (simp_all add: read_file_def read_chunks_eq)

lemma write_file_True: "write_file io path data fs = (True, fs') \<Longrightarrow> fs' = fs(path \<mapsto> data)"
  by (cases io) (auto simp: write_file_def Let_def)

lemma share_roundtrip:
  assumes "save_share io path share fs = (True, fs')" "length share = kShareSize"
  shows "load_share (Reads None) path fs' = Some share"
  using assms write_file_True [of io path share fs fs'] by (simp add: save_share_def load_share_def read_file_eq check_def)

lemma prover_roundtrip:
  assumes save: "save_prover to_bytes io1 io2 dir (Some ses) share fs = (True, fs')" and len: "length share = kShareSize"
    and ser: "to_bytes ses = Some bs" "bs \<noteq> []" "from_bytes bs = Some ses'"
  shows "load_prover from_bytes set_share (Reads None) (Reads None) dir fs' = Some (set_share share ses', share)"
proof -
  obtain fs1 where 1: "save_session to_bytes io1 dir (Some ses) fs = (True, fs1)"
    and 2: "save_share io2 (prover_share_path dir) share fs1 = (True, fs')"
    using save by (auto simp: save_prover_def split: prod.splits bool.splits)
  have "fs1 = fs(session_path dir \<mapsto> bs)"
    using 1 ser(1) write_file_True by (auto simp: save_session_def split: if_splits)
  moreover have "fs' = fs1(prover_share_path dir \<mapsto> share)" using 2 write_file_True by (auto simp: save_share_def)
  ultimately have "fs' (session_path dir) = Some bs" by (simp add: session_path_def prover_share_path_def)
  then show ?thesis
    using share_roundtrip [OF 2 len] ser by (simp add: load_prover_def load_session_def read_file_eq check_def)
qed

end
