(* ===== verification/Server_Sample.thy ===== *)
theory Server_Sample
  imports Server_Safety Server_Keys Handoff
begin

text \<open>
  A verifier and a prover to evaluate the definitions on: a complete round of the verifier in ROTATE mode,
  stage by stage, which shows that a round can succeed.
\<close>

section \<open>A verifier and its environment\<close>

definition trial_ec :: ec_ops where
  "trial_ec = \<lparr>ec_supported = (\<lambda>g. g = 23), ec_public = (\<lambda>g p. 4 # p), ec_add = (\<lambda>g a b. Some a), ec_decap = (\<lambda>g p k. Some (p, k))\<rparr>"

definition trial_traffic :: TrafficCircuitOut where
  "trial_traffic = \<lparr>tk_client_key_share = replicate 16 1, tk_client_iv = replicate 12 2, tk_server_key_share = replicate 16 3,
     tk_server_iv = replicate 12 4, tk_CATS_share = replicate 32 5, tk_SATS_share = replicate 32 6\<rparr>"

abbreviation blank_share :: KeyShare where
  "blank_share \<equiv> \<lparr>kh_share = None, kh_public_key = [], kh_additive_share = [], kh_out_secret = [], kh_out_other_secret = []\<rparr>"

definition trial_server :: "ServerState \<Rightarrow> bytes \<Rightarrow> server" where
  "trial_server st rx = \<lparr>sv_state = st, sv_mode = Rotate, sv_true_surf = True, sv_retain_ct = True, sv_should_attest = True,
     sv_is_resumption_run = False, sv_resumed_handshake = False, sv_psk_skipped = False, sv_version = 0, sv_cipher_suite = 0,
     sv_key_shares = [blank_share, blank_share],
     sv_active_key_share = 0, sv_additive_share = [], sv_client_public_key = [], sv_buffer = replicate 16384 0, sv_x_secret = [], sv_transcript = [],
     sv_server_key_comm = [], sv_handshake_key_shares = \<lparr>ho_CHTS_share = [], ho_SHTS_share = [], ho_MS_share = []\<rparr>,
     sv_traffic_key_shares = trial_traffic, sv_client_gcm_powers = [], sv_server_gcm_powers = [], sv_RMS_share = [], sv_PSK_share = [],
     sv_mask_commitment = [], sv_key_commitment = [], sv_epoch = 0, sv_key_committed = True, sv_key_released = True, sv_attested_ct = [],
     sv_encrypted_ct = [], sv_encrypt_aad = [], sv_encrypt_ct_len = 0, sv_encrypted_seqs = [], sv_verified_seqs = [],
     sv_circuits = (\<lambda>_. True), sv_rx = \<lparr>pending_app_data = rx, incoming = []\<rparr>, sv_steps = 0, sv_trace = []\<rparr>"

text \<open>The messages of the prover: the kind of the round, two key shares, the mode of the handshake, the
  certificate messages with the commitment, the requests of the later phases, and the stop.\<close>

definition trial_rx :: ssl where
  "trial_rx = \<lparr>pending_app_data = [], incoming = [[32], [0, 0, 23, 0, 2, 4, 9], [3, 0, 23, 0, 2, 4, 9], [29, 5],
     [11, 0, 0, 0, 0, 0, 0, 0, 32], replicate 32 1, [16, 17, 19, 31, 28]]\<rparr>"

definition trial_hs :: HandshakeCircuitOut where
  "trial_hs = \<lparr>ho_CHTS_share = [1], ho_SHTS_share = [2], ho_MS_share = [3]\<rparr>"

definition trial_env :: env where
  "trial_env = \<lparr>e_connection = Some trial_rx, e_ssl_accept = True, e_write = (\<lambda>_. True), e_read_ready = (\<lambda>_. True), e_built = (\<lambda>_. True),
     e_preproc = (\<lambda>_. True), e_ks_empty = (\<lambda>_. False), e_private = (\<lambda>_. [7]), e_ec = trial_ec,
     e_ectf = (\<lambda>_ _. Some [8]), e_handshake = (\<lambda>_ _. Some trial_hs),
     e_traffic = (\<lambda>_ _. Some trial_traffic), e_gcm_share = (\<lambda>_ k. Some k), e_resumption = (\<lambda>_ _. Some [4]),
     e_psk = (\<lambda>_ _. Some [5]), e_binder = (\<lambda>_ _. Some [6]),
     e_rotate = (\<lambda>_ _. Some \<lparr>ro_next_share = [7], ro_key_share = [8], ro_iv = replicate 12 9\<rparr>),
     e_aes_enc = (\<lambda>_ i. Some \<lparr>ae_ct = replicate 16 (replicate 16 0), ae_ok = True\<rparr>),
     e_gcm_tag = (\<lambda>_ _. Some \<lparr>gt_cheated = False, gt_tag = []\<rparr>),
     e_gcm_vfy = (\<lambda>_ _. Some \<lparr>gv_tag_passed = True, gv_cheated = False\<rparr>),
     e_gcm_vfy_commit = (\<lambda>_ _. Some \<lparr>gv_tag_passed = True, gv_cheated = False, gv_key_opened = True\<rparr>),
     e_ks_batch = (\<lambda>_ _. Some \<lparr>ks_masked = [], ks_ok = True\<rparr>)\<rparr>"

lemma trial_env_simps [simp]:
  "e_connection trial_env = Some trial_rx" "e_ssl_accept trial_env" "e_write trial_env n" "e_read_ready trial_env n"
  "e_built trial_env n" "e_preproc trial_env n" "e_private trial_env n = [7]" "e_ec trial_env = trial_ec"
  "e_ectf trial_env n x = Some [8]" "e_handshake trial_env n y = Some trial_hs" "e_traffic trial_env n z = Some trial_traffic"
  "e_gcm_share trial_env n z = Some z" "e_resumption trial_env n z = Some [4]"
  by (simp_all add: trial_env_def)

section \<open>Evaluation of actions\<close>

lemma read_exact_1:
  assumes "sv_rx s = \<lparr>pending_app_data = b # bs, incoming = rs\<rparr>"
  shows "read_exact_blocking 1 s = (Returned [b], s\<lparr>sv_rx := \<lparr>pending_app_data = bs, incoming = rs\<rparr>\<rparr>)"
  using assms by (simp add: read_exact_blocking_def ssl_read_loop.simps SSL_read_def SSL_peek_def check_def)

lemma read_header_sample:
  assumes "sv_rx s = \<lparr>pending_app_data = b # bs, incoming = rs\<rparr>" "is_valid_header b"
  shows "read_single_header s = (Returned b, s\<lparr>sv_rx := \<lparr>pending_app_data = bs, incoming = rs\<rparr>\<rparr>)"
  using assms read_exact_1 [OF assms(1)] 
  by (simp add: read_single_header_def bindS_def optionS_def thenS_def checkS_def returnS_def CBS_get_u8_def cbs_get_def)

lemma read_header_record:
  assumes "sv_rx s = \<lparr>pending_app_data = [], incoming = (b # bs) # rs\<rparr>" "is_valid_header b"
  shows "read_single_header s = (Returned b, s\<lparr>sv_rx := \<lparr>pending_app_data = bs, incoming = rs\<rparr>\<rparr>)"
  using assms
  by (simp add: read_single_header_def read_exact_blocking_def ssl_read_loop.simps SSL_read_def SSL_peek_def check_def bindS_def optionS_def thenS_def checkS_def returnS_def CBS_get_u8_def cbs_get_def)

lemma read_exact_8:
  assumes "sv_rx s = \<lparr>pending_app_data = [b0, b1, b2, b3, b4, b5, b6, b7], incoming = rs\<rparr>"
  shows "read_exact_blocking 8 s = (Returned [b0, b1, b2, b3, b4, b5, b6, b7], s\<lparr>sv_rx := \<lparr>pending_app_data = [], incoming = rs\<rparr>\<rparr>)"
  using assms by (simp add: read_exact_blocking_def ssl_read_loop.simps SSL_read_def SSL_peek_def check_def)

lemmas action_defs = bindS_def optionS_def thenS_def checkS_def returnS_def withS_def modifyS_def assertS_def stepS_def recordS_def
  jointS_def advance_def goto_def need_circuit_def deref_circuit_def socket_write_def write_single_header_def expect_header_def

lemma transcript_sample:
  assumes "sv_rx s = \<lparr>pending_app_data = [], incoming = (b # bs) # rs\<rparr>" "length (sv_buffer s) = 16384" "length bs < 16384"
  shows "read_transcript_rest trial_env s = (Returned (), s\<lparr>sv_rx := \<lparr>pending_app_data = [], incoming = rs\<rparr>, sv_steps := Suc (sv_steps s),
     sv_buffer := (b # bs) @ drop (length (b # bs)) (sv_buffer s), sv_transcript := sv_transcript s @ b # bs\<rparr>)"
proof -
  have "sv_buffer s \<noteq> []" using assms(2) by auto
  then show ?thesis
    using assms
    by (simp add: read_transcript_rest.simps [of trial_env s] read_transcript_chunk_def read_buffer_def SSL_read_def SSL_peek_def check_def
        pending_def action_defs)
qed

lemma cbb_be_1: "cbb_be (Suc 0) v = [ucast v]" and cbb_be_2: "cbb_be 2 v = [ucast (drop_bit 8 v), ucast v]"
  by (simp_all add: numeral_2_eq_2)

lemma codec_samples:
  "unpack_key_bytes [0, 0, 23, 0, 2, 4, 9] = Some (0, [0, 23, 0, 2, 4, 9])"
  "unpack_key_bytes [3, 0, 23, 0, 2, 4, 9] = Some (3, [0, 23, 0, 2, 4, 9])"
  "CBS_get_u16 [0, 23, 0, 2, 4, 9] = Some (23, [0, 2, 4, 9])"
  "CBS_get_u16_length_prefixed [0, 2, 4, 9] = Some ([4, 9], [])"
  "deinitialise_cbb_for_ec_point_data [0, 23, 0, 2, 4, 9] = Some (23, [4, 9])"
  "pack_key_bytes H_OK [0, 23, 0, 2, 4, 7] = Some [1, 0, 23, 0, 2, 4, 7]"
  "CBS_get_u64 [0, 0, 0, 0, 0, 0, 0, 32] = Some (32, [])"
  "initialise_cbb_for_ec_point_data 23 [4, 7] = Some [0, 23, 0, 2, 4, 7]"
  "deinitialise_cbb_for_ec_point_data [0, 23, 0, 2, 4, 7] = Some (23, [4, 7])"
  by (simp_all add: unpack_key_bytes_def pack_key_bytes_def CBS_get_u8_def CBS_get_u16_def CBS_get_u64_def
      CBS_get_u16_length_prefixed_def deinitialise_cbb_for_ec_point_data_def initialise_cbb_for_ec_point_data_def
      CBB_add_u16_def CBB_add_u16_length_prefixed_def cbb_add_u_def cbs_get_u_def cbs_get_def check_def is_valid_header_def
      SSL3_RT_MAX_PLAIN_LENGTH_def cbb_be_1 cbb_be_2)

lemma share_sample:
  "kh_create_new_share trial_ec [7] 23 [4, 9] blank_share = (True, \<lparr>kh_share = Some (23, [7]), kh_public_key = [0, 23, 0, 2, 4, 7],
     kh_additive_share = [0, 23, 0, 2, 4, 7], kh_out_secret = [], kh_out_other_secret = []\<rparr>)"
  by (simp add: kh_create_new_share_def create_new_public_key_def trial_ec_def codec_samples uncompressed_def check_def)

lemma preproc_sample:
  "eachS (preproc_circuit trial_env) cs s =
     (Returned (), s\<lparr>sv_circuits := (\<lambda>c. c \<in> set cs \<or> sv_circuits s c), sv_steps := sv_steps s + length cs\<rparr>)"
proof (induction cs arbitrary: s)
  case (Cons c cs)
  have step: "preproc_circuit trial_env c s = (Returned (), s\<lparr>sv_circuits := (sv_circuits s)(c := True), sv_steps := Suc (sv_steps s)\<rparr>)"
    by (simp add: preproc_circuit_def stepS_def thenS_def bindS_def modifyS_def checkS_def)
  have "(\<lambda>x. x \<in> set cs \<or> ((sv_circuits s)(c := True)) x) = (\<lambda>x. x \<in> set (c # cs) \<or> sv_circuits s x)" by auto
  then show ?case using Cons.IH by (simp add: thenS_def bindS_def step)
qed (simp add: returnS_def)

section \<open>A complete round\<close>

text \<open>What the stages rely on.\<close>

definition own_share :: KeyShare where
  "own_share = \<lparr>kh_share = Some (23, [7]), kh_public_key = [0, 23, 0, 2, 4, 7],
     kh_additive_share = [0, 23, 0, 2, 4, 7], kh_out_secret = [], kh_out_other_secret = []\<rparr>"

definition at_state :: "ServerState \<Rightarrow> bytes \<Rightarrow> bytes list \<Rightarrow> server \<Rightarrow> bool" where
  "at_state st p rs s \<longleftrightarrow> sv_state s = st \<and> sv_rx s = \<lparr>pending_app_data = p, incoming = rs\<rparr> \<and> sv_mode s = Rotate \<and> sv_true_surf s \<and>
     sv_should_attest s \<and> \<not> sv_is_resumption_run s \<and> length (sv_buffer s) = 16384 \<and> sv_buffer s \<noteq> [] \<and> sv_active_key_share s = 0 \<and>
     (state_num st \<in> {4..14} \<longrightarrow> sv_circuits s C_HS0) \<and> (3 < state_num st \<longrightarrow> sv_circuits s C_TRAFFIC \<and> sv_circuits s C_GCM \<and> sv_circuits s C_RES) \<and>
     (state_num st \<le> 6 \<longrightarrow> sv_key_shares s = [blank_share, blank_share]) \<and>
     (state_num st \<in> {7..10} \<longrightarrow> sv_key_shares s = [own_share, blank_share]) \<and>
     (st = S_MAKING_KS \<or> st = S_FINISHING_TPH \<longrightarrow> sv_client_public_key s = [0, 23, 0, 2, 4, 9]) \<and>
     (state_num st \<in> {13..16} \<longrightarrow> \<not> sv_resumed_handshake s) \<and>
     (14 < state_num st \<longrightarrow> sv_handshake_key_shares s = trial_hs)"

abbreviation goes :: "ServerState \<Rightarrow> bytes \<Rightarrow> bytes list \<Rightarrow> ServerState \<Rightarrow> bytes \<Rightarrow> bytes list \<Rightarrow> bool" where
  "goes st p rs st' p' rs' \<equiv> \<forall>s. at_state st p rs s \<longrightarrow> (\<exists>t. run_state trial_env True st s = (Returned (), t) \<and> at_state st' p' rs' t)"

lemmas stage_defs = at_state_def run_state_def handler_defs action_defs is_valid_header_def next_state_def server_states_def
  SSL3_RT_MAX_PLAIN_LENGTH_def own_share_def pending_def trial_hs_def Let_def

lemma stage_preproc: "goes S_CIRCUIT_PREPROC p rs S_MASK_COMMIT p rs"
  by (simp add: at_state_def run_state_def server_do_preproc_def preproc_list_def preproc_sample thenS_def bindS_def withS_def advance_def modifyS_def next_state_def server_states_def
      del: eachS.simps)

lemma stage_mask: "goes S_MASK_COMMIT p rs S_READING_KS p rs"
  by (simp add: stage_defs)

lemma stage_reading: "goes S_READING_KS [] ([0, 0, 23, 0, 2, 4, 9] # rs) S_MAKING_KS [] rs"
  by (simp add: stage_defs read_keyshare_def read_buffer_def SSL_read_def SSL_peek_def check_def codec_samples)

lemma stage_making: "goes S_MAKING_KS p rs S_WRITING_KS p rs"
  by (simp add: stage_defs create_new_share_def share_op_def codec_samples share_sample)

lemma stage_writing: "goes S_WRITING_KS p rs S_PSK_BINDER p rs"
  by (simp add: stage_defs get_additive_share_def codec_samples)

lemma stage_binder: "goes S_PSK_BINDER p rs S_READING_SKS p rs"
  by (simp add: stage_defs)

lemma stage_sks: "goes S_READING_SKS [] ([3, 0, 23, 0, 2, 4, 9] # rs) S_FINISHING_TPH [] rs"
  by (simp add: stage_defs read_keyshare_def read_buffer_def SSL_read_def SSL_peek_def check_def codec_samples)

lemma stage_tph: "goes S_FINISHING_TPH p rs S_WRITING_HS_RECV p rs"
  by (simp add: stage_defs finish_tph_def codec_samples kh_group_id_def kh_finish_def trial_ec_def upt_rec Let_def)

lemma stage_hs: "goes S_WRITING_HS_RECV [] rs S_ECTF_WAIT [] rs"
  by (simp add: stage_defs)

lemma stage_ectf: "goes S_ECTF_WAIT [] ([29, 5] # rs) S_ECTF_DONE [] rs"
  by (simp add: stage_defs read_header_record read_header_sample Let_def)

lemma stage_ectf_done: "goes S_ECTF_DONE p rs S_KS_WAIT p rs"
  by (simp add: stage_defs)

lemma stage_ks: "goes S_KS_WAIT p rs S_KS_DONE p rs"
  by (simp add: stage_defs handshake_circuit_def Let_def)

lemma stage_ks_done: "goes S_KS_DONE p rs S_CERT_WAIT p rs"
  by (simp add: stage_defs)

lemma stage_cert: "goes S_CERT_WAIT [] ([11, 0, 0, 0, 0, 0, 0, 0, 32] # replicate 32 1 # rs) S_CERT_RECV [] rs"
proof -
  have "replicate 32 (1 :: byte) = 1 # replicate 31 1" by (simp add: numeral_eq_Suc)
  then show ?thesis
    by (simp add: stage_defs read_transcript_data_def read_header_record read_single_u64_def read_exact_8 codec_samples transcript_sample)
qed

lemma stage_recv: "goes S_CERT_RECV p rs S_DERIVE_TS p rs"
  by (simp add: stage_defs)

lemma stage_ts: "goes S_DERIVE_TS [] ([16, 17, 19, 31, 28] # rs) S_GCM_SHARE_DERIVE [17, 19, 31, 28] rs"
  by (simp add: stage_defs read_header_record)

lemma stage_gcm: "goes S_GCM_SHARE_DERIVE (17 # p) rs S_GCM_SHARE_DONE p rs"
  by (simp add: stage_defs read_header_sample)

lemma stage_gcm_done: "goes S_GCM_SHARE_DONE p rs S_DERIVE_RES p rs"
  by (simp add: stage_defs)

lemma stage_res: "goes S_DERIVE_RES (19 # p) rs S_RES_DONE p rs"
  by (simp add: stage_defs read_header_sample)

lemma stage_res_done: "goes S_RES_DONE p rs S_DERIVE_PSK p rs"
  by (simp add: stage_defs)

lemma stage_psk: "goes S_DERIVE_PSK (31 # p) rs S_PSK_DONE p rs"
  by (simp add: stage_defs read_header_draining_encryption.simps read_header_sample serve_op_def)

lemma stage_psk_done: "goes S_PSK_DONE p rs S_SHUTDOWN p rs"
  by (simp add: stage_defs)

lemma stage_shutdown: "goes S_SHUTDOWN (28 # p) rs S_DONE p rs"
  by (simp add: stage_defs attest.simps read_header_sample)

lemma trial_server_start:
  "\<exists>t. accept_and_read_mode trial_env (trial_server S_DONE []) = (Returned Full, t) \<and>
     at_state S_CIRCUIT_PREPROC [] (drop 1 (incoming trial_rx)) (t\<lparr>sv_is_resumption_run := False\<rparr>)"
  by (simp add: accept_and_read_mode_def accept_front_def orIdle_def server_do_handshake_def reset_per_connection_state_def
      read_header_record trial_rx_def trial_server_def stage_defs)

definition finishes :: "server \<Rightarrow> bool" where
  "finishes s \<longleftrightarrow> (\<exists>t. \<forall>w. should_stop (sv_state s) S_DONE \<and> w \<noteq> Returned () \<or> server_loop trial_env S_DONE True w s = (Returned (), t))"

lemma finishes_done: "at_state S_DONE p rs s \<Longrightarrow> finishes s"
  by (auto simp: finishes_def server_loop.simps [of _ _ _ _ s] should_stop_def at_state_def)

lemma finishes_before:
  assumes "goes st p rs st' p' rs'" "at_state st p rs s" "state_num st < 26" "\<And>t. at_state st' p' rs' t \<Longrightarrow> finishes t"
  shows "finishes s"
proof -
  obtain t where t: "run_state trial_env True st s = (Returned (), t)" "at_state st' p' rs' t" using assms(1,2) by blast
  obtain u where "server_loop trial_env S_DONE True (Returned ()) t = (Returned (), u)"
    using assms(4) [OF t(2)] unfolding finishes_def by blast
  moreover have "sv_state s = st" using assms(2) by (simp add: at_state_def)
  ultimately show ?thesis
    using t(1) assms(3) by (auto simp: finishes_def server_loop.simps [of _ _ _ _ s] should_stop_def)
qed

lemma trial_finishes:
  assumes "at_state S_CIRCUIT_PREPROC [] (drop 1 (incoming trial_rx)) s"
  shows "finishes s"
  by (insert assms, simp add: trial_rx_def)
    (rule finishes_before [OF stage_preproc], assumption, simp,
      rule finishes_before [OF stage_mask], assumption, simp,
      rule finishes_before [OF stage_reading], assumption, simp,
      rule finishes_before [OF stage_making], assumption, simp,
      rule finishes_before [OF stage_writing], assumption, simp,
      rule finishes_before [OF stage_binder], assumption, simp,
      rule finishes_before [OF stage_sks], assumption, simp,
      rule finishes_before [OF stage_tph], assumption, simp,
      rule finishes_before [OF stage_hs], assumption, simp,
      rule finishes_before [OF stage_ectf], assumption, simp,
      rule finishes_before [OF stage_ectf_done], assumption, simp,
      rule finishes_before [OF stage_ks], assumption, simp,
      rule finishes_before [OF stage_ks_done], assumption, simp,
      rule finishes_before [OF stage_cert], assumption, simp,
      rule finishes_before [OF stage_recv], assumption, simp,
      rule finishes_before [OF stage_ts], assumption, simp,
      rule finishes_before [OF stage_gcm], assumption, simp,
      rule finishes_before [OF stage_gcm_done], assumption, simp,
      rule finishes_before [OF stage_res], assumption, simp,
      rule finishes_before [OF stage_res_done], assumption, simp,
      rule finishes_before [OF stage_psk], assumption, simp,
      rule finishes_before [OF stage_psk_done], assumption, simp,
      rule finishes_before [OF stage_shutdown], assumption, simp,
      rule finishes_done)

text \<open>A round succeeds.\<close>

lemma trial_round: "\<exists>t. verifier_round trial_env False (trial_server S_DONE []) = (Returned True, t)"
proof -
  obtain t where t: "accept_and_read_mode trial_env (trial_server S_DONE []) = (Returned Full, t)"
    "at_state S_CIRCUIT_PREPROC [] (drop 1 (incoming trial_rx)) (t\<lparr>sv_is_resumption_run := False\<rparr>)"
    using trial_server_start by blast
  have "finishes (t\<lparr>sv_is_resumption_run := False\<rparr>)" using trial_finishes [OF t(2)] .
  moreover have "sv_state t = S_CIRCUIT_PREPROC" using t(2) by (simp add: at_state_def)
  ultimately obtain u where "server_loop trial_env S_DONE True Refused (t\<lparr>sv_is_resumption_run := False\<rparr>) = (Returned (), u)"
    by (auto simp: finishes_def should_stop_def)
  then have "server_run trial_env S_DONE True True False t = (Returned (), u)" by (simp add: server_run_def)
  then show ?thesis using t(1) by (simp add: verifier_round_def bindS_def thenS_def returnS_def)
qed

end
