(* ===== verification/Spec2Isabelle.thy ===== *)
theory Spec2Isabelle
  imports F2128_MtA Record_Protocol Emp_Wrapper ECtF Frodo_PIR Server_Sample
begin

text \<open>
  Verification of the SURF implementation (src/tutorials/surf-impl/src): a TLS 1.3 client split
  between a prover and a verifier, which share every secret and compute on it with two-party
  protocols.  The parts and how they interact: the transport (ssl/) carries frames between the two
  parties over a TLS connection of their own; the oblivious transfers of emp-ot run over it; on top
  of these, mta/ turns multiplicative secrets into additive shares, modulo a prime for the key
  exchange (MtA.cpp, ectf.cpp) and in GF(2^128) for the authentication tags (F2128MtA.inl), whose
  shares ssl/GHash.hpp evaluates.  With key shares and GHASH shares in hand, ThreePartyHandshake.cpp
  (prover) and nodes/Server.cpp ((prover) and nodes/Server.cpp (verifier) encrypt requests, verify tags, derive keystream and release
  keys by evaluating the circuits of 2pc/DeriveCircuits.cpp jointly.  The verifier is a state machine that
  walks from the connection of a prover through the key exchange and the key schedule to the attestation.

  The second program is FrodoPIR (src/tutorials/frodo-pir-fast), private information retrieval from a
  database of short strings: a crate of matrices over 32-bit words, the offline and online phases of
  client and server, and a main program that runs one retrieval.

  Conventions.  A C++ function that returns bool and writes through references is an option-valued
  function; \<open>check c\<close> is an early return of false or a failed assertion (a build with NDEBUG, as the
  optimised targets are, has no assertions and goes on where the model stops).  Pointers are not null and
  allocations succeed.  Random draws, uninitialised memory and outcomes of system calls are
  arguments.  The two sides of a protocol are one definition that hands each message over.  AES, the
  hash, the curve group of the base transfer and its key derivation are parameters; the
  hypotheses on them are \<open>digest_ok\<close>, that a digest of the library succeeds and has 32 bytes, and
  \<open>aes_netlist\<close>, what DeriveCircuits.cpp says of the vendored AES netlist.

  Theories.
  \<^item> Surf\_Prelude: byte strings, big-endian integers, results, chunks, exclusive or.
  \<^item> GF128, GF128\_Field: the field of 2^128 elements, by a certificate for the irreducibility of the
    GCM polynomial; specification side only.
  \<^item> F2128\_Arith: the SIMD arithmetic of F2128MtA.inl (mul, inv, shifts, byte conversion) and of
    emp-tool f2k.h, block.h; every operation is shown to be the field operation it stands for.
  \<^item> OT\_Extension: co.h, iknp.h, cot.h, prg.h, mitccrh.h, sse\_trans; the interface
    \<open>oblivious_transfer\<close>, interpreted on \<open>iknp_ot\<close>: a session with its check returns the chosen messages.
  \<^item> F2128\_MtA: both conversions of F2128MtA.inl, message by message, over that interface; the arrays
    they return share all 1088 powers.
  \<^item> GHash: GHash::share, refined against GHASH of NIST SP 800-38D.
  \<^item> Block\_Map: SurfBlockMap; every block number has a counter block of its own.
  \<^item> Channel: SSL\_write and SSL\_read of BoringSSL as one direction of records, Util::process\_data with
    its retries; the interface \<open>byte_stream\<close>, interpreted on both read loops.
  \<^item> Emp\_Wrapper: CounterType.inl, SSLBuffer.inl and the framing of EmpWrapper.inl; rounds arrive as
    sent, and what happens when a receive crosses a frame.
  \<^item> Bignum: the BoringSSL bignum operations the protocols call, with the binary inversion.
  \<^item> MtA\_Mod: MtA.cpp with PackArray.cpp and EmpBlockSpan.inl; single and batched multiplication over
    \<open>oblivious_transfer\<close>, the choice bits, the sizes the entries keep.
  \<^item> ECtF: ectf.cpp over a sequence of transfers (\<open>ot_sequence\<close>, interpreted on IKNP sessions); the
    shares add up to the x-coordinate of the chord.
  \<^item> Codec: message headers, CBS and CBB integers, key messages, the framing of curve points, bits and
    bytes; round trips, and which headers are accepted.
  \<^item> Circuits: the circuits on records gate by gate and the packing of their inputs and outputs; what each
    computes on the bytes of the two parties.
  \<^item> Record\_Protocol: encrypt\_request, verify\_record\_tag, derive\_keystream and true\_surf\_release,
    both sides in lock-step with the verifier's circuit inputs of Server.cpp, refined against AES-GCM with
    the nonces of TLS 1.3, with the verifier's guards (lengths, used and verified sequence numbers, the
    key commitment) as arguments and checks; what the padding slots reveal.
  \<^item> Server\_State: the verifier as a record with the fields of Server.hpp, KeyShare.cpp and the modes of
    SurfMode.hpp; handlers are actions that return, refuse or abort and keep what they have changed.  The
    prover is not modelled here: what it sends is the stream the connection brings, the outcomes of joint
    computations are functions of an environment, and every write and joint computation goes to a trace.
  \<^item> Server\_Ops: the operations on records of Server.cpp (commitment, release, rotation, tag verification,
    keystream, encryption, tag) and the two loops that serve them; the interfaces \<open>evolution\<close> and
    \<open>record_evolution\<close>, for relations that every action respects.
  \<^item> Server\_Run: all handlers of the state machine, run, run\_resumption, accept\_and\_read\_mode and the
    verifier's rounds (demo/proxy.b.cpp); every handler moves to a later state, so the loops end.
  \<^item> Server\_Guard: rules for what actions lead to, and the interface \<open>guard\<close>: an invariant of the phase after
    the traffic keys that holds over any sequence of rounds.
  \<^item> Server\_Safety: \<open>guard\<close> interpreted for the counters of encryptions and for the gate on keystream; a
    released key attests nothing; a tag can be asked for twice; the second handshake circuit is never built.
  \<^item> Server\_Keys: a round that succeeds has gone through the whole key schedule.
  \<^item> Handoff: Roundhandoff.hpp and the verifier program of demo/demo.b.cpp over a map of files; what is saved
    is loaded again.
  \<^item> Server\_Sample: a complete round of the verifier, stage by stage, which shows that a round can succeed.
  \<^item> Frodo\_Matrix: matrix.rs and utils.rs of the matrix crate, with errors and panics as values; products
    by rows of the transpose are the products of the textbook, bits and bytes convert back and forth.
  \<^item> Frodo\_PIR: sampling, offline and online phases and main; retrieval is correct for small noise, the
    parameters the client makes are zero, what printing loses.  Arithmetic overflow panics, as in a
    build with overflow checks, where the source does not ask for wrapping; StdRng, OsRng and base64 are
    parameters, with the hypotheses \<open>accepting\<close>, that acceptable words keep coming, and that decoding
    undoes encoding.

  Bounds and termination.  All loops are total functions with a measure, except
  \<open>process_data_read\<close> and \<open>process_data_write\<close>, which retry for as long as the socket reports a
  transient failure: they are partial functions, and it is proved that they return under a fair
  sequence of outcomes (the verifier's read\_exact\_blocking waits in the same way; there, waiting is
  transparent and only a closed connection fails); and \<open>random_ternary\<close>, whose rejection loop ends when \<open>accepting\<close> holds.  Moduli have at most 521 bits (\<open>mta_modulus\<close>), the size of the largest
  supported curve, so that no size computation of MtA.cpp wraps.  A frame has at most 2^30 bytes, the
  limit of recv\_data\_internal.

  Not modelled: see the component list of the manifest; mainly the TLS state machine of BoringSSL and
  its three-party changes, the prover's side of the handshake, garbled evaluation of circuits, sockets,
  timers, the prover programs of the demos, and tests.
\<close>

section \<open>Arithmetic in GF(2^128)\<close>

text \<open>C20. \<^verbatim>\<open>F2128_MTA::mul\<close>, with its Karatsuba step and its reduction by shifts of 32-bit
  lanes, computes for all inputs what shift-and-add multiplication modulo
  \<open>x^128 + x^7 + x^2 + x + 1\<close> does, bit \<open>i\<close> of a block being the coefficient of \<open>x^i\<close>.\<close>

theorem mul_schoolbook: "mul a b = gf_mult_upto 128 a b"
  using Gf_mul [of a b] by (simp add: times_gf_def)

text \<open>C30. The multiplication of emp (\<^verbatim>\<open>gfmul\<close>), which the shares are summed up with,
  agrees with \<^verbatim>\<open>F2128_MTA::mul\<close> on every pair of blocks.\<close>

theorem gfmul_equals_mul: "gfmul a b = mul a b"
  by (rule gfmul_eq_mul)

text \<open>C24. \<^verbatim>\<open>F2128_MTA::inv\<close> returns the multiplicative inverse of every block but
  zero.\<close>

theorem inv_block_inverse:
  assumes "a \<noteq> 0"
  shows "mul a (inv_block a) = makeBlock 0 1"
proof -
  have "Gf a \<noteq> 0" using assms by (simp add: zero_gf_def)
  then have "Gf (mul a (inv_block a)) = Gf (makeBlock 0 1)"
    by (simp add: Gf_mul Gf_inv_block Gf_makeBlock_1)
  then show ?thesis by simp
qed

theorem inv_block_inverse_witness: "(2 :: block) \<noteq> 0 \<and> mul 2 (inv_block 2) = makeBlock 0 1"
  using inv_block_inverse [of 2] by simp

text \<open>\<^verbatim>\<open>shift_left_bits\<close> shifts by its argument below 64, and from 64 on by 64
  plus eight times the rest, because the second shift of that branch counts bytes.\<close>

theorem shift_left_bits_spec:
  "shift_left_bits k a = (if k < 64 then push_bit k a else push_bit (64 + 8 * (k - 64)) a)"
  by (simp add: shift_left_bits_small shift_left_bits_large)

text \<open>A block survives the way to sixteen bytes and back.\<close>

theorem arr_block_roundtrip: "arr_to_block (block_to_arr b) = b"
  by (rule arr_to_block_to_arr)

section \<open>Oblivious transfer\<close>

text \<open>C28. \<^verbatim>\<open>sse_trans\<close> on 128 rows transposes: bit \<open>x\<close> of output block \<open>y\<close> is bit \<open>y\<close> of
  row \<open>x\<close>.\<close>

theorem sse_trans_transposes:
  assumes "y < ncols" and "x < 128"
  shows "bit (sse_trans rows ncols ! y) x = bit (rows ! x ! (y div 128)) (y mod 128)"
  by (rule bit_sse_trans [OF assms])

theorem sse_trans_transposes_witness:
  "bit (sse_trans (replicate 128 [4]) 128 ! 2) 5 = bit (replicate 128 [4 :: block] ! 5 ! (2 div 128)) (2 mod 128)"
  using sse_trans_transposes [of 2 128 5 "replicate 128 [4]"] by simp

text \<open>C29. In the base transfer over any abelian group the receiver obtains, at each position,
  the message its choice bit names.\<close>

theorem otco_chooses:
  assumes "i < length b"
  shows "otco kdf gen a bb data0 data1 b ! i = (if b ! i then data1 ! i else data0 ! i)"
  by (rule otco_selects [OF assms])

theorem otco_chooses_witness:
  "otco (\<lambda>P i. word_of_int P) (1 :: int) 3 (\<lambda>i. i + 2) [7, 8] [9, 10] [False, True] ! 1 = 10"
  using otco_chooses [of 1 "[False, True]" "\<lambda>P i. word_of_int P" "1 :: int" 3 "\<lambda>i. i + 2" "[7, 8]" "[9, 10]"]
  by simp

text \<open>C7. A session of the IKNP extension with its malicious-security check ends, for honest
  parties and whatever their random choices and the state of the generators, with the chosen message at
  every position: the check never rejects them.\<close>

theorem iknp_transfers:
  assumes "length b0 = length r" and "length b1 = length r"
  shows "iknp_ot aes kdf gen st b0 b1 r = Some (ot_select b0 b1 r)"
  by (rule iknp_ot_selects [OF assms])

definition sample_session :: iknp_session where
  "sample_session = \<lparr>ik_s = even, ik_k0 = word_of_nat, ik_k1 = (\<lambda>i. word_of_nat (i + 128)), ik_a = 5,
     ik_bb = (\<lambda>i. i), ik_counter = 0, ik_local_r = odd, ik_seed2 = 9, ik_cot_s = 11, ik_gid = 0\<rparr>"

theorem iknp_transfers_witness:
  "iknp_ot (\<lambda>k x. k XOR x) (\<lambda>P i. word_of_int P) (1 :: int) sample_session [7, 8] [9, 10] [False, True]
     = Some [7, 10]"
  using iknp_transfers [of "[7, 8]" "[False, True]" "[9, 10]" "\<lambda>k x. k XOR x" "\<lambda>P i. word_of_int P" "1 :: int" sample_session]
  by (simp add: ot_select_def upt_rec)

section \<open>Multiplicative-to-additive conversion in GF(2^128)\<close>

text \<open>C19. One multiplication of the unbatched protocol, run over the OT extension: the
  consistency check accepts, and the two outputs add up to the product of the two inputs.\<close>

theorem single_iter_shares:
  assumes "digest_ok digest"
  shows "\<exists>a b. single_iter (iknp_ot aes kdf gen st) digest rnd in_r in_s = Some (a, b) \<and>
     a XOR b = mul in_r in_s"
proof -
  obtain a b where "single_iter (iknp_ot aes kdf gen st) digest rnd in_r in_s = Some (a, b)"
    "Gf a + Gf b = Gf in_r * Gf in_s"
    using iknp.single_iter_product [OF assms] by blast
  moreover from this have "Gf (a XOR b) = Gf (mul in_r in_s)" by (simp only: Gf_xor Gf_mul)
  ultimately show ?thesis by auto
qed

definition sample_iter :: iter_rand where
  "sample_iter = \<lparr>ir_gadget = word_of_nat, ir_gamma = word_of_nat, ir_pads = word_of_nat, ir_alpha_hat = 3,
     ir_chi = 4, ir_chi_hat = 5\<rparr>"

theorem single_iter_shares_witness:
  "\<exists>a b. single_iter (iknp_ot (\<lambda>k x. k XOR x) (\<lambda>P i. word_of_int P) (1 :: int) sample_session)
     (\<lambda>x. Some (replicate 32 0)) sample_iter 6 7 = Some (a, b) \<and> a XOR b = mul 6 7"
  by (rule single_iter_shares) (simp add: digest_ok_def)

text \<open>C17. \<^verbatim>\<open>generate_shares_repeated\<close> returns, and position \<open>i\<close> of the two arrays adds up
  to the power \<open>i + 1\<close> of the sum of the inputs, for all 1088 positions.\<close>

theorem repeated_powers:
  assumes "digest_ok digest"
  shows "\<exists>v p. generate_shares_repeated (\<lambda>i e. iknp_ot aes kdf gen (st i e)) digest rnd in_v in_p = Some (v, p) \<and>
     map2 (XOR) v p = map (\<lambda>i. ungf (Gf (in_v XOR in_p) ^ (i + 1))) [0..<num_powers]"
proof -
  have "oblivious_transfer (iknp_ot aes kdf gen (st i e))" for i e by (rule iknp.oblivious_transfer_axioms)
  from generate_shares_repeated_powers [where ots = "\<lambda>i e. iknp_ot aes kdf gen (st i e)", OF this assms]
  obtain v p where "generate_shares_repeated (\<lambda>i e. iknp_ot aes kdf gen (st i e)) digest rnd in_v in_p = Some (v, p)"
    "powers_ok (Gf in_v + Gf in_p) {..<num_powers} (v, p)" by fastforce
  then show ?thesis using powers_ok_list by (fastforce simp only: Gf_xor)
qed

theorem repeated_powers_witness:
  "\<exists>v p. generate_shares_repeated
       (\<lambda>i e. iknp_ot (\<lambda>k x. k XOR x) (\<lambda>P i. word_of_int P) (1 :: int) sample_session)
       (\<lambda>x. Some (replicate 32 0)) (\<lambda>i e. sample_iter) 6 7 = Some (v, p) \<and>
     map2 (XOR) v p = map (\<lambda>i. ungf (Gf (6 XOR 7) ^ (i + 1))) [0..<num_powers]"
  by (rule repeated_powers) (simp add: digest_ok_def)

text \<open>C1. \<^verbatim>\<open>generate_shares_batched\<close> with multiplicative shares aborts only when the receiver's
  check rejects the batch; otherwise position \<open>i\<close> of the two arrays adds up to the power \<open>i + 1\<close> of the
  product of the inputs, for all 1088 positions.\<close>

theorem batched_powers:
  "case generate_shares_batched (iknp_ot aes kdf gen st) rnd in_v in_p of
     None \<Rightarrow> \<not> batch_consistent rnd
   | Some (v, p) \<Rightarrow> batch_consistent rnd \<and>
       map2 (XOR) v p = map (\<lambda>i. ungf (Gf (mul in_v in_p) ^ (i + 1))) [0..<num_powers]"
proof (cases "generate_shares_batched (iknp_ot aes kdf gen st) rnd in_v in_p")
  case None
  then show ?thesis using iknp.generate_shares_batched_powers [where aes = aes and kdf = kdf and gen = gen and st = st
      and rnd = rnd and in_v = in_v and in_p = in_p] by simp
next
  case (Some vp)
  then have "batch_consistent rnd" "powers_ok (Gf in_v * Gf in_p) {..<num_powers} vp"
    using iknp.generate_shares_batched_powers [where aes = aes and kdf = kdf and gen = gen and st = st
      and rnd = rnd and in_v = in_v and in_p = in_p] by simp_all
  then show ?thesis using Some powers_ok_list by (cases vp) (simp add: Gf_mul)
qed

text \<open>C25. What the receiver's check of a batch accepts, for all values it is run on:
  the batch passes exactly when \<^emph>\<open>no\<close> row satisfies the row's equation.  The left side of that equation
  is the sender's second value and the weighted sum of the receiver's outputs at the positions
  \<open>i * gadget_elements + j\<close>; the right side is the sender's first value if no choice bit of the row is set
  and 0 otherwise, because the code XORs \<open>rhs\<close> with itself.  So a matching row makes the check fail, and in a
  row with a set choice bit the sender's first value has no influence.\<close>

theorem batched_check_inverted:
  "check_consistency_batched r t_b chi beta \<longleftrightarrow>
     \<not> (\<exists>i < gadget_elements.
       foldl (XOR) (r ! (2 * i + 1))
         (map (\<lambda>j. mul (fst chi ! i) (fst t_b ! (i * gadget_elements + j)) XOR
                   mul (snd chi ! i) (snd t_b ! (i * gadget_elements + j))) [0..<l_mults]) =
       (if \<exists>j < l_mults. beta ! (i * gadget_elements + j) then 0 else r ! (2 * i)))"
  unfolding check_consistency_batched_iff check_row_eq fst_conv snd_conv by blast

section \<open>GHASH\<close>

text \<open>C2. End to end: the two parties run the batched conversion on multiplicative shares
  of \<open>H\<close> (in the natural bit order) and each evaluates the polynomial on its own powers; the two results
  XOR to the GHASH of NIST SP 800-38D over the record's header and ciphertext.\<close>

theorem ghash_from_batch:
  assumes "generate_shares_batched (iknp_ot aes kdf gen st) rnd in_v in_p = Some (v, p)"
    and "natw h = mul in_v in_p"
    and "aad_blocks aad + aad_blocks ct + 1 \<le> kMaxPowers"
  shows "\<exists>sv sp. ghash_share (blocks_to_bytes v) aad ct = Some sv \<and>
     ghash_share (blocks_to_bytes p) aad ct = Some sp \<and>
     be_block (map2 (XOR) sv sp) = gcm_ghash h aad ct"
proof -
  have "powers_ok (Gf in_v * Gf in_p) {..<num_powers} (v, p)"
    using iknp.generate_shares_batched_powers [where aes = aes and kdf = kdf and gen = gen and st = st
      and rnd = rnd and in_v = in_v and in_p = in_p] assms(1) by simp
  then show ?thesis using ghash_shares [OF assms(3)] assms(2) by (simp add: Gf_mul)
qed

theorem ghash_from_batch_witness:
  "\<exists>v p sv sp. generate_shares_batched (iknp_ot (\<lambda>k x. k XOR x) (\<lambda>P i. word_of_int P) (1 :: int) sample_session)
       plain_batch 1 1 = Some (v, p) \<and>
     ghash_share (blocks_to_bytes v) [1, 2, 3] [4, 5] = Some sv \<and>
     ghash_share (blocks_to_bytes p) [1, 2, 3] [4, 5] = Some sp \<and>
     be_block (map2 (XOR) sv sp) = gcm_ghash (natw 1) [1, 2, 3] [4, 5]"
proof -
  let ?ot = "iknp_ot (\<lambda>k x. k XOR x) (\<lambda>P i. word_of_int P) (1 :: int) sample_session"
  obtain v p where vp: "generate_shares_batched ?ot plain_batch 1 1 = Some (v, p)"
    using iknp.generate_shares_batched_powers [where aes = "\<lambda>k x. k XOR x" and kdf = "\<lambda>P i. word_of_int P"
        and gen = "1 :: int" and st = sample_session and rnd = plain_batch and in_v = 1 and in_p = 1] plain_batch_consistent
    by (cases "generate_shares_batched ?ot plain_batch 1 1") auto
  have "natw (natw 1) = mul 1 1" by (simp add: mul_simps)
  from ghash_from_batch [OF vp this, of "[1, 2, 3]" "[4, 5]"] show ?thesis
    using vp by (simp add: aad_blocks_def kMaxPowers_def)
qed

text \<open>A record that needs more than 1088 powers is refused, and no other.\<close>

theorem ghash_share_limit:
  "ghash_share powers aad ct = None \<longleftrightarrow> (length aad + 15) div 16 + (length ct + 15) div 16 + 1 > 1088"
  by (simp add: ghash_share_def Let_def aad_blocks_def kMaxPowers_def del: upt_Suc)

section \<open>Keystream blocks\<close>

text \<open>Over records with distinct sequence numbers, two block numbers that resolve
  to the same AES-CTR input are the same number: no keystream block serves two positions.\<close>

theorem keystream_inputs_distinct:
  assumes "distinct (map rd_seq recs)"
    and "resolve recs i = Some (s, c)" and "resolve recs j = Some (s', c')"
    and "ctr_block iv s c = ctr_block iv s' c'"
  shows "i = j"
  by (rule keystream_blocks_distinct [OF assms])

theorem keystream_inputs_distinct_witness:
  "resolve [\<lparr>rd_seq = 3, rd_ct_len = 20\<rparr>, \<lparr>rd_seq = 4, rd_ct_len = 5\<rparr>] 2 = Some (4, 2) \<and> (2 :: nat) = 2"
  using keystream_inputs_distinct [of "[\<lparr>rd_seq = 3, rd_ct_len = 20\<rparr>, \<lparr>rd_seq = 4, rd_ct_len = 5\<rparr>]" 2 4 2 2 4 2 "replicate 12 0"]
  by (simp add: resolve_def rec_blocks_def)

text \<open>Exactly the numbers below \<open>total_blocks\<close> resolve.\<close>

theorem resolve_total: "(resolve recs index \<noteq> None) = (index < total_blocks recs)"
  using resolve_defined [of 0 index recs] by (auto simp: resolve_def)

text \<open>A resolved counter is at least 2 and does not wrap, so it never meets the
  counter 1 that the tag consumes.\<close>

theorem resolve_counter_range:
  assumes "resolve recs index = Some (seq, ctr)"
  shows "2 \<le> unat ctr \<and> unat ctr < 2 ^ 28 + 2"
  by (rule resolve_unat_counter [OF assms])

theorem resolve_counter_range_witness:
  "resolve [\<lparr>rd_seq = 3, rd_ct_len = 20\<rparr>] 1 = Some (3, 3) \<and> 2 \<le> unat (3 :: 32 word)"
  using resolve_counter_range [of "[\<lparr>rd_seq = 3, rd_ct_len = 20\<rparr>]" 1 3 3]
  by (simp add: resolve_def rec_blocks_def)

section \<open>Bignums and the transport\<close>

text \<open>C26. The binary inversion of BoringSSL, for an odd modulus and a reduced input:
  the loops end, an inverse below the modulus is returned when the input has one, and an error when it
  has none.\<close>

theorem mod_inverse_odd_correct:
  assumes "odd n" and "a < n"
  shows "case BN_mod_inverse_odd a n of
     Some r \<Rightarrow> coprime a n \<and> r < n \<and> (a * r) mod n = 1 mod n
   | None \<Rightarrow> \<not> coprime a n"
  using BN_mod_inverse_odd_cases [OF assms] by (cases "coprime a n") auto

theorem mod_inverse_odd_correct_witness:
  "BN_mod_inverse_odd 3 7 = Some 5 \<and> (3 * 5) mod 7 = (1 mod 7 :: nat)"
proof -
  have "coprime (3 :: nat) 7" by (simp add: coprime_iff_gcd_eq_1 gcd_nat.simps)
  with mod_inverse_odd_correct [of 7 3] obtain r where
    r: "BN_mod_inverse_odd 3 7 = Some r" "r < 7" "(3 * r) mod 7 = (1 :: nat)"
    by (cases "BN_mod_inverse_odd 3 7") auto
  from r(2) consider "r = 0" | "r = 1" | "r = 2" | "r = 3" | "r = 4" | "r = 5" | "r = 6" by linarith
  then show ?thesis using r by cases auto
qed

text \<open>C27. \<^verbatim>\<open>Util::process_data\<close> with SSL\_read: under outcomes in which every
  transient failure is resolved by poll and progress keeps recurring, the loop returns with exactly the
  requested bytes, in order, and leaves the rest of the stream.\<close>

theorem process_data_completes:
  assumes "fair ev" and "n \<le> length (ssl_content s)"
  shows "\<exists>s'. process_data_read ev 0 n s [] = Some (Some (take n (ssl_content s), s')) \<and>
     ssl_content s' = drop n (ssl_content s)"
  using process_data_read_complete [OF assms, of 0 "[]"] by simp

theorem process_data_completes_witness:
  "\<exists>s'. process_data_read (\<lambda>i. if even i then Want True else Ready) 0 3
       \<lparr>pending_app_data = [1], incoming = [[], [2, 3, 4]]\<rparr> [] = Some (Some ([1, 2, 3], s')) \<and>
     ssl_content s' = [4]"
proof -
  have "\<exists>j \<ge> i. \<not> even j" for i :: nat by (cases "even i") (auto intro: exI [of _ "Suc i"])
  then have "fair (\<lambda>i. if even i then Want True else Ready)" by (auto simp: fair_def)
  from process_data_completes [OF this, of 3 "\<lparr>pending_app_data = [1], incoming = [[], [2, 3, 4]]\<rparr>"]
  show ?thesis by (simp add: ssl_content_def)
qed

text \<open>C22. Framing of EmpWrapper: whatever is sent in any number of rounds, each closed by
  a flush and none larger than 2^30 bytes, is received message by message on the other side when each
  round is read with the sizes it was sent with; both buffers are idle again and the receiver has counted
  the bytes the sender has counted.\<close>

theorem emp_rounds_delivered:
  assumes "\<And>c. fair (evs c)" and "\<forall>ms \<in> set mss. length (concat ms) \<le> 2 ^ 30"
  shows "\<exists>ws s wr s'. send_rounds evs mss (EmpWrapper_new True) \<lparr>pending_app_data = [], incoming = []\<rparr> = Some (ws, s) \<and>
     recv_rounds evs (map (map length) mss) (EmpWrapper_new True) s = Some (mss, wr, s') \<and>
     ssl_content s' = [] \<and> idle_writer ws \<and> reader_ok wr \<and> unread (ew_read_buffer wr) = [] \<and>
     read_counter (ew_counter wr) = write_counter (ew_counter ws)"
proof -
  obtain ws s where s: "send_rounds evs mss (EmpWrapper_new True) \<lparr>pending_app_data = [], incoming = []\<rparr> = Some (ws, s)"
      "idle_writer ws" "ssl_content s = concat (map (\<lambda>ms. frame (concat ms)) mss)"
      "write_counter (ew_counter ws) = of_nat (length (concat (map (\<lambda>ms. frame (concat ms)) mss)))"
    using send_rounds_frames [where evs = evs and mss = mss and s = "\<lparr>pending_app_data = [], incoming = []\<rparr>",
        OF assms(1) EmpWrapper_new_idle(1)]
    by (auto simp: EmpWrapper_new_counter ssl_content_empty)
  from recv_rounds_frames [where evs = evs and rest = "[]" and s = s, OF assms(1) EmpWrapper_new_idle(2,3) _ assms(2)] s
  show ?thesis by (auto simp: EmpWrapper_new_counter)
qed

theorem emp_rounds_delivered_witness:
  "\<exists>ws s wr s'. send_rounds (\<lambda>c i. Ready) [[[1, 2], [3]], [[4]]] (EmpWrapper_new True)
       \<lparr>pending_app_data = [], incoming = []\<rparr> = Some (ws, s) \<and>
     recv_rounds (\<lambda>c i. Ready) (map (map length) [[[1, 2], [3 :: byte]], [[4]]]) (EmpWrapper_new True) s =
       Some ([[[1, 2], [3]], [[4]]], wr, s') \<and>
     ssl_content s' = []"
proof -
  have "\<forall>ms \<in> set [[[1, 2], [3]], [[4 :: byte]]]. length (concat ms) \<le> 2 ^ 30" by simp
  from emp_rounds_delivered [where evs = "\<lambda>c i. Ready", OF fair_const this] show ?thesis by blast
qed

text \<open>C35. A receive of more bytes than are buffered takes the missing ones from the next frame on
  the wire, and from that frame only: if the buffered bytes and the frame's payload together are enough,
  the receive returns the first \<open>n\<close> of them in order and keeps the others buffered; if they are not, the size
  assertion of read\_bytes fails, whatever follows on the wire.\<close>

theorem emp_underrun:
  assumes "\<And>c. fair (evs c)" and "reader_ok w" and "unread (ew_read_buffer w) = u" and "length u < n"
    and "ssl_content s = frame p @ rest" and "p \<noteq> []" and "length p \<le> 2 ^ 30"
  shows "if length u + length p < n then recv_data_internal evs True n w s = None
    else \<exists>w' s'. recv_data_internal evs True n w s = Some (take n (u @ p), w', s') \<and> reader_ok w' \<and>
      unread (ew_read_buffer w') = drop n (u @ p) \<and> ssl_content s' = rest"
  using recv_next_frame [where evs = evs, OF assms] by auto

theorem emp_underrun_witness:
  "recv_data_internal (\<lambda>c i. Ready) True 2 (EmpWrapper_new True)
     \<lparr>pending_app_data = [], incoming = [frame [1], frame [2]]\<rparr> = None \<and>
   (\<exists>w' s'. recv_data_internal (\<lambda>c i. Ready) True 2 (EmpWrapper_new True)
     \<lparr>pending_app_data = [], incoming = [frame [1, 2, 3]]\<rparr> = Some ([1, 2], w', s') \<and>
     unread (ew_read_buffer w') = [3])"
  using emp_underrun [of "\<lambda>c i. Ready" "EmpWrapper_new True" "[]" 2
      "\<lparr>pending_app_data = [], incoming = [frame [1], frame [2]]\<rparr>" "[1]" "frame [2]"]
    emp_underrun [of "\<lambda>c i. Ready" "EmpWrapper_new True" "[]" 2
      "\<lparr>pending_app_data = [], incoming = [frame [1, 2, 3]]\<rparr>" "[1, 2, 3]" "[]"] EmpWrapper_new_idle
  by (auto simp: ssl_content_def)

section \<open>Multiplication modulo a prime\<close>

text \<open>\<^verbatim>\<open>MtA::round_up_to_block\<close> on 32-bit sizes: the least multiple of 16 that is at
  least the argument, except for the last fifteen values, where the addition wraps and the result is 0.\<close>

theorem round_up_bounds:
  "if unat sz \<le> 2 ^ 32 - 16
   then unat sz \<le> unat (round_up_to_block sz) \<and> unat (round_up_to_block sz) < unat sz + 16 \<and>
        16 dvd unat (round_up_to_block sz)
   else round_up_to_block sz = 0"
  using unat_round_up_to_block [of sz] round_up_to_block_wraps [of sz] by (auto simp: not_le)

text \<open>C8. The multiplication protocol over the OT extension, from freshly initialised
  entries: for a modulus above 1 of at most 521 bits the run returns on both sides, for every choice of
  the random values, and the two outputs add up to \<open>a * b\<close> modulo \<open>q\<close>.\<close>

theorem mta_shares_product:
  assumes "mta_modulus q" and "BN_num_bits a \<le> BN_num_bits q"
  shows "\<exists>os se or re. play (iknp_ot aes kdf gen st) junk rs rr q a b idle_ssl = Some ((os, se), (or, re), idle_ssl) \<and>
     os < q \<and> or < q \<and> (os + or) mod q = (a * b) mod q"
  by (rule iknp.play_product [OF assms])

definition sample_receiver :: receiver_rand where
  "sample_receiver = \<lparr>rr_v = (\<lambda>i. i), rr_t = (\<lambda>i. i mod 2), rr_pos = 3, rr_sigma = 4\<rparr>"

lemma mta_modulus_13: "mta_modulus 13"
  unfolding mta_modulus_def using BN_num_bits_le [of 13 521] by simp

theorem mta_shares_product_witness:
  "\<exists>os se or re. play (iknp_ot (\<lambda>k x. k XOR x) (\<lambda>P i. word_of_int P) (1 :: int) sample_session) (\<lambda>i. 0)
       (\<lambda>i. i) sample_receiver 13 5 7 idle_ssl = Some ((os, se), (or, re), idle_ssl) \<and>
     os < 13 \<and> or < 13 \<and> (os + or) mod 13 = (5 * 7) mod (13 :: nat)"
  by (rule mta_shares_product [OF mta_modulus_13]) (simp add: BN_num_bits_mono)

text \<open>C21. Two multiplications over a single transfer: both pairs of outputs are shares of
  their products, and the entries of both sides come back with the sizes they must have for the next run,
  with nothing left in the channel.\<close>

theorem mta_batch_products:
  assumes "mta_modulus q" and "sender_entry_ok q se1" and "sender_entry_ok q se2"
    and "receiver_entry_ok q re1" and "receiver_entry_ok q re2"
  shows "\<exists>s1 s2 se1' se2' r1 r2 re1' re2'.
     play_inplace_2 (iknp_ot aes kdf gen st) rs1 rs2 rr1 rr2 q a1 a2 b1 b2 se1 se2 re1 re2 idle_ssl =
       Some ((s1, s2), (se1', se2'), (r1, r2), (re1', re2'), idle_ssl) \<and>
     s1 < q \<and> s2 < q \<and> r1 < q \<and> r2 < q \<and>
     (s1 + r1) mod q = (a1 * b1) mod q \<and> (s2 + r2) mod q = (a2 * b2) mod q \<and>
     sender_entry_ok q se1' \<and> sender_entry_ok q se2' \<and> receiver_entry_ok q re1' \<and> receiver_entry_ok q re2'"
  by (rule iknp.play_inplace_2_products [OF assms])

theorem mta_batch_products_witness:
  "\<exists>se1 re1 s1 s2 se1' se2' r1 r2 re1' re2'.
     play_inplace_2 (iknp_ot (\<lambda>k x. k XOR x) (\<lambda>P i. word_of_int P) (1 :: int) sample_session) (\<lambda>i. i) (\<lambda>i. i)
       sample_receiver sample_receiver 13 2 3 4 5 se1 se1 re1 re1 idle_ssl =
       Some ((s1, s2), (se1', se2'), (r1, r2), (re1', re2'), idle_ssl) \<and>
     (s1 + r1) mod 13 = (8 :: nat) \<and> (s2 + r2) mod 13 = (2 :: nat)"
proof -
  obtain se re where "sender_entry_ok 13 se" "receiver_entry_ok 13 re"
    using build_entries_ok [OF mta_modulus_13] .
  from mta_batch_products [OF mta_modulus_13 this(1,1,2,2), where ?a1.0 = 2 and ?a2.0 = 3 and ?b1.0 = 4 and ?b2.0 = 5]
  show ?thesis by fastforce
qed

text \<open>C39. The choice bits are the values of rand() converted to bool: when no draw is zero,
  every choice bit of the receiver is true, so the vector \<open>t\<close> carries no randomness.\<close>

theorem mta_choice_bits:
  assumes "\<forall>i < mta_n q. rr_t rr i \<noteq> 0" and "generate_t_and_v rr b q = Some (ts, vs)"
  shows "ts = replicate (mta_n q) True"
  by (rule generate_t_all_true [OF assms])

theorem mta_choice_bits_witness:
  "\<exists>ts vs. generate_t_and_v (sample_receiver\<lparr>rr_t := \<lambda>i. i + 1\<rparr>) 5 13 = Some (ts, vs) \<and>
     ts = replicate (mta_n 13) True"
proof -
  let ?r = "sample_receiver\<lparr>rr_t := \<lambda>i. i + 1\<rparr>"
  obtain ts vs where "generate_t_and_v_inplace ?r 5 13 (replicate (mta_n 13) False) (replicate (mta_n 13) 0) = Some (ts, vs)"
    by (rule generate_t_and_v_inplace_sum [of 13 "replicate (mta_n 13) False" "replicate (mta_n 13) 0" ?r 5],
        simp, simp, simp, rule that)
  then have g: "generate_t_and_v ?r 5 13 = Some (ts, vs)"
    by (simp add: generate_t_and_v_def generate_t_and_v_init_def)
  with mta_choice_bits [OF _ g] show ?thesis by simp
qed

section \<open>Shares of an x-coordinate\<close>

text \<open>C4. The conversion of two points into field shares, over the OT extension, for each of the
  three NIST curves: when the blinded difference of the x-coordinates is invertible, both sides obtain
  a byte string of the size of the field, and the two values add up, modulo the field prime, to the
  x-coordinate given by the chord through the two points; whenever the inputs are on a curve
  \<open>y^2 = x^3 + a x + b\<close>, so is the chord's third point, mirrored.\<close>

theorem ectf_shares:
  assumes "curve_field (get_nid_from_uint16 cid) = Some p"
    and "vx \<noteq> []" "vy \<noteq> []" "px \<noteq> []" "py \<noteq> []"
    and "be_nat vx < p" "be_nat vy < p" "be_nat px < p" "be_nat py < p"
    and "BN_rand_range_ex (er_rho_v r) 1 p = Some rv" "BN_rand_range_ex (er_rho_p r) 1 p = Some rp"
    and "coprime ((int (be_nat px) - int (be_nat vx)) * (int rv + int rp)) (int p)"
  shows "\<exists>ov op l x3. ectf ev (\<lambda>i. iknp_ot aes kdf gen (st i)) r cid (vx, vy) (px, py) = Some (ov, op) \<and>
     length ov = BN_num_bytes p \<and> length op = BN_num_bytes p \<and>
     x3 = (int (be_nat ov) + int (be_nat op)) mod int p \<and>
     (l * (int (be_nat px) - int (be_nat vx))) mod int p = (int (be_nat py) - int (be_nat vy)) mod int p \<and>
     x3 = (l\<^sup>2 - int (be_nat vx) - int (be_nat px)) mod int p \<and>
     (\<forall>a b. on_curve (int p) a b (int (be_nat vx)) (int (be_nat vy)) \<longrightarrow>
            on_curve (int p) a b (int (be_nat px)) (int (be_nat py)) \<longrightarrow>
            on_curve (int p) a b x3 (l * (int (be_nat vx) - x3) - int (be_nat vy)))"
  by (rule iknp_seq.ectf_chord [OF assms])

theorem ectf_shares_witness:
  "\<exists>ov op. ectf (\<lambda>a n. None) (\<lambda>i. iknp_ot (\<lambda>k x. k XOR x) (\<lambda>P i. word_of_int P) (1 :: int) sample_session)
     \<lparr>er_junk = (\<lambda>i. 0), er_sender = (\<lambda>i j. i + j), er_receiver = (\<lambda>i. sample_receiver), er_rho_v = 0, er_rho_p = 0\<rparr>
     23 ([1], [2]) ([2], [5]) = Some (ov, op) \<and> length ov = BN_num_bytes (le_words kP256Field)"
proof -
  let ?p = "le_words kP256Field"
  let ?r = "\<lparr>er_junk = (\<lambda>i. 0), er_sender = (\<lambda>i j. i + j), er_receiver = (\<lambda>i. sample_receiver), er_rho_v = 0, er_rho_p = 0\<rparr>"
  have p: "curve_field (get_nid_from_uint16 23) = Some ?p" by (simp add: curve_field_def get_nid_from_uint16_def)
  have big: "5 < ?p" "odd ?p" by (simp_all add: le_words_def kP256Field_def)
  have r: "BN_rand_range_ex (er_rho_v ?r) 1 ?p = Some 1" "BN_rand_range_ex (er_rho_p ?r) 1 ?p = Some 1"
    using big by (simp_all add: BN_rand_range_ex_def)
  have co: "coprime ((int (be_nat [2]) - int (be_nat [1])) * (int 1 + int 1)) (int ?p)"
    using big(2) by (simp add: coprime_left_2_iff_odd)
  have "be_nat [1] < ?p" "be_nat [2] < ?p" "be_nat [5] < ?p" using big(1) by simp_all
  with ectf_shares [OF p _ _ _ _ _ _ _ _ r co, where vy = "[2]" and py = "[5]" and ev = "\<lambda>a n. None"
      and aes = "\<lambda>k x. k XOR x" and kdf = "\<lambda>P i. word_of_int P" and gen = "1 :: int" and st = "\<lambda>i. sample_session"]
  show ?thesis by auto
qed

text \<open>C33. When the blinded difference of the x-coordinates is not invertible, in particular when
  the x-coordinates are equal or the two blinding values cancel, the conversion reports an error on both
  sides instead of a wrong share.\<close>

theorem ectf_rejects:
  assumes "curve_field (get_nid_from_uint16 cid) = Some p"
    and "vx \<noteq> []" "vy \<noteq> []" "px \<noteq> []" "py \<noteq> []"
    and "be_nat vx < p" "be_nat vy < p" "be_nat px < p" "be_nat py < p"
    and "BN_rand_range_ex (er_rho_v r) 1 p = Some rv" "BN_rand_range_ex (er_rho_p r) 1 p = Some rp"
    and "\<not> coprime ((int (be_nat px) - int (be_nat vx)) * (int rv + int rp)) (int p)"
  shows "ectf ev (\<lambda>i. iknp_ot aes kdf gen (st i)) r cid (vx, vy) (px, py) = None"
  by (rule iknp_seq.ectf_none [OF assms])

theorem ectf_rejects_witness:
  "ectf (\<lambda>a n. None) (\<lambda>i. iknp_ot (\<lambda>k x. k XOR x) (\<lambda>P i. word_of_int P) (1 :: int) sample_session)
     \<lparr>er_junk = (\<lambda>i. 0), er_sender = (\<lambda>i j. i + j), er_receiver = (\<lambda>i. sample_receiver), er_rho_v = 0, er_rho_p = 0\<rparr>
     23 ([1], [2]) ([1], [5]) = None"
proof -
  let ?p = "le_words kP256Field"
  let ?r = "\<lparr>er_junk = (\<lambda>i. 0), er_sender = (\<lambda>i j. i + j), er_receiver = (\<lambda>i. sample_receiver), er_rho_v = 0, er_rho_p = 0\<rparr>"
  have p: "curve_field (get_nid_from_uint16 23) = Some ?p" by (simp add: curve_field_def get_nid_from_uint16_def)
  have big: "5 < ?p" by (simp add: le_words_def kP256Field_def)
  have r: "BN_rand_range_ex (er_rho_v ?r) 1 ?p = Some 1" "BN_rand_range_ex (er_rho_p ?r) 1 ?p = Some 1"
    using big by (simp_all add: BN_rand_range_ex_def)
  have co: "\<not> coprime ((int (be_nat [1]) - int (be_nat [1])) * (int 1 + int 1)) (int ?p)"
    using big by simp
  have "be_nat [1] < ?p" "be_nat [2] < ?p" "be_nat [5] < ?p" using big by simp_all
  with ectf_rejects [OF p _ _ _ _ _ _ _ _ r co, where vy = "[2]" and py = "[5]"] show ?thesis by simp
qed

section \<open>Messages\<close>

text \<open>C38. The check on a received header accepts the bytes of the enumerators and one more:
  15, which no enumerator has, is accepted as well.  Different enumerators have different bytes.\<close>

theorem headers_accepted:
  "(is_valid_header b \<longleftrightarrow> (\<exists>h. h \<noteq> H_SIZE \<and> header_byte h = b) \<or> b = 15) \<and>
   (header_byte h = header_byte h' \<longleftrightarrow> h = h')"
proof -
  have "is_valid_header 15" by (simp add: is_valid_header_def)
  moreover have "\<exists>h. h \<noteq> H_SIZE \<and> header_byte h = b" if v: "is_valid_header b" and n: "b \<noteq> 15"
  proof -
    have "b < 46" using v by (simp add: is_valid_header_def)
    then obtain h where "header_byte h = b" using header_byte_surj n by blast
    with v is_valid_header_enumerator [of h] show ?thesis by auto
  qed
  ultimately have "is_valid_header b \<longleftrightarrow> (\<exists>h. h \<noteq> H_SIZE \<and> header_byte h = b) \<or> b = 15"
    using is_valid_header_enumerator by metis
  then show ?thesis by simp
qed

text \<open>C36. Packing a key share and unpacking the message gives back the header and the
  share, for every real header; packing refuses exactly the empty share and one that does not fit a
  TLS record.\<close>

theorem key_message_roundtrip:
  assumes "h \<noteq> H_SIZE"
  shows "pack_key_bytes h share \<bind> unpack_key_bytes =
    (if share = [] \<or> length share \<ge> SSL3_RT_MAX_PLAIN_LENGTH then None else Some (header_byte h, share))"
  using assms by (simp add: pack_key_bytes_eq unpack_key_bytes_eq is_valid_header_enumerator)

theorem key_message_roundtrip_witness:
  "pack_key_bytes H_OK [1, 2, 3] \<bind> unpack_key_bytes = Some (header_byte H_OK, [1, 2, 3])"
  using key_message_roundtrip [of H_OK "[1, 2, 3]"] by (simp add: SSL3_RT_MAX_PLAIN_LENGTH_def)

text \<open>C37. The framing of a serialised curve point is a bijection: a message parses to a group
  and a point exactly when it is the message written for them.\<close>

theorem point_framing:
  "deinitialise_cbb_for_ec_point_data x = Some (g, c) \<longleftrightarrow> initialise_cbb_for_ec_point_data g c = Some x"
  using ec_point_framing deinitialise_unique by blast

section \<open>Records\<close>

text \<open>C3. Encryption of a request between honest parties: up to 1023 bytes of plaintext
  and with a sequence number the verifier has not used before, it returns, the parties never suspect each
  other, and the record is the header, the AES-GCM ciphertext of plaintext and content type under the shared
  key with the nonce of TLS 1.3, and a valid tag; longer plaintexts and used sequence numbers are refused.\<close>

theorem request_is_gcm:
  assumes bf: "aes_netlist bf aes" and keys: "client_keys_agree P k"
    and g: "gcm_power_shares aes (client_key P k) powers (pv_cgcm_share P)"
    and mask: "length mask_bytes = 16"
  shows "if length plaintext < 1024 \<and> seq \<notin> set encrypted_seqs
    then \<exists>tag blocks. encrypt_request bf P k powers encrypted_seqs mask_bytes seq plaintext inner_type =
        Some (record_aad (length plaintext + 1) @
          gctr aes (client_key P k) (tls_nonce (tk_client_iv k) seq) 2 (plaintext @ [inner_type]) @ tag, blocks) \<and>
      length tag = 16 \<and>
      gcm_tag_valid aes (client_key P k) (tls_nonce (tk_client_iv k) seq) (record_aad (length plaintext + 1))
        (gctr aes (client_key P k) (tls_nonce (tk_client_iv k) seq) 2 (plaintext @ [inner_type])) tag
    else encrypt_request bf P k powers encrypted_seqs mask_bytes seq plaintext inner_type = None"
proof (cases "length plaintext < 1024 \<and> seq \<notin> set encrypted_seqs")
  case True
  then have "length plaintext < 1024" "seq \<notin> set encrypted_seqs" by simp_all
  from encrypt_request_gcm [OF bf keys g mask this, of inner_type] True show ?thesis by auto
next
  case False
  then have "1024 \<le> length plaintext \<or> seq \<in> set encrypted_seqs" by auto
  with False show ?thesis by (simp only: encrypt_request_refused if_False)
qed

definition sample_prover :: prover where
  "sample_prover =
     \<lparr>pv_client_key_share = replicate 16 7, pv_server_key_share = replicate 16 9,
      pv_client_iv = replicate 16 1, pv_server_iv = replicate 16 2,
      pv_cgcm_share = blocks_to_bytes (replicate num_powers 0), pv_sgcm_share = blocks_to_bytes (replicate num_powers 0),
      pv_key_commit_rand = replicate 16 3, pv_mask_seed = replicate 16 4, pv_mask_seed_key = replicate 16 5,
      pv_surf_true_mode = True, pv_surf_key_committed = False, pv_surf_key_released = False\<rparr>"

definition sample_keys :: TrafficCircuitOut where
  "sample_keys =
     \<lparr>tk_client_key_share = replicate 16 7, tk_client_iv = replicate 12 1, tk_server_key_share = replicate 16 9,
      tk_server_iv = replicate 12 2, tk_CATS_share = replicate 16 0, tk_SATS_share = replicate 16 0\<rparr>"

lemma sample_client:
  "client_keys_agree sample_prover sample_keys"
  "gcm_power_shares (map2 (XOR)) (client_key sample_prover sample_keys) (blocks_to_bytes (replicate num_powers 0))
     (pv_cgcm_share sample_prover)"
  using zero_power_shares [of "client_key sample_prover sample_keys"]
  by (simp_all add: sample_prover_def sample_keys_def client_keys_agree_def client_key_def)

lemma sample_server:
  "server_keys_agree sample_prover sample_keys"
  "gcm_power_shares (map2 (XOR)) (server_key sample_prover sample_keys) (blocks_to_bytes (replicate num_powers 0))
     (pv_sgcm_share sample_prover)"
  using zero_power_shares [of "server_key sample_prover sample_keys"]
  by (simp_all add: sample_prover_def sample_keys_def server_keys_agree_def server_key_def)

lemma numeral_eq_4: "Suc (Suc (Suc (Suc 0))) = 4"
  by simp

theorem request_is_gcm_witness:
  "\<exists>tag blocks. encrypt_request xor_netlist sample_prover sample_keys (blocks_to_bytes (replicate num_powers 0))
     [3, 4] (replicate 16 6) 5 [10, 11, 12] 23 =
     Some (record_aad 4 @ gctr (map2 (XOR)) (client_key sample_prover sample_keys) (tls_nonce (tk_client_iv sample_keys) 5) 2
       [10, 11, 12, 23] @ tag, blocks) \<and> length tag = 16"
  using request_is_gcm [OF xor_netlist_ok sample_client, of "replicate 16 6" "[10, 11, 12]" 5 "[3, 4]" 23]
  by (auto simp: numeral_eq_4)

text \<open>C18. When the number of blocks of a request is not a multiple of 16, the encryption
  circuit also encrypts zero blocks under the last counter, and the verifier, which receives all
  ciphertext blocks, obtains the last plaintext block by adding two of them.\<close>

theorem padding_reveals:
  assumes bf: "aes_netlist bf aes" and keys: "client_keys_agree P k"
    and g: "gcm_power_shares aes (client_key P k) powers (pv_cgcm_share P)"
    and mask: "length mask_bytes = 16" and short: "length plaintext < 1024" and fresh: "seq \<notin> set encrypted_seqs"
    and part: "(length plaintext + 16) div 16 mod 16 \<noteq> 0"
  shows "\<exists>record blocks. encrypt_request bf P k powers encrypted_seqs mask_bytes seq plaintext inner_type = Some (record, blocks) \<and>
    (let n = (length plaintext + 16) div 16 in
      n < length blocks \<and> xor_bytes (blocks ! (n - 1)) (blocks ! n) =
        take 16 (drop (16 * (n - 1)) (plaintext @ [inner_type]) @ replicate 16 0))"
proof -
  have n: "enc_nblocks (length (plaintext @ [inner_type])) = (length plaintext + 16) div 16"
    by (simp add: enc_nblocks_def)
  have "enc_nblocks (length (plaintext @ [inner_type])) mod AES_ENC_N \<noteq> 0"
    unfolding n using part by (simp only: AES_ENC_N_def not_False_eq_True)
  from tail_padding [OF bf length_client_key [OF keys] _ this, of "tk_client_iv k" seq]
    encrypt_request_gcm [OF bf keys g mask short fresh, of inner_type]
  show ?thesis unfolding n Let_def by fastforce
qed

theorem padding_reveals_witness:
  "\<exists>record blocks. encrypt_request xor_netlist sample_prover sample_keys (blocks_to_bytes (replicate num_powers 0))
     [3, 4] (replicate 16 6) 5 [10, 11, 12] 23 = Some (record, blocks) \<and>
   xor_bytes (blocks ! 0) (blocks ! 1) = [10, 11, 12, 23, 0, 0, 0, 0, 0, 0, 0, 0, 0, 0, 0, 0]"
  using padding_reveals [OF xor_netlist_ok sample_client, of "replicate 16 6" "[10, 11, 12]" 5 "[3, 4]" 23]
  by (auto simp: replicate_16)

text \<open>C5. The verification circuit with key commitment, on a record both parties hold: a
  ciphertext that is empty or longer than the verifier allows is refused; on any other no party is
  suspected, the opening bit says whether the verifier's digest is the commitment to the prover's key
  share, and the verdict is positive exactly when it is and the tag is the AES-GCM tag under the shared key.\<close>

theorem verdict_committed:
  assumes "aes_netlist bf aes" and "server_keys_agree P k"
    and "gcm_power_shares aes (server_key P k) powers (pv_sgcm_share P)" and "length (sr_tag rec) = 16"
    and "length (pv_key_commit_rand P) = 16" "length d_k = 32"
  shows "verify_committed bf P k powers d_k rec =
    (if 0 < length (sr_ciphertext rec) \<and> length (sr_ciphertext rec) \<le> 16385
     then Some
       \<lparr>gv_tag_passed = gcm_tag_valid aes (server_key P k) (tls_nonce (tk_server_iv k) (sr_seq rec))
            (record_aad (length (sr_ciphertext rec))) (sr_ciphertext rec) (sr_tag rec) \<and>
            hirose_commit_host aes (pv_key_commit_rand P) (pv_server_key_share P) = d_k,
        gv_cheated = False,
        gv_key_opened = (hirose_commit_host aes (pv_key_commit_rand P) (pv_server_key_share P) = d_k)\<rparr>
     else None)"
proof (cases "ct_len_ok (length (sr_ciphertext rec))")
  case True
  then show ?thesis
    using verify_committed_iff [OF assms(1-3) ct_len_ok_fits [OF True assms(4)] True assms(5,6)]
    by (simp add: record_valid_def ct_len_ok_iff)
next
  case False
  then show ?thesis by (auto simp: verify_committed_def ct_len_ok_iff)
qed

definition sample_record :: SurfRecord where
  "sample_record = \<lparr>sr_ciphertext = [1, 2, 3], sr_tag = replicate 16 0, sr_seq = 4\<rparr>"

theorem verdict_committed_witness:
  "\<exists>passed. verify_committed xor_netlist sample_prover sample_keys (blocks_to_bytes (replicate num_powers 0))
     (replicate 32 0) sample_record = Some
     \<lparr>gv_tag_passed = passed, gv_cheated = False,
      gv_key_opened = (hirose_commit_host (map2 (XOR)) (replicate 16 3) (replicate 16 9) = replicate 32 0)\<rparr>"
  using verdict_committed [OF xor_netlist_ok sample_server, of sample_record "replicate 32 0"]
  by (simp add: sample_record_def sample_prover_def)

text \<open>C9. Derivation of the keystream of a record in masked mode, for honest parties: exactly
  if the verifier has verified the tag of that sequence number and the ciphertext is neither empty nor longer
  than it allows, it returns the AES-CTR blocks of the record under the shared key, one for each block of the
  ciphertext, with counters from 2; otherwise the verifier refuses and nothing is derived.\<close>

theorem keystream_recovered:
  assumes "aes_netlist bf aes" and "server_keys_agree P k" and "masks_agree aes P mask_commitment"
    and "length (sr_ciphertext rec) < 2 ^ 32"
  shows "derive_keystream aes bf P k verified_seqs mask_commitment rec =
    (if sr_seq rec \<in> set verified_seqs \<and> 0 < length (sr_ciphertext rec) \<and> length (sr_ciphertext rec) \<le> 16385
     then Some (map (\<lambda>i. aes (server_key P k) (tls_nonce (tk_server_iv k) (sr_seq rec) @ nat_be 4 (2 + i)))
       [0..<(length (sr_ciphertext rec) + 15) div 16])
     else None)"
proof (cases "ct_len_ok (length (sr_ciphertext rec)) \<and> sr_seq rec \<in> set verified_seqs")
  case True
  then have ok: "ct_len_ok (length (sr_ciphertext rec))" "sr_seq rec \<in> set verified_seqs" by simp_all
  from derive_keystream_eq [OF assms ok] ok show ?thesis by (simp add: ct_len_ok_iff)
next
  case False
  with derive_keystream_refused [OF assms(4) False, of aes bf P k mask_commitment] show ?thesis
    unfolding ct_len_ok_iff by (simp only:) auto
qed

theorem keystream_recovered_witness:
  "derive_keystream (map2 (XOR)) xor_netlist sample_prover sample_keys [4]
     (hirose_commit_host (map2 (XOR)) (replicate 16 5) (replicate 16 4)) sample_record = Some
     [xor_bytes (server_key sample_prover sample_keys) (tls_nonce (tk_server_iv sample_keys) 4 @ nat_be 4 2)] \<and>
   derive_keystream (map2 (XOR)) xor_netlist sample_prover sample_keys [3, 5]
     (hirose_commit_host (map2 (XOR)) (replicate 16 5) (replicate 16 4)) sample_record = None"
proof -
  have "masks_agree (map2 (XOR)) sample_prover (hirose_commit_host (map2 (XOR)) (replicate 16 5) (replicate 16 4))"
    using hirose_commit_bits(2) [OF xor_netlist_ok, of "replicate 16 5" "replicate 16 4"]
    by (simp add: masks_agree_def sample_prover_def)
  from keystream_recovered [OF xor_netlist_ok sample_server(1) this, of sample_record]
  show ?thesis by (simp add: sample_record_def upt_rec numeral_2_eq_2 [symmetric])
qed

text \<open>C23. Over all batches of a keystream derivation for records with distinct sequence
  numbers, the slots behind the last block included, no two slots have the same counter block: the circuit never
  encrypts an input twice.  (The prover asks for one record at a time; the verifier does not check that the
  numbers are distinct.)\<close>

theorem keystream_slots_distinct:
  assumes "distinct (map rd_seq recs)" and "i < 2 ^ 31" "j < 2 ^ 31"
    and "ks_counter recs nblocks i = Some (s, c)" "ks_counter recs nblocks j = Some (s', c')"
    and "ctr_block iv s c = ctr_block iv s' c'"
  shows "i = j"
  by (rule ks_counter_inject [OF assms])

theorem keystream_slots_distinct_witness:
  "ks_counter [\<lparr>rd_seq = 3, rd_ct_len = 20\<rparr>] 2 7 = Some (3, 0x80000007) \<and> (7 :: nat) = 7"
  using keystream_slots_distinct [of "[\<lparr>rd_seq = 3, rd_ct_len = 20\<rparr>]" 7 7 2 3 "0x80000007" 3 "0x80000007" "replicate 12 0"]
  by (simp add: ks_counter_def resolve_def rec_blocks_def)

definition sealed :: "(bytes \<Rightarrow> bytes \<Rightarrow> bytes) \<Rightarrow> bytes \<Rightarrow> bytes \<Rightarrow> 64 word \<times> bytes \<times> bytes \<Rightarrow> SurfRecord" where
  "sealed aes key iv = (\<lambda>(seq, pt, tag).
     \<lparr>sr_ciphertext = gctr aes key (tls_nonce iv seq) 2 pt, sr_tag = tag, sr_seq = seq\<rparr>)"

text \<open>C6. Release in TRUE mode, between honest parties.  The verifier gives up its key share
  exactly if it holds a commitment (there is a record, or one was sent before) and every captured record has
  an allowed length and the tag AES-GCM gives it; otherwise nothing is released.  The prover then holds the
  plaintexts the origin encrypted, and what it returns of them is what \<open>finish_release\<close> makes of the opened
  records: nothing unless the close\_notify stands where it has to and the handshake layer accepts the
  handshake records, else the data of the application records whose last byte is the content type.\<close>

theorem release_opens:
  assumes bf: "aes_netlist bf aes" and keys: "server_keys_agree P k"
    and g: "gcm_power_shares aes (server_key P k) powers (pv_sgcm_share P)"
    and tags: "\<forall>(seq, pt, tag) \<in> set ps. length tag = 16"
    and r: "length (pv_key_commit_rand P) = 16" and mode: "pv_surf_true_mode P" "\<not> pv_surf_key_released P"
  shows "true_surf_release aes bf replay P k powers cn (map (sealed aes (server_key P k) (tk_server_iv k)) ps) =
    (if (pv_surf_key_committed P \<or> ps \<noteq> []) \<and>
        (\<forall>(seq, pt, tag) \<in> set ps. 0 < length pt \<and> length pt \<le> 16385 \<and>
          gcm_tag_valid aes (server_key P k) (tls_nonce (tk_server_iv k) seq) (record_aad (length pt))
            (gctr aes (server_key P k) (tls_nonce (tk_server_iv k) seq) 2 pt) tag)
     then finish_release replay cn (map (\<lambda>(seq, pt, tag). pt) ps) else None)"
proof -
  let ?recs = "map (sealed aes (server_key P k) (tk_server_iv k)) ps"
  have t: "\<forall>rec \<in> set ?recs. length (sr_tag rec) = 16" using tags by (auto simp: sealed_def)
  have n: "gctr aes key nonce c x = [] \<longleftrightarrow> x = []" for key nonce c x by (metis length_gctr length_0_conv)
  have "map (open_gcm aes (server_key P k) (tk_server_iv k)) ?recs = map (\<lambda>(seq, pt, tag). pt) ps"
    by (auto simp: sealed_def open_gcm_def gctr_gctr)
  moreover have "(\<forall>rec \<in> set ?recs. ct_len_ok (length (sr_ciphertext rec)) \<and>
        record_valid aes (server_key P k) (tk_server_iv k) rec) \<longleftrightarrow>
      (\<forall>(seq, pt, tag) \<in> set ps. 0 < length pt \<and> length pt \<le> 16385 \<and>
        gcm_tag_valid aes (server_key P k) (tls_nonce (tk_server_iv k) seq) (record_aad (length pt))
          (gctr aes (server_key P k) (tls_nonce (tk_server_iv k) seq) 2 pt) tag)"
    using n by (simp add: sealed_def record_valid_def ct_len_ok_iff split_beta)
  ultimately show ?thesis using true_surf_release_eq [OF bf keys g t r mode, of replay cn] by (simp only: map_is_Nil_conv)
qed

definition sample_tag :: bytes where
  "sample_tag = tls_nonce (replicate 12 2) 4 @ nat_be 4 1"

lemma sample_sealed_valid:
  "record_valid (map2 (XOR)) (server_key sample_prover sample_keys) (tk_server_iv sample_keys)
     (sealed (map2 (XOR)) (server_key sample_prover sample_keys) (tk_server_iv sample_keys) (4, pt, sample_tag))"
proof -
  have k: "server_key sample_prover sample_keys = replicate 16 0" "tk_server_iv sample_keys = replicate 12 2"
    by (simp_all add: server_key_def sample_prover_def sample_keys_def)
  show ?thesis
    unfolding record_valid_def k
    by (rule zero_key_tag) (simp_all add: sealed_def sample_tag_def)
qed

theorem release_opens_witness:
  "true_surf_release (map2 (XOR)) xor_netlist (\<lambda>hs. True) sample_prover sample_keys
     (blocks_to_bytes (replicate num_powers 0)) False
     (map (sealed (map2 (XOR)) (server_key sample_prover sample_keys) (tk_server_iv sample_keys))
       [(4, [10, 11, 23], sample_tag)]) = Some [10, 11] \<and>
   true_surf_release (map2 (XOR)) xor_netlist (\<lambda>hs. True) sample_prover sample_keys
     (blocks_to_bytes (replicate num_powers 0)) False
     (map (sealed (map2 (XOR)) (server_key sample_prover sample_keys) (tk_server_iv sample_keys)) []) = None"
proof -
  have "length sample_tag = 16" by (simp add: sample_tag_def)
  moreover have "length (pv_key_commit_rand sample_prover) = 16" "pv_surf_true_mode sample_prover"
    "\<not> pv_surf_key_released sample_prover" "\<not> pv_surf_key_committed sample_prover"
    by (simp_all add: sample_prover_def)
  ultimately show ?thesis
    using release_opens [OF xor_netlist_ok sample_server, of "[(4, [10, 11, 23], sample_tag)]" "\<lambda>hs. True" False]
      release_opens [OF xor_netlist_ok sample_server, of "[]" "\<lambda>hs. True" False]
      sample_sealed_valid [of "[10, 11, 23]"]
    by (simp add: finish_release_def assemble_def is_app_record_def record_valid_def sealed_def)
qed

text \<open>C34. Assembly of a response: a record of application data contributes its data when the
  content type is its last byte, and nothing when any padding follows it.\<close>

theorem padded_data_lost:
  "assemble (xs @ (data @ 23 # replicate n 0) # ys) = assemble xs @ (if n = 0 then data else []) @ assemble ys"
proof (cases n)
  case 0
  then show ?thesis using unpadded_kept [of xs data ys] by simp
next
  case (Suc m)
  then show ?thesis using padded_dropped [of xs data m ys] by (simp add: assemble_append)
qed

section \<open>The verifier\<close>

text \<open>C10. Whatever the prover and the network do, over any sequence of rounds of the
  verifier's program: two joint encryptions with no new client key between them are under the same key share and
  have no counter block in common.  (Within one batch the slots behind the last block repeat its counter.)\<close>

theorem encryption_counters_fresh:
  "nonces_fresh (sv_trace (snd (run_verifier rs (s\<lparr>sv_trace := []\<rparr>))))"
  by (rule enc_guard.run_verifier_safe) simp

text \<open>C11. Over any sequence of rounds, every counter block the verifier evaluates in a keystream
  batch is one of a record whose tag an earlier run of a verification circuit has passed, under the same key
  share and with no cheating reported; in TRUE mode the key commitment was opened as well.\<close>

theorem keystream_needs_tag:
  "keystream_gated (sv_trace (snd (run_verifier rs (s\<lparr>sv_trace := []\<rparr>))))"
  by (rule ver_guard.run_verifier_safe) (simp add: keystream_gated_def)



text \<open>C13. A round that the verifier's program reports as successful has gone through the whole key
  schedule, each step on what the one before it returned: the joint x-coordinate, the handshake secrets from it,
  the traffic keys from the master secret, the GHASH shares of both traffic keys, and the resumption secret; and
  the verifier stands in its last state.\<close>

theorem round_completes:
  assumes "verifier_round E junk s = (Returned True, t)"
  shows "sv_state t = S_DONE \<and>
    (\<exists>a b x psk h k c v r.
      {Ran_ectf a b (Some x), Ran_handshake (x, psk) (Some h), Ran_traffic (ho_MS_share h) (Some k),
       Ran_gcm_share (tk_client_key_share k) (Some c), Ran_gcm_share (tk_server_key_share k) (Some v),
       Ran_resumption (ho_MS_share h) (Some r)} \<subseteq> set (sv_trace t))"
  using verifier_round_done [OF assms] unfolding key_schedule_def by blast

theorem round_completes_witness:
  "\<exists>t. verifier_round trial_env False (trial_server S_DONE []) = (Returned True, t) \<and> sv_state t = S_DONE"
  using trial_round round_completes [of trial_env False "trial_server S_DONE []"] by blast

text \<open>A tag may be asked for again: two runs in a row are under the same key share and the same first counter
  block, with ciphertext and header as they are held at that time.\<close>

theorem tag_nonce_repeats:
  assumes "make_gcm_tag E s = (Returned (), t)" "make_gcm_tag E t = (Returned (), u)"
  shows "\<exists>i j v w. sv_trace u = sv_trace s @ [Ran_gcm_tag i v, Ran_gcm_tag j w] \<and>
    gt_key_share i = gt_key_share j \<and> gt_iv i = gt_iv j"
  by (rule tag_event [OF assms(1)], rule tag_event [OF assms(2)]) auto

text \<open>The second key share: no state of the machine builds its handshake circuit, and waiting for the key schedule
  with that share active aborts.\<close>

theorem second_share_aborts:
  assumes "\<not> sv_circuits s C_HS1"
  shows "\<not> sv_circuits (snd (run_state E p st s)) C_HS1"
    and "sv_active_key_share s = 1 \<Longrightarrow> run_state E p S_KS_WAIT s = (Aborted, s)"
proof -
  show "\<not> sv_circuits (snd (run_state E p st s)) C_HS1"
    using no_new_hs1_run_state [of E p st] assms by (auto simp: evolves_def no_new_hs1_def)
  show "run_state E p S_KS_WAIT s = (Aborted, s)" if "sv_active_key_share s = 1"
    using assms that
    by (simp add: run_state_def do_ks_def handshake_circuit_def thenS_def bindS_def withS_def deref_circuit_def assertS_def)
qed

section \<open>Private information retrieval\<close>

text \<open>C14: for client parameters of LWE form (rows \<open>s A + e\<close> and \<open>s H\<close>), a query whose noise stays
  below half the scaling factor retrieves the row of the database: the entries modulo the plaintext size.\<close>

theorem pir_retrieval:
  assumes "wide db" "mx_rows db = m" "0 < dim"
    and "BaseParams_new rng seed db m es pb dim = Inr bp"
    and "lwe_params bp cp (Suc q) S E" "cp_plaintext_bits cp = pb" "0 < pb" "pb < 32"
    and "Query_create cp i = (Inr query, cp')"
    and "\<And>j. j < mx_cols db \<Longrightarrow> \<exists>v. (\<Sum>k<m. E q k * matrix_at db k j) = word_of_int v \<and>
      - (2 ^ (31 - pb)) < v \<and> v \<le> 2 ^ (31 - pb)"
  shows "bindR (Response_create bp query) (parse_response query cp') =
    Inr (map (\<lambda>j. matrix_at db i j mod 2 ^ pb) [0..<mx_cols db])"
  using assms by (rule retrieval)

definition sample_db :: Matrix where
  "sample_db = matrix_of 2 1 (\<lambda>i j. word_of_nat (5 + i))"

definition sample_bp :: BaseParams where
  "sample_bp = \<lparr>bp_dim = 1, bp_m = 2, bp_elem_size = 8, bp_plaintext_bits = 8, bp_public_seed = [],
     bp_A = matrix_of 1 2 (\<lambda>i j. 7), bp_H = matrix_of 1 1 (\<lambda>i j. 77), bp_db = sample_db,
     bp_trans_db = matrix_of 1 2 (\<lambda>i j. word_of_nat (5 + j))\<rparr>"

definition sample_cp :: ClientParams where
  "sample_cp = \<lparr>cp_dim = 1, cp_m = 2, cp_plaintext_bits = 8, cp_db_w = 1,
     cp_B = matrix_of 1 2 (\<lambda>i j. 8), cp_C = matrix_of 1 1 (\<lambda>i j. 77)\<rparr>"

theorem pir_retrieval_witness:
  "bindR (Response_create sample_bp \<lparr>q_b = [8, 8 + 2 ^ 24], q_c = [77]\<rparr>)
     (parse_response \<lparr>q_b = [8, 8 + 2 ^ 24], q_c = [77]\<rparr> (sample_cp\<lparr>cp_B := matrix_of 0 2 (\<lambda>i j. 8), cp_C := matrix_of 0 1 (\<lambda>i j. 77)\<rparr>)) =
   Inr [6]"
proof -
  have db: "wide sample_db" "mx_rows sample_db = 2" "mx_cols sample_db = 1" by (simp_all add: sample_db_def)
  have u: "[0..<2] = [0, 1]" by (simp add: numeral_2_eq_2)
  have A: "new_from_seed (\<lambda>_ _. 7) [] 1 2 = Inr (matrix_of 1 2 (\<lambda>i j. 7))"
    by (simp add: new_from_seed_def with_vector_def matrix_of_def grid_def numeral_2_eq_2)
  have "mult_transpose (matrix_of 1 2 (\<lambda>i j. 7)) sample_db = Inr (matrix_of 1 1 (\<lambda>i j. 77))"
    using mult_transpose_eq [of "matrix_of 1 2 (\<lambda>i j. 7)" sample_db]
      matrix_of_cong [of 1 1 "product (matrix_of 1 2 (\<lambda>i j. 7)) sample_db" "\<lambda>i j. 77"]
    by (simp add: product_def sample_db_def numeral_2_eq_2)
  moreover have "matrix_transpose sample_db = Inr (matrix_of 1 2 (\<lambda>i j. word_of_nat (5 + j)))"
    using matrix_transpose_eq [OF db(1)]
      matrix_of_cong [of 1 2 "\<lambda>i j. matrix_at sample_db j i" "\<lambda>i j. word_of_nat (5 + j)"]
    by (simp add: sample_db_def)
  ultimately have "BaseParams_new (\<lambda>_ _. 7) [] sample_db 2 8 8 1 = Inr sample_bp"
    unfolding BaseParams_new_def A by (simp add: sample_bp_def)
  moreover have "Query_create sample_cp 1 = (Inr \<lparr>q_b = [8, 8 + 2 ^ 24], q_c = [77]\<rparr>,
      sample_cp\<lparr>cp_B := matrix_of 0 2 (\<lambda>i j. 8), cp_C := matrix_of 0 1 (\<lambda>i j. 77)\<rparr>)"
    using Query_create_of [of sample_cp 0 2 "\<lambda>i j. 8" 1 "\<lambda>i j. 77" 1] by (simp add: sample_cp_def u)
  moreover have "lwe_params sample_bp sample_cp (Suc 0) (\<lambda>_ _. 1) (\<lambda>_ _. 1)"
    using matrix_of_cong [of 1 2 "\<lambda>i j. matrix_at (matrix_of (Suc 0) 2 (\<lambda>i j. 7)) 0 j + 1" "\<lambda>i j. 8"]
      matrix_of_cong [of 1 1 "\<lambda>i j. matrix_at (matrix_of (Suc 0) (Suc 0) (\<lambda>i j. 77)) 0 j" "\<lambda>i j. 77"]
    by (simp add: lwe_params_def sample_bp_def sample_cp_def sample_db_def)
  moreover have "\<exists>v. (\<Sum>k<2. 1 * matrix_at sample_db k j) = word_of_int v \<and> - (2 ^ (31 - 8)) < v \<and> v \<le> 2 ^ (31 - 8)"
    if "j < 1" for j
    using that by (intro exI [of _ 11]) (simp add: sample_db_def numeral_2_eq_2)
  ultimately show ?thesis
    using pir_retrieval [of sample_db 2 1 "\<lambda>_ _. 7" "[]" 8 8 sample_bp sample_cp 0 "\<lambda>_ _. 1" "\<lambda>_ _. 1" 1]
    by (simp add: sample_db_def sample_cp_def)
qed

text \<open>C15: the parameters that \<open>ClientParams_new\<close> makes are zero whatever is drawn, since the
  vectors of secrets and noise start with zeros and are only extended; the first vector of a query then
  is zero except at the wanted row, where it is the scaling factor.\<close>

theorem query_in_clear:
  assumes "accepting os" "0 < queries" "queries < 2 ^ 52" "0 < dim" "0 < m" "wide H" "mx_rows H = dim"
    and "0 < pb" "pb < 32" "i < m"
  shows "\<exists>cp q cp'. ClientParams_new rng os m dim pb db_w seed H queries = Some (Inr cp) \<and>
    Query_create cp i = (Inr q, cp') \<and> q_b q = (replicate m 0)[i := 2 ^ (32 - pb)] \<and> q_c q = replicate (mx_cols H) 0"
proof -
  obtain n where n: "queries = Suc n" using assms(2) by (cases queries) simp_all
  show ?thesis
    using ClientParams_new_zero [OF assms(1-7)] Query_create_zero [of _ n m "mx_cols H" i] assms(8-10)
    by (simp add: n)
qed

theorem query_in_clear_witness:
  "\<exists>cp q cp'. ClientParams_new (\<lambda>_ _. 3) (\<lambda>i. word_of_nat i) 2 1 8 1 [] (matrix_of 1 1 (\<lambda>i j. 77)) 1 = Some (Inr cp) \<and>
    Query_create cp 1 = (Inr q, cp') \<and> q_b q = (replicate 2 0)[1 := 2 ^ 24] \<and> q_c q = replicate 1 0"
proof -
  have "accepting (\<lambda>i. word_of_nat i)"
    unfolding accepting_def
  proof (intro allI exI conjI)
    fix i :: nat
    show "i \<le> 2 ^ 32 * i" by simp
    show "(word_of_nat (2 ^ 32 * i) :: u32) \<le> TERNARY_REJECTION_SAMPLING_MAX"
    proof -
      have "(2 ^ 32 :: u32) = 0" by simp
      then have "(word_of_nat (2 ^ 32 * i) :: u32) = 0" by (simp only: of_nat_mult of_nat_power of_nat_numeral) simp
      then show ?thesis by simp
    qed
  qed
  from query_in_clear [OF this, of 1 1 2 "matrix_of 1 1 (\<lambda>i j. 77)" 8 1 "\<lambda>_ _. 3" 1 "[]"]
  show ?thesis by simp
qed

text \<open>C16: a whole run, from the database of encoded elements to the encoded result, ends; it returns
  the element that was asked for when the size of the elements is no multiple of the plaintext bits, and
  the element without its last plaintext bits when it is.\<close>

theorem pir_run:
  assumes "0 < pb" "pb < 32" "0 < dim" "0 < es" "i < length raws" "accepting os"
    and "\<And>r. r \<in> set raws \<Longrightarrow> 8 * length r = es \<and> dec (enc r) = Some r"
  shows "frodo_run dec enc rng os seed (map enc raws) (length raws) es pb dim i =
    Some (Inr (enc (if es mod pb \<noteq> 0 then raws ! i
      else bits_to_bytes_le (take (es - pb) (bytes_to_bits_le (raws ! i))))))"
proof -
  have r: "8 * length (raws ! i) = es" using assms(5,7) by simp
  have m: "0 < length raws" using assms(5) by linarith
  show ?thesis
    using frodo_run_eq [OF assms(1,2) m assms(3,4) refl assms(7,6,5)]
      printed_whole [OF assms(1,4) r] printed_short [OF assms(1,4) r] by simp
qed

definition sample_encode :: "bytes \<Rightarrow> string" where
  "sample_encode bs = map (\<lambda>b. char_of (unat b)) bs"

definition sample_decode :: "string \<Rightarrow> bytes option" where
  "sample_decode s = Some (map (\<lambda>c. word_of_nat (of_char c)) s)"

theorem pir_run_witness:
  "frodo_run sample_decode sample_encode (\<lambda>_ _. 3) (\<lambda>_. 0) [] (map sample_encode [[1, 2], [3, 254]]) 2 16 12 4 1 =
     Some (Inr (sample_encode [3, 254])) \<and>
   frodo_run sample_decode sample_encode (\<lambda>_ _. 3) (\<lambda>_. 0) [] (map sample_encode [[1, 2], [3, 254]]) 2 16 8 4 1 =
     Some (Inr (sample_encode [3]))"
proof -
  have a: "accepting (\<lambda>_. 0)" by (auto simp: accepting_def)
  have "unat b mod 256 = unat b" for b :: byte using unsigned_less [where w = b and 'a = nat] by simp
  then have c: "sample_decode (sample_encode r) = Some r" for r
    by (simp add: sample_decode_def sample_encode_def o_def)
  have b: "bits_to_bytes_le (take (16 - 8) (bytes_to_bits_le [3, 254])) = [3]" by code_simp
  let ?raws = "[[1, 2], [3, 254]] :: bytes list"
  have r: "8 * length r = 16 \<and> sample_decode (sample_encode r) = Some r" if "r \<in> set ?raws" for r
    using that c by auto
  have "frodo_run sample_decode sample_encode (\<lambda>_ _. 3) (\<lambda>_. 0) [] (map sample_encode ?raws) (length ?raws) 16 12 4 1 =
      Some (Inr (sample_encode (if 16 mod 12 \<noteq> (0 :: nat) then ?raws ! 1
        else bits_to_bytes_le (take (16 - 12) (bytes_to_bits_le (?raws ! 1))))))"
    by (rule pir_run) (use a r in simp_all)
  moreover have "frodo_run sample_decode sample_encode (\<lambda>_ _. 3) (\<lambda>_. 0) [] (map sample_encode ?raws) (length ?raws) 16 8 4 1 =
      Some (Inr (sample_encode (if 16 mod 8 \<noteq> (0 :: nat) then ?raws ! 1
        else bits_to_bytes_le (take (16 - 8) (bytes_to_bits_le (?raws ! 1))))))"
    by (rule pir_run) (use a r in simp_all)
  ultimately show ?thesis using b by (simp add: numeral_2_eq_2)
qed

text \<open>C31: the multiplication that works on rows of the transposed matrix gives what the
  textbook loops give.\<close>

theorem mult_transpose_naive:
  assumes "wide a" "wide b" "mx_cols a = mx_rows b"
  shows "mult_transpose a b = mult_naive a b"
  using mult_transpose_eq [OF assms] mult_naive_eq [OF assms] by simp

theorem mult_transpose_naive_witness:
  "mult_transpose (matrix_of 1 2 (\<lambda>i j. 3)) (matrix_of 2 2 (\<lambda>i j. 4)) = Inr (matrix_of 1 2 (\<lambda>i j. 24))"
proof -
  have "mult_naive (matrix_of 1 2 (\<lambda>i j. 3)) (matrix_of 2 2 (\<lambda>i j. 4)) = Inr (matrix_of 1 2 (\<lambda>i j. 24))" by code_simp
  then show ?thesis
    using mult_transpose_naive [of "matrix_of 1 2 (\<lambda>i j. 3)" "matrix_of 2 2 (\<lambda>i j. 4)"] by simp
qed

text \<open>C32: every query on \<open>k\<close> prepared rows takes exactly the last row of both matrices, also a
  query that fails, and leaves the others as they are; it succeeds exactly if the index is in range and the
  addition does not overflow, with the row taken, and is refused as a reuse exactly when no row is left.  After
  any number of queries that many rows are gone, so no row is used twice.\<close>

theorem params_consumed:
  assumes "cp_B cp = matrix_of k m f" "cp_C cp = matrix_of k w g"
    and "0 < cp_plaintext_bits cp" "cp_plaintext_bits cp < 32"
  shows "Query_create cp i =
      (if k = 0 then Inl ErrorQueryParamsReused
       else if i < m \<and> unat (f (k - 1) i) + 2 ^ (32 - cp_plaintext_bits cp) < 2 ^ 32
       then Inr \<lparr>q_b = map (\<lambda>j. f (k - 1) j + (if j = i then 2 ^ (32 - cp_plaintext_bits cp) else 0)) [0..<m],
                 q_c = map (g (k - 1)) [0..<w]\<rparr>
       else Inl ErrorOverflownAdd,
       cp\<lparr>cp_B := matrix_of (k - 1) m f, cp_C := matrix_of (k - 1) w g\<rparr>) \<and>
    foldl (\<lambda>cp i. snd (Query_create cp i)) cp rows =
      cp\<lparr>cp_B := matrix_of (k - length rows) m f, cp_C := matrix_of (k - length rows) w g\<rparr>"
  using Query_create_rows [OF assms] queries_consume [OF assms] by simp

theorem params_consumed_witness:
  "fst (Query_create sample_cp 0) =
     Inr \<lparr>q_b = [8 + 2 ^ (32 - cp_plaintext_bits sample_cp), 8], q_c = [77]\<rparr> \<and>
   fst (Query_create sample_cp 7) = Inl ErrorOverflownAdd \<and>
   snd (Query_create sample_cp 7) = sample_cp\<lparr>cp_B := matrix_of 0 2 (\<lambda>i j. 8), cp_C := matrix_of 0 1 (\<lambda>i j. 77)\<rparr>"
  using params_consumed [of sample_cp 1 2 "\<lambda>i j. 8" 1 "\<lambda>i j. 77" 0 "[7]"]
    params_consumed [of sample_cp 1 2 "\<lambda>i j. 8" 1 "\<lambda>i j. 77" 7 "[]"]
  by (simp add: sample_cp_def upt_rec)

text \<open>C40: of the words that sampling accepts, one more is mapped to 0 than to 1 and to -1.\<close>

theorem ternary_bias:
  "card {v. v \<le> TERNARY_REJECTION_SAMPLING_MAX \<and> ternary_value v = 0} =
     card {v. v \<le> TERNARY_REJECTION_SAMPLING_MAX \<and> ternary_value v = 1} + 1 \<and>
   card {v. v \<le> TERNARY_REJECTION_SAMPLING_MAX \<and> ternary_value v = 1} =
     card {v. v \<le> TERNARY_REJECTION_SAMPLING_MAX \<and> ternary_value v = - 1}"
  by (simp add: ternary_counts)

end
